(* ===== verification/Floats.thy ===== *)
theory Floats
  imports Complex_Main "HOL-Library.Log_Nat" "HOL-Library.Signed_Division"
begin

text \<open>
  The finite numbers of Go's \<open>float64\<close> and \<open>float32\<close>, as the rational numbers they stand for: an
  operation is the exact one followed by rounding to the nearest number of the format, ties to the even
  one, with gradual underflow. The sources of this development compute durations and ratios of buffer
  sizes, far from the largest numbers, so infinities are left out; signs of zero have no effect. Go
  permits the compiler to fuse a product with a sum on some platforms, which rounds once less; here every
  operation rounds.
\<close>

section \<open>Definitions\<close>

text \<open>The exponent of the leading bit of a number that is not zero.\<close>

definition leading_exponent :: "rat \<Rightarrow> int" where
  "leading_exponent x =
     (case quotient_of \<bar>x\<bar> of (p, q) \<Rightarrow>
        let e = bitlen p - bitlen q
        in if 2 powi e \<le> \<bar>x\<bar> then e else e - 1)"

definition round_half_even :: "rat \<Rightarrow> int" where
  "round_half_even y =
     (let n = \<lfloor>y\<rfloor>; d = y - of_int n
      in if d < 1 / 2 then n else if d > 1 / 2 then n + 1 else if even n then n else n + 1)"

text \<open>Rounding to \<open>prec\<close> bits; the last bit of no number is below \<open>2 powi emin\<close>.\<close>

definition round_to :: "int \<Rightarrow> int \<Rightarrow> rat \<Rightarrow> rat" where
  "round_to prec emin x =
     (if x = 0 then 0
      else let ulp = 2 powi (max (leading_exponent x - prec + 1) emin)
           in of_int (round_half_even (x / ulp)) * ulp)"

definition fl64 :: "rat \<Rightarrow> rat" where
  "fl64 x = round_to 53 (- 1074) x"

definition fl32 :: "rat \<Rightarrow> rat" where
  "fl32 x = round_to 24 (- 149) x"

text \<open>Converting to an integer drops the fraction.\<close>

definition float_to_int :: "rat \<Rightarrow> int" where
  "float_to_int f = (if f < 0 then \<lceil>f\<rceil> else \<lfloor>f\<rfloor>)"

text \<open>\<open>Duration.Seconds\<close> of package \<open>time\<close>.\<close>

definition duration_Seconds :: "int \<Rightarrow> rat" where
  "duration_Seconds d =
     (let sec = d sdiv 1000000000; nsec = d smod 1000000000
      in fl64 (fl64 (of_int sec) + fl64 (fl64 (of_int nsec) / 1000000000)))"

section \<open>Rounding errors\<close>

lemma leading_exponent_bounds:
  assumes "x \<noteq> 0"
  shows "2 powi (leading_exponent x) \<le> \<bar>x\<bar>" and "\<bar>x\<bar> < 2 powi (leading_exponent x + 1)"
proof -
  obtain p q where pq: "quotient_of \<bar>x\<bar> = (p, q)" by fastforce
  let ?e = "bitlen p - bitlen q"
  have q: "0 < q" using quotient_of_denom_pos [OF pq] .
  have x: "\<bar>x\<bar> = of_int p / of_int q" by (rule quotient_of_div [OF pq])
  have "0 < \<bar>x\<bar>" using assms by simp
  then have p: "0 < p" using q unfolding x by (simp add: zero_less_divide_iff)
  have one: "1 \<le> bitlen p" "1 \<le> bitlen q" using p q bitlen_eq_zero_iff [of p] bitlen_eq_zero_iff [of q]
      bitlen_nonneg [of p] bitlen_nonneg [of q] by linarith+
  have pw: "(2 :: rat) powi b = of_int (2 ^ nat b)" if "0 \<le> b" for b using that by (simp add: power_int_def)
  have "of_int (2 ^ nat (bitlen p - 1)) \<le> (of_int p :: rat)" "(of_int p :: rat) < of_int (2 ^ nat (bitlen p))"
    "of_int (2 ^ nat (bitlen q - 1)) \<le> (of_int q :: rat)" "(of_int q :: rat) < of_int (2 ^ nat (bitlen q))"
    using bitlen_bounds [OF p] bitlen_bounds [OF q] by (simp_all only: of_int_le_iff of_int_less_iff)
  then have b: "2 powi (bitlen p - 1) \<le> (of_int p :: rat)" "(of_int p :: rat) < 2 powi (bitlen p)"
    "2 powi (bitlen q - 1) \<le> (of_int q :: rat)" "(of_int q :: rat) < 2 powi (bitlen q)"
    using one by (simp_all only: pw)
  have pos: "0 < (of_int q :: rat)" "0 < (2 :: rat) powi bitlen q" "0 < (2 :: rat) powi (bitlen q - 1)" using q by simp_all
  have "(2 :: rat) powi (?e - 1) = 2 powi (bitlen p - 1) / 2 powi (bitlen q)"
    by (simp add: power_int_diff [symmetric] algebra_simps)
  also have "\<dots> \<le> of_int p / of_int q"
    using b(1,4) pos p by (intro frac_le) simp_all
  finally have low: "2 powi (?e - 1) \<le> \<bar>x\<bar>" unfolding x .
  have "of_int p / of_int q < 2 powi (bitlen p) / (2 :: rat) powi (bitlen q - 1)"
    using b(2,3) pos p by (intro frac_less) simp_all
  also have "\<dots> = 2 powi (?e + 1)" by (simp add: power_int_diff [symmetric] algebra_simps)
  finally have high: "\<bar>x\<bar> < 2 powi (?e + 1)" unfolding x .
  have e: "leading_exponent x = (if 2 powi ?e \<le> \<bar>x\<bar> then ?e else ?e - 1)"
    by (simp add: leading_exponent_def pq Let_def)
  show "2 powi (leading_exponent x) \<le> \<bar>x\<bar>" "\<bar>x\<bar> < 2 powi (leading_exponent x + 1)"
    using low high by (auto simp: e)
qed

lemma round_half_even_error: "\<bar>of_int (round_half_even y) - y\<bar> \<le> 1 / 2"
proof -
  have "of_int \<lfloor>y\<rfloor> \<le> y" "y < of_int \<lfloor>y\<rfloor> + 1" by linarith+
  then show ?thesis by (auto simp: round_half_even_def Let_def abs_le_iff)
qed

lemma round_to_error:
  assumes "x \<noteq> 0"
  shows "\<bar>round_to prec emin x - x\<bar> \<le> 2 powi (max (leading_exponent x - prec + 1) emin) / 2"
proof -
  define u :: rat where "u = 2 powi (max (leading_exponent x - prec + 1) emin)"
  have u: "0 < u" by (simp add: u_def)
  have "round_to prec emin x - x = (of_int (round_half_even (x / u)) - x / u) * u"
    using assms u by (simp add: round_to_def Let_def u_def [symmetric] left_diff_distrib)
  then have "\<bar>round_to prec emin x - x\<bar> = \<bar>of_int (round_half_even (x / u)) - x / u\<bar> * u"
    using u by (simp add: abs_mult)
  also have "\<dots> \<le> 1 / 2 * u" using round_half_even_error u by (intro mult_right_mono) simp_all
  finally show ?thesis by (simp add: u_def)
qed

lemma fl64_0 [simp]: "fl64 0 = 0"
  by (simp add: fl64_def round_to_def)

lemma fl64_1 [simp]: "fl64 1 = 1"
  by code_simp

text \<open>A bound that is coarse (by a factor of eight) but has no exponents in it.\<close>

lemma fl64_error: "\<bar>fl64 x - x\<bar> \<le> (\<bar>x\<bar> + 1) / 2 ^ 50"
proof (cases "x = 0")
  case False
  have "2 powi (max (leading_exponent x - 52) (- 1074)) \<le> (\<bar>x\<bar> + 1) / (2 ^ 50 :: rat)"
  proof (cases "- 1074 \<le> leading_exponent x - 52")
    case True
    have "(2 :: rat) powi (leading_exponent x - 52) = 2 powi (leading_exponent x) / 2 ^ 52"
      by (simp add: power_int_diff)
    also have "\<dots> \<le> \<bar>x\<bar> / 2 ^ 52" using leading_exponent_bounds(1) [OF False] by (simp add: divide_right_mono)
    also have "\<dots> \<le> (\<bar>x\<bar> + 1) / 2 ^ 50" by (simp add: field_simps)
    finally show ?thesis using True by (simp add: max_def)
  next
    case f: False
    have "(2 :: rat) powi (- 1074) = inverse (2 ^ 1074)" by (simp add: power_int_minus)
    also have "\<dots> \<le> inverse (2 ^ 50)" by (intro le_imp_inverse_le power_increasing) simp_all
    also have "\<dots> \<le> (\<bar>x\<bar> + 1) / 2 ^ 50" by (simp add: field_simps)
    finally show ?thesis using f by (simp add: max_def)
  qed
  then show ?thesis using round_to_error [OF False, of 53 "- 1074"] by (simp add: fl64_def)
qed simp

text \<open>The same without quotients, for linear arithmetic.\<close>

lemma fl64_within:
  assumes "- B \<le> x" and "x \<le> B"
  shows "1000000000000000 * x \<le> 1000000000000000 * fl64 x + B + 1"
    and "1000000000000000 * fl64 x \<le> 1000000000000000 * x + B + 1"
proof -
  have b: "\<bar>x\<bar> \<le> B" "0 \<le> \<bar>x\<bar>" using assms by (simp_all add: abs_le_iff)
  have "\<bar>fl64 x - x\<bar> * 1125899906842624 \<le> \<bar>x\<bar> + 1" using fl64_error [of x] by (simp add: field_simps)
  moreover have "\<bar>fl64 x - x\<bar> * 1000000000000000 \<le> \<bar>fl64 x - x\<bar> * 1125899906842624" by (rule mult_left_mono) simp_all
  ultimately have bound: "\<bar>fl64 x - x\<bar> * 1000000000000000 \<le> B + 1" using b by linarith
  have "(fl64 x - x) * 1000000000000000 \<le> \<bar>fl64 x - x\<bar> * 1000000000000000"
    "(x - fl64 x) * 1000000000000000 \<le> \<bar>fl64 x - x\<bar> * 1000000000000000"
    by (rule mult_right_mono; simp)+
  note this [THEN order_trans, OF bound, unfolded left_diff_distrib]
  then show "1000000000000000 * x \<le> 1000000000000000 * fl64 x + B + 1"
    "1000000000000000 * fl64 x \<le> 1000000000000000 * x + B + 1" by linarith+
qed

text \<open>How errors add up.\<close>

lemma fl64_bound:
  assumes "\<bar>x\<bar> \<le> B"
  shows "\<bar>fl64 x - x\<bar> \<le> (B + 1) / 1000000000000000"
proof -
  have "\<bar>fl64 x - x\<bar> \<le> (\<bar>x\<bar> + 1) / 2 ^ 50" by (rule fl64_error)
  also have "\<dots> \<le> (B + 1) / 1000000000000000" using assms by (intro frac_le) simp_all
  finally show ?thesis .
qed

lemma error_trans:
  fixes x y z :: rat
  assumes "\<bar>x - y\<bar> \<le> e" and "\<bar>y - z\<bar> \<le> f" and "e + f \<le> g"
  shows "\<bar>x - z\<bar> \<le> g"
proof -
  have "\<bar>x - z\<bar> \<le> \<bar>x - y\<bar> + \<bar>y - z\<bar>" using abs_triangle_ineq [of "x - y" "y - z"] by simp
  then show ?thesis using assms by linarith
qed

lemma error_sum:
  fixes x y :: rat
  assumes "\<bar>x' - x\<bar> \<le> e" and "\<bar>y' - y\<bar> \<le> f" and "e + f \<le> g"
  shows "\<bar>(x' + y') - (x + y)\<bar> \<le> g"
proof -
  have "\<bar>(x' + y') - (x + y)\<bar> \<le> \<bar>x' - x\<bar> + \<bar>y' - y\<bar>" using abs_triangle_ineq [of "x' - x" "y' - y"] by (simp add: algebra_simps)
  then show ?thesis using assms by linarith
qed

lemma error_size:
  fixes x y :: rat
  assumes "\<bar>x - y\<bar> \<le> e" and "\<bar>y\<bar> \<le> b" and "e + b \<le> c"
  shows "\<bar>x\<bar> \<le> c"
  using error_trans [of x y e 0 b c] assms by simp

text \<open>Errors of a product.\<close>

lemma product_error:
  fixes x y :: rat
  assumes "\<bar>x' - x\<bar> \<le> e" and "\<bar>y' - y\<bar> \<le> f" and "\<bar>y'\<bar> \<le> c" and "\<bar>x\<bar> \<le> b" and "e * c + b * f \<le> g"
  shows "\<bar>x' * y' - x * y\<bar> \<le> g"
proof -
  have nn: "0 \<le> e" "0 \<le> b" using assms(1,4) abs_ge_zero order_trans by blast+
  have "x' * y' - x * y = (x' - x) * y' + x * (y' - y)" by (simp add: algebra_simps)
  then have "\<bar>x' * y' - x * y\<bar> \<le> \<bar>x' - x\<bar> * \<bar>y'\<bar> + \<bar>x\<bar> * \<bar>y' - y\<bar>" by (metis abs_mult abs_triangle_ineq)
  also have "\<dots> \<le> e * c + b * f" using assms(1-4) nn by (intro add_mono mult_mono) simp_all
  also note assms(5)
  finally show ?thesis .
qed

lemma float_to_int_error: "\<bar>of_int (float_to_int f) - f\<bar> < 1" "0 \<le> f \<Longrightarrow> float_to_int f = \<lfloor>f\<rfloor>"
  by (auto simp: float_to_int_def abs_less_iff) linarith+

text \<open>\<open>Seconds\<close> is right up to a millisecond, for all durations of 64 bits.\<close>

lemma duration_Seconds_bounds:
  assumes "- 10000000000000000000 \<le> d" and "d \<le> 10000000000000000000"
  shows "of_int d - 1000000 \<le> 1000000000 * duration_Seconds d" and "1000000000 * duration_Seconds d \<le> of_int d + 1000000"
proof -
  define s n where "s = d sdiv 1000000000" and "n = d smod 1000000000"
  have d: "d = s * 1000000000 + n" using sdiv_mult_smod_eq [of d 1000000000] by (simp add: s_def n_def)
  have "\<bar>n\<bar> < 1000000000" by (simp add: n_def signed_modulo_int_def abs_mult sgn_if)
  then have "- 1000000000 < n" "n < 1000000000" by linarith+
  moreover from this have "- 10000000001 \<le> s" "s \<le> 10000000001" using assms d by linarith+
  ultimately have "- 1000000000 < (of_int n :: rat)" "(of_int n :: rat) < 1000000000"
    "- 10000000001 \<le> (of_int s :: rat)" "(of_int s :: rat) \<le> 10000000001" by linarith+
  moreover obtain a b :: rat where ab: "a = of_int s" "b = of_int n" by blast
  ultimately have r: "- 1000000000 \<le> b" "b \<le> 1000000000" "- 10000000001 \<le> a" "a \<le> 10000000001" by simp_all
  define S N v M where "S = fl64 a" and "N = fl64 b" and "v = N / 1000000000" and "M = fl64 v"
  have v: "1000000000 * v = N" by (simp add: v_def)
  have sb: "1000000000 * a - 30000 \<le> 1000000000 * S" "1000000000 * S \<le> 1000000000 * a + 30000"
    using fl64_within [OF r(3,4)] unfolding S_def by linarith+
  have n: "b - 1 \<le> N" "N \<le> b + 1" using fl64_within [OF r(1,2)] unfolding N_def by linarith+
  have v2: "- 2 \<le> v" "v \<le> 2" using n r(1,2) v by linarith+
  have m: "N - 1 \<le> 1000000000 * M" "1000000000 * M \<le> N + 1"
    using fl64_within [OF v2] unfolding M_def v [symmetric] by linarith+
  have "- 20000000000 \<le> S + M" "S + M \<le> 20000000000" using sb m n r by linarith+
  from fl64_within [OF this] have t: "1000000000 * (S + M) - 30000 \<le> 1000000000 * fl64 (S + M)"
    "1000000000 * fl64 (S + M) \<le> 1000000000 * (S + M) + 30000" by linarith+
  have q: "duration_Seconds d = fl64 (S + M)" by (simp add: duration_Seconds_def Let_def S_def M_def v_def N_def ab s_def n_def)
  have dr: "of_int d = 1000000000 * a + b" by (simp add: d ab)
  show "of_int d - 1000000 \<le> 1000000000 * duration_Seconds d" "1000000000 * duration_Seconds d \<le> of_int d + 1000000"
    unfolding q dr using t [unfolded distrib_left] m n sb by linarith+
qed

end
