(* ===== verification/Prelude.thy ===== *)
theory Prelude
  imports Main "HOL-Library.Multiset" "HOL-Library.AList"
begin

text \<open>
  Shared vocabulary of the development.

  \<^item> \<open>'a go\<close> is the outcome of running Go code that may panic: \<open>Ret x\<close> (it returned
    \<open>x\<close>), \<open>Panic\<close> (index out of range, nil dereference, explicit \<open>panic\<close>) or
    \<open>Diverge\<close> (the recursion budget of a fuel-indexed definition ran out; no other
    definition produces it).
  \<^item> \<open>('k, 'v) gomap\<close> is a Go map: an association list with distinct keys. The
    language leaves the order in which \<open>range\<close> visits a map unspecified, so every
    definition that ranges over a map takes a \<open>range_order\<close>: an arbitrary function that
    permutes the list it is given. Theorems hold for every such function.
\<close>

named_theorems go_simps "equations of the go outcome monad"
named_theorems gomap_simps "lookup and key-set equations of Go maps"

section \<open>Outcomes of Go code\<close>

datatype 'a go = Ret 'a | Panic | Diverge

primrec go_bind :: "'a go \<Rightarrow> ('a \<Rightarrow> 'b go) \<Rightarrow> 'b go" where
  "go_bind (Ret x) f = f x"
| "go_bind Panic f = Panic"
| "go_bind Diverge f = Diverge"

text \<open>A Go loop that evaluates an expression for every element and collects the results.\<close>

primrec go_collect :: "'a go list \<Rightarrow> 'a list go" where
  "go_collect [] = Ret []"
| "go_collect (m # ms) = go_bind m (\<lambda>x. go_bind (go_collect ms) (\<lambda>xs. Ret (x # xs)))"

text \<open>The result of a call that returned with its \<open>ok\<close> flag set.\<close>

definition go_is_some :: "'a option go \<Rightarrow> bool" where
  "go_is_some m = (case m of Ret (Some _) \<Rightarrow> True | _ \<Rightarrow> False)"

definition go_some :: "'a option go \<Rightarrow> 'a" where
  "go_some m = (case m of Ret (Some x) \<Rightarrow> x)"

section \<open>Go maps\<close>

type_synonym ('k, 'v) gomap = "('k \<times> 'v) list"

definition gm_get :: "('k, 'v) gomap \<Rightarrow> 'k \<Rightarrow> 'v option" where
  "gm_get m k = map_of m k"

definition gm_put :: "('k, 'v) gomap \<Rightarrow> 'k \<Rightarrow> 'v \<Rightarrow> ('k, 'v) gomap" where
  "gm_put m k v = AList.update k v m"

definition gm_delete :: "('k, 'v) gomap \<Rightarrow> 'k \<Rightarrow> ('k, 'v) gomap" where
  "gm_delete m k = AList.delete k m"

definition gm_keys :: "('k, 'v) gomap \<Rightarrow> 'k list" where
  "gm_keys m = map fst m"

definition gm_wf :: "('k, 'v) gomap \<Rightarrow> bool" where
  "gm_wf m \<longleftrightarrow> distinct (map fst m)"

section \<open>The order in which range visits a map\<close>

typedef 'a range_order = "{f :: 'a list \<Rightarrow> 'a list. \<forall>xs. mset (f xs) = mset xs}"
  morphisms range_in Range_order
  by (rule exI [of _ id]) simp

setup_lifting type_definition_range_order

lift_definition insertion_order :: "'a range_order" is "\<lambda>xs. xs"
  by simp

lift_definition reverse_order :: "'a range_order" is rev
  by simp

section \<open>Lemmas on outcomes\<close>

lemma go_bind_cong [fundef_cong]:
  assumes "m = m'" and "\<And>x. m' = Ret x \<Longrightarrow> f x = f' x"
  shows "go_bind m f = go_bind m' f'"
  using assms by (cases m') auto

lemma go_bind_eq_Ret [go_simps]:
  "go_bind m f = Ret y \<longleftrightarrow> (\<exists>x. m = Ret x \<and> f x = Ret y)"
  by (cases m) auto

lemma go_bind_eq_Panic [go_simps]:
  "go_bind m f = Panic \<longleftrightarrow> m = Panic \<or> (\<exists>x. m = Ret x \<and> f x = Panic)"
  by (cases m) auto

lemma go_bind_assoc [simp]:
  "go_bind (go_bind m f) g = go_bind m (\<lambda>x. go_bind (f x) g)"
  by (cases m) auto

lemma go_some_eq: "go_is_some m \<Longrightarrow> m = Ret (Some (go_some m))"
  by (auto simp: go_is_some_def go_some_def split: go.splits option.splits)

lemma Inr_projr: "\<not> isl s \<Longrightarrow> s = Inr (projr s)"
  by (cases s) auto

lemma go_collect_Ret [simp]: "go_collect (map (\<lambda>x. Ret (f x)) xs) = Ret (map f xs)"
  by (induction xs) auto

lemma go_collect_cong_Ret:
  assumes "\<And>x. x \<in> set xs \<Longrightarrow> f x = Ret (g x)"
  shows "go_collect (map f xs) = Ret (map g xs)"
  using assms by (induction xs) auto

lemma go_collect_length: "go_collect ms = Ret xs \<Longrightarrow> length xs = length ms"
  by (induction ms arbitrary: xs) (auto simp: go_simps)

section \<open>Lemmas on maps and range orders\<close>

lemma gm_get_put [gomap_simps]:
  "gm_get (gm_put m k v) k' = (if k' = k then Some v else gm_get m k')"
  by (simp add: gm_get_def gm_put_def update_conv')

lemma gm_get_delete [gomap_simps]:
  "gm_get (gm_delete m k) k' = (if k' = k then None else gm_get m k')"
  by (simp add: gm_get_def gm_delete_def delete_conv')

lemma gm_get_Nil [gomap_simps, simp]: "gm_get [] k = None"
  by (simp add: gm_get_def)

lemma gm_wf_Nil [simp]: "gm_wf []"
  by (simp add: gm_wf_def)

lemma gm_wf_put [intro, simp]: "gm_wf m \<Longrightarrow> gm_wf (gm_put m k v)"
  by (simp add: gm_wf_def gm_put_def distinct_update)

lemma gm_wf_delete [intro, simp]: "gm_wf m \<Longrightarrow> gm_wf (gm_delete m k)"
  by (simp add: gm_wf_def gm_delete_def distinct_delete)

lemma gm_get_wf: "gm_wf m \<Longrightarrow> gm_get m k = Some v \<longleftrightarrow> (k, v) \<in> set m"
  by (simp add: gm_wf_def gm_get_def)

lemma gm_keys_put [gomap_simps]: "set (gm_keys (gm_put m k v)) = insert k (set (gm_keys m))"
  by (simp add: gm_keys_def gm_put_def dom_update [symmetric] dom_map_of_conv_image_fst [symmetric]
      update_conv')

lemma gm_keys_Nil [simp]: "gm_keys [] = []"
  by (simp add: gm_keys_def)

lemma gm_get_None_iff [gomap_simps]: "gm_get m k = None \<longleftrightarrow> k \<notin> set (gm_keys m)"
  by (simp add: gm_get_def gm_keys_def map_of_eq_None_iff)

lemma gm_get_Some_keys: "gm_get m k = Some v \<Longrightarrow> k \<in> set (gm_keys m)"
  using gm_get_None_iff [of m k] by simp

lemma mset_range_in [simp]: "mset (range_in ord xs) = mset xs"
  using range_in [of ord] by simp

lemma set_range_in [simp]: "set (range_in ord xs) = set xs"
  by (rule mset_eq_setD) simp

lemma length_range_in [simp]: "length (range_in ord xs) = length xs"
  by (rule mset_eq_length) simp

lemma distinct_range_in [simp]: "distinct (range_in ord xs) \<longleftrightarrow> distinct xs"
  by (metis mset_range_in mset_eq_imp_distinct_iff)

lemma range_in_insertion [simp]: "range_in insertion_order xs = xs"
  by transfer simp

lemma range_in_reverse [simp]: "range_in reverse_order xs = rev xs"
  by transfer simp

lemma range_in_Nil [simp]: "range_in ord [] = []"
  using mset_range_in [of ord "[]"] by (simp del: mset_range_in)

lemma range_in_single [simp]: "range_in ord [x] = [x]"
  using mset_range_in [of ord "[x]"] by (simp del: mset_range_in)

end
