(* ===== verification/Jitter.thy ===== *)
theory Jitter
  imports Floats Prelude
begin

text \<open>
  \<open>internal/jitter/duration.go\<close>: durations with a random deviation. A duration is a number of
  nanoseconds; the code computes in \<open>float64\<close>, and so does the model, with the rounding of every
  operation (theory \<open>Floats\<close>). The random number is an argument.
\<close>

section \<open>Definitions\<close>

record DurationGenerator =
  dg_base :: int
  dg_jitterPercent :: rat

definition clampPercent :: "rat \<Rightarrow> rat" where
  "clampPercent f = (if f < 0 then 0 else if f > 1 then 1 else f)"

definition NewDurationGenerator :: "int \<Rightarrow> rat \<Rightarrow> DurationGenerator" where
  "NewDurationGenerator base jitterPercent = \<lparr>dg_base = base, dg_jitterPercent = clampPercent jitterPercent\<rparr>"

text \<open>The generator that has not been set.\<close>

definition zeroDurationGenerator :: DurationGenerator where
  "zeroDurationGenerator = \<lparr>dg_base = 0, dg_jitterPercent = 0\<rparr>"

text \<open>The 64-bit integers of Go wrap around.\<close>

definition int64 :: "int \<Rightarrow> int" where
  "int64 x = (x + 2 ^ 63) mod 2 ^ 64 - 2 ^ 63"

text \<open>\<open>MarshalLogObject\<close>: what is logged of a generator.\<close>

definition dg_MarshalLogObject :: "DurationGenerator \<Rightarrow> (string \<times> rat) list" where
  "dg_MarshalLogObject g = [(''base'', of_int (dg_base g)), (''jitterPercent'', dg_jitterPercent g)]"

text \<open>
  \<open>Generate\<close>. The conversion of the result drops its fraction. For a value outside the range of
  \<open>int64\<close> Go leaves it to the platform; the model has the integer itself, and the properties stay
  within the range.
\<close>

definition Generate :: "DurationGenerator \<Rightarrow> rat \<Rightarrow> int" where
  "Generate g random =
     (let dNano = fl64 (of_int (dg_base g));
          randomPlusMinus = fl64 (fl64 (2 * random) - 1);
          resultNano = fl64 (dNano + fl64 (fl64 (dNano * dg_jitterPercent g) * randomPlusMinus))
      in float_to_int resultNano)"

section \<open>Properties\<close>

lemma int64_id: "- (2 ^ 63) \<le> x \<Longrightarrow> x < 2 ^ 63 \<Longrightarrow> int64 x = x"
  by (simp add: int64_def)

lemma int64_range: "- (2 ^ 63) \<le> int64 x" "int64 x < 2 ^ 63"
  using pos_mod_bound [of "2 ^ 64" "x + 2 ^ 63"] by (simp_all add: int64_def)

lemma jitter_deviation:
  assumes "0 \<le> random" and "random < (1 :: rat)"
  shows "\<bar>a / 10 * (2 * random - 1)\<bar> \<le> \<bar>a\<bar> / 10"
proof -
  have "\<bar>2 * random - 1\<bar> \<le> 1" using assms by (simp add: abs_le_iff)
  then have "\<bar>a / 10\<bar> * \<bar>2 * random - 1\<bar> \<le> \<bar>a / 10\<bar> * 1" by (rule mult_left_mono) simp
  then show ?thesis by (simp add: abs_mult)
qed

text \<open>The number that stands for a tenth.\<close>

lemma fl64_tenth: "fl64 (1 / 10) = 3602879701896397 / 36028797018963968"
  by code_simp

text \<open>How far the result before the conversion is from the exact one.\<close>

lemma random_error:
  assumes "0 \<le> random" and "random < 1"
  shows "\<bar>fl64 (fl64 (2 * random) - 1) - (2 * random - 1)\<bar> \<le> 6 / 1000000000000000"
    and "\<bar>fl64 (fl64 (2 * random) - 1)\<bar> \<le> 2"
proof -
  let ?R = "fl64 (2 * random)"
  have r: "\<bar>2 * random\<bar> \<le> 2" "\<bar>2 * random - 1\<bar> \<le> 1" using assms by (simp_all add: abs_le_iff)
  have R: "\<bar>(?R - 1) - (2 * random - 1)\<bar> \<le> 3 / 1000000000000000" using fl64_bound [OF r(1)] by simp
  have "\<bar>?R - 1\<bar> \<le> 2" by (rule error_size [OF R r(2)]) simp
  from fl64_bound [OF this] R show e: "\<bar>fl64 (?R - 1) - (2 * random - 1)\<bar> \<le> 6 / 1000000000000000"
    by (rule error_trans) simp
  show "\<bar>fl64 (?R - 1)\<bar> \<le> 2" by (rule error_size [OF e r(2)]) simp
qed

lemma percent_error:
  assumes "\<bar>a\<bar> \<le> B"
  shows "\<bar>fl64 (fl64 a * fl64 (1 / 10)) - a / 10\<bar> \<le> 3 * (B + 1) / 1000000000000000"
proof -
  let ?j = "3602879701896397 / 36028797018963968 :: rat"
  have B: "0 \<le> B" using assms abs_ge_zero order_trans by blast
  have j: "\<bar>?j - 1 / 10\<bar> \<le> 1 / 100000000000000000" "\<bar>?j\<bar> \<le> 11 / 100" by simp_all
  have p: "\<bar>fl64 a * ?j - a * (1 / 10)\<bar> \<le> (B + 1) / 1000000000000000"
    by (rule product_error [OF fl64_bound [OF assms] j assms]) (use B in \<open>simp add: field_simps\<close>)
  have "\<bar>a * (1 / 10)\<bar> \<le> B / 10" using assms by (simp add: abs_mult)
  then have "\<bar>fl64 a * ?j\<bar> \<le> B + 1" by (rule error_size [OF p]) (use B in \<open>simp add: field_simps\<close>)
  from fl64_bound [OF this] p have "\<bar>fl64 (fl64 a * ?j) - a * (1 / 10)\<bar> \<le> 3 * (B + 1) / 1000000000000000"
    by (rule error_trans) (use B in \<open>simp add: field_simps\<close>)
  then show ?thesis by (simp add: fl64_tenth)
qed

lemma Generate_error:
  assumes "0 \<le> random" and "random < 1" and "\<bar>of_int (dg_base g)\<bar> \<le> B" and "dg_jitterPercent g = fl64 (1 / 10)"
  shows "\<bar>of_int (Generate g random) - (of_int (dg_base g) + of_int (dg_base g) / 10 * (2 * random - 1))\<bar>
    \<le> 1 + 20 * (B + 1) / 1000000000000000"
proof -
  define a :: rat where "a = of_int (dg_base g)"
  define Bp P C where "Bp = fl64 (fl64 a * fl64 (1 / 10))" and "P = fl64 (fl64 (2 * random) - 1)" and "C = fl64 (Bp * P)"
  define x where "x = a / 10 * (2 * random - 1)"
  let ?k = "1000000000000000 :: rat"
  have aB: "\<bar>a\<bar> \<le> B" using assms(3) by (simp add: a_def)
  then have B: "0 \<le> B" using abs_ge_zero order_trans by blast
  have x: "\<bar>x\<bar> \<le> B / 10" using jitter_deviation [OF assms(1,2), of a] aB by (simp add: x_def)
  have ax: "\<bar>a + x\<bar> \<le> B + B / 10" using abs_triangle_ineq [of a x] aB x by linarith
  have a10: "\<bar>a / 10\<bar> \<le> B / 10" using aB by simp
  have c: "\<bar>Bp * P - x\<bar> \<le> 7 * (B + 1) / ?k" unfolding Bp_def P_def x_def
    by (rule product_error [OF percent_error [OF aB] random_error [OF assms(1,2)] a10]) (use B in \<open>simp add: field_simps\<close>)
  have "\<bar>Bp * P\<bar> \<le> B + 1" by (rule error_size [OF c x]) (use B in \<open>simp add: field_simps\<close>)
  from fl64_bound [OF this] c have "\<bar>C - x\<bar> \<le> 9 * (B + 1) / ?k"
    unfolding C_def by (rule error_trans) (use B in \<open>simp add: field_simps\<close>)
  with fl64_bound [OF aB] have s: "\<bar>(fl64 a + C) - (a + x)\<bar> \<le> 10 * (B + 1) / ?k"
    by (rule error_sum) (use B in \<open>simp add: field_simps\<close>)
  have "\<bar>fl64 a + C\<bar> \<le> 2 * B + 2" by (rule error_size [OF s ax]) (use B in \<open>simp add: field_simps\<close>)
  from fl64_bound [OF this] s have d: "\<bar>fl64 (fl64 a + C) - (a + x)\<bar> \<le> 20 * (B + 1) / ?k"
    by (rule error_trans) (use B in \<open>simp add: field_simps\<close>)
  have "Generate g random = float_to_int (fl64 (fl64 a + C))"
    by (simp add: Generate_def Let_def assms(4) C_def Bp_def P_def a_def)
  with float_to_int_error(1) [of "fl64 (fl64 a + C)"] have "\<bar>of_int (Generate g random) - fl64 (fl64 a + C)\<bar> \<le> 1" by simp
  then show ?thesis unfolding a_def [symmetric] x_def [symmetric] by (rule error_trans [OF _ d order_refl])
qed

text \<open>For all durations that do not overflow: within ten percent, up to a fifth of a millisecond.\<close>

lemma Generate_near:
  assumes "0 \<le> random" and "random < 1" and "\<bar>dg_base g\<bar> \<le> 8500000000000000000" and "dg_jitterPercent g = fl64 (1 / 10)"
  shows "\<bar>of_int (Generate g random) - of_int (dg_base g)\<bar> \<le> 200000 + \<bar>of_int (dg_base g) :: rat\<bar> / 10"
proof -
  let ?a = "of_int (dg_base g) :: rat"
  have "(of_int \<bar>dg_base g\<bar> :: rat) \<le> of_int 8500000000000000000" using assms(3) by (simp only: of_int_le_iff)
  then have B: "\<bar>?a\<bar> \<le> 8500000000000000000" by simp
  have e: "\<bar>of_int (Generate g random) - (?a + ?a / 10 * (2 * random - 1))\<bar> \<le> 200000"
    using Generate_error [OF assms(1,2) B assms(4)] by simp
  have "\<bar>(?a + ?a / 10 * (2 * random - 1)) - ?a\<bar> \<le> \<bar>?a\<bar> / 10" using jitter_deviation [OF assms(1,2), of ?a] by simp
  with e show ?thesis by (rule error_trans) simp
qed

lemma clampPercent_tenth: "clampPercent (fl64 (1 / 10)) = fl64 (1 / 10)"
  by (simp add: clampPercent_def fl64_tenth)

lemma Generate_zero: "Generate zeroDurationGenerator random = 0"
  by (simp add: Generate_def zeroDurationGenerator_def float_to_int_def)

end
