(* ===== verification/GoStrings.thy ===== *)
theory GoStrings
  imports Prelude "HOL-Library.Sublist"
begin

text \<open>
  The functions of Go's \<open>strings\<close> and \<open>fmt\<close> packages that the rules engine calls, on
  Go strings as byte lists (\<open>char\<close> is one byte). Separators are single bytes, as in every call
  of the sources (\<open>"/"\<close> and \<open>":"\<close>). The lemmas relate \<open>Split\<close>, \<open>Cut\<close>, \<open>Join\<close> and
  \<open>Count\<close> to each other; matching, formatting and the slash-count index rest on them.
\<close>

named_theorems str_simps "equations of the modelled string functions"

section \<open>Definitions\<close>

abbreviation slash :: char where "slash \<equiv> CHR ''/''"
abbreviation colon :: char where "colon \<equiv> CHR '':''"

text \<open>\<open>strings.Index(s, c)\<close>: \<open>None\<close> is \<open>-1\<close>.\<close>

definition strings_Index :: "string \<Rightarrow> char \<Rightarrow> nat option" where
  "strings_Index s c =
     (let n = length (takeWhile (\<lambda>x. x \<noteq> c) s) in if n < length s then Some n else None)"

definition strings_HasPrefix :: "string \<Rightarrow> string \<Rightarrow> bool" where
  "strings_HasPrefix s p \<longleftrightarrow> take (length p) s = p"

definition strings_HasSuffix :: "string \<Rightarrow> string \<Rightarrow> bool" where
  "strings_HasSuffix s p \<longleftrightarrow> length p \<le> length s \<and> drop (length s - length p) s = p"

definition strings_Count :: "string \<Rightarrow> char \<Rightarrow> nat" where
  "strings_Count s c = count_list s c"

fun strings_Split :: "string \<Rightarrow> char \<Rightarrow> string list" where
  "strings_Split [] c = [[]]"
| "strings_Split (x # xs) c =
     (if x = c then [] # strings_Split xs c
      else case strings_Split xs c of [] \<Rightarrow> [[x]] | y # ys \<Rightarrow> (x # y) # ys)"

text \<open>\<open>strings.Contains(s, sub)\<close>: \<open>sub\<close> starts at some position of \<open>s\<close>.\<close>

fun strings_Contains :: "string \<Rightarrow> string \<Rightarrow> bool" where
  "strings_Contains [] sub = strings_HasPrefix [] sub"
| "strings_Contains (x # xs) sub = (strings_HasPrefix (x # xs) sub \<or> strings_Contains xs sub)"

text \<open>\<open>strings.Cut(s, c)\<close> returns the text before and after the first \<open>c\<close> and whether
  \<open>c\<close> occurs at all (\<open>s, "", false\<close> if not).\<close>

definition strings_Cut :: "string \<Rightarrow> char \<Rightarrow> string \<times> string \<times> bool" where
  "strings_Cut s c =
     (case strings_Index s c of
        None \<Rightarrow> (s, [], False)
      | Some n \<Rightarrow> (take n s, drop (Suc n) s, True))"

fun strings_Join :: "string list \<Rightarrow> string \<Rightarrow> string" where
  "strings_Join [] sep = []"
| "strings_Join [x] sep = x"
| "strings_Join (x # y # xs) sep = x @ sep @ strings_Join (y # xs) sep"

text \<open>\<open>strings.Replace(s, old, new, -1)\<close> for a non-empty \<open>old\<close> (the only use has
  \<open>old = "/:" + param + "/"\<close>): non-overlapping, left to right.\<close>

function strings_ReplaceAll :: "string \<Rightarrow> string \<Rightarrow> string \<Rightarrow> string" where
  "strings_ReplaceAll s old new =
     (if s = [] \<or> old = [] then s
      else if strings_HasPrefix s old then new @ strings_ReplaceAll (drop (length old) s) old new
      else hd s # strings_ReplaceAll (tl s) old new)"
  by pat_completeness auto
termination
  by (relation "measure (\<lambda>(s, old, new). length s)") (auto simp: length_greater_0_conv)

declare strings_ReplaceAll.simps [simp del]

text \<open>
  \<open>fmt.Sprintf(template, s)\<close> for one string argument, on templates whose only verb is one
  \<open>%s\<close>; \<open>None\<close> for every other template (its expansion is not modelled).
\<close>

definition fmt_Sprintf :: "string \<Rightarrow> string \<Rightarrow> string option" where
  "fmt_Sprintf template s =
     (let pre = takeWhile (\<lambda>c. c \<noteq> CHR ''%'') template;
          rest = drop (length pre) template
      in if take 2 rest = ''%s'' \<and> CHR ''%'' \<notin> set (drop 2 rest)
         then Some (pre @ s @ drop 2 rest) else None)"

text \<open>\<open>string(r)\<close> for a rune: its UTF-8 encoding, the replacement character for a value that
  is no Unicode scalar value.\<close>

definition go_rune :: "int \<Rightarrow> string" where
  "go_rune r =
     map (\<lambda>b. char_of (nat b))
       (if r < 0 \<or> 0x10FFFF < r \<or> 0xD800 \<le> r \<and> r \<le> 0xDFFF then [0xEF, 0xBF, 0xBD]
        else if r < 0x80 then [r]
        else if r < 0x800 then [0xC0 + r div 64, 0x80 + r mod 64]
        else if r < 0x10000 then [0xE0 + r div 4096, 0x80 + r div 64 mod 64, 0x80 + r mod 64]
        else [0xF0 + r div 262144, 0x80 + r div 4096 mod 64, 0x80 + r div 64 mod 64, 0x80 + r mod 64])"

section \<open>Splitting and joining\<close>

lemma strings_Split_not_Nil [simp]: "strings_Split s c \<noteq> []"
  by (induction s) (auto split: list.splits)

lemma strings_Split_no_sep: "seg \<in> set (strings_Split s c) \<Longrightarrow> c \<notin> set seg"
proof (induction s arbitrary: seg)
  case Nil
  then show ?case by simp
next
  case (Cons x xs)
  then show ?case by (cases "strings_Split xs c") (auto split: if_splits)
qed

lemma strings_Join_Split: "strings_Join (strings_Split s c) [c] = s"
proof (induction s)
  case Nil
  then show ?case by simp
next
  case (Cons x xs)
  obtain y ys where split: "strings_Split xs c = y # ys"
    by (cases "strings_Split xs c") auto
  show ?case using Cons split by (cases ys) auto
qed

lemma strings_Split_unsplit: "c \<notin> set s \<Longrightarrow> strings_Split s c = [s]"
  by (induction s) auto

lemma strings_Split_append_sep:
  "c \<notin> set s \<Longrightarrow> strings_Split (s @ c # rest) c = s # strings_Split rest c"
  by (induction s) auto

lemma strings_Split_Join:
  "xs \<noteq> [] \<Longrightarrow> (\<And>x. x \<in> set xs \<Longrightarrow> c \<notin> set x) \<Longrightarrow> strings_Split (strings_Join xs [c]) c = xs"
proof (induction xs "[c]" rule: strings_Join.induct)
  case (2 x)
  then show ?case by (simp add: strings_Split_unsplit)
next
  case (3 x y xs)
  then show ?case by (simp add: strings_Split_append_sep)
qed simp

lemma takeWhile_sep [simp]: "c \<notin> set ys \<Longrightarrow> takeWhile (\<lambda>x. x \<noteq> c) (ys @ c # zs) = ys"
  by (induction ys) auto

lemma takeWhile_no_sep [simp]: "c \<notin> set ys \<Longrightarrow> takeWhile (\<lambda>x. x \<noteq> c) ys = ys"
  by (induction ys) auto

lemma strings_Split_step:
  "strings_Split s c =
     (case strings_Cut s c of (seg, rest, found) \<Rightarrow> seg # (if found then strings_Split rest c else []))"
proof (cases "c \<in> set s")
  case True
  then obtain ys zs where s: "s = ys @ c # zs" and "c \<notin> set ys"
    by (meson split_list_first)
  then show ?thesis
    by (simp add: strings_Cut_def strings_Index_def strings_Split_append_sep)
next
  case False
  then show ?thesis
    by (simp add: strings_Cut_def strings_Index_def strings_Split_unsplit)
qed

lemma strings_Cut_shorter:
  "strings_Cut s c = (seg, rest, True) \<Longrightarrow> length rest < length s"
  by (auto simp: strings_Cut_def strings_Index_def Let_def split: if_splits)

lemma strings_Count_Split: "Suc (strings_Count s c) = length (strings_Split s c)"
proof (induction s)
  case Nil
  then show ?case by (simp add: strings_Count_def)
next
  case (Cons x xs)
  then show ?case
    by (cases "strings_Split xs c") (auto simp: strings_Count_def)
qed

lemma strings_Count_append [str_simps]:
  "strings_Count (s @ t) c = strings_Count s c + strings_Count t c"
  by (simp add: strings_Count_def)

lemma strings_HasPrefix_iff [str_simps]: "strings_HasPrefix s p \<longleftrightarrow> prefix p s"
  by (auto simp: strings_HasPrefix_def prefix_def) (metis append_take_drop_id)

lemma strings_HasSuffix_iff [str_simps]: "strings_HasSuffix s p \<longleftrightarrow> suffix p s"
proof
  assume "strings_HasSuffix s p"
  then show "suffix p s"
    by (metis strings_HasSuffix_def suffix_drop)
next
  assume "suffix p s"
  then show "strings_HasSuffix s p"
    by (auto simp: strings_HasSuffix_def suffix_def)
qed

end
