(* ===== verification/Regexp.thy ===== *)
theory Regexp
  imports GoStrings
begin

text \<open>
  The fragment of Go's \<open>regexp\<close> package on which key matching rests. \<open>parsePath\<close>
  (matcher.go) builds regular expressions out of the literal text of a pattern and the group
  \<open>([^\/:]+)\<close>. The model covers expressions in which the literal text is made of plain
  characters (ASCII and not escaped by \<open>regexp.QuoteMeta\<close>); \<open>regexp_Compile\<close> answers
  \<open>None\<close> for all others, about which nothing is claimed. On the fragment the engine is
  leftmost-first with greedy repetition, and a match may start anywhere in the text: the
  expressions are not anchored.
\<close>

section \<open>Definitions\<close>

datatype rx = RLit char | RGroup

type_synonym regexp = "rx list"

definition rx_group_text :: string where
  "rx_group_text = ''([^'' @ [CHR 0x5C] @ ''/:]+)''"

definition rx_plain :: "char \<Rightarrow> bool" where
  "rx_plain c \<longleftrightarrow> \<not> digit7 c \<and> c \<notin> set (CHR 0x5C # ''.+*?()|[]{}^$'')"

text \<open>The characters of the class \<open>[^\/:]\<close>.\<close>

definition rx_class :: "char \<Rightarrow> bool" where
  "rx_class c \<longleftrightarrow> c \<noteq> slash \<and> c \<noteq> colon"

function regexp_Compile :: "string \<Rightarrow> regexp option" where
  "regexp_Compile s =
     (if s = [] then Some []
      else if take 9 s = rx_group_text then map_option ((#) RGroup) (regexp_Compile (drop 9 s))
      else if rx_plain (hd s) then map_option ((#) (RLit (hd s))) (regexp_Compile (tl s))
      else None)"
  by pat_completeness auto
termination
  by (relation "measure length") auto

declare regexp_Compile.simps [simp del]

fun first_some :: "'a option list \<Rightarrow> 'a option" where
  "first_some [] = None"
| "first_some (Some x # xs) = Some x"
| "first_some (None # xs) = first_some xs"

text \<open>
  A match that starts at the first byte of the text: the matched text and the text of every
  group. A group tries the longest run first and then shorter ones.
\<close>

primrec rx_match :: "regexp \<Rightarrow> string \<Rightarrow> (string \<times> string list) option" where
  "rx_match [] s = Some ([], [])"
| "rx_match (r # rs) s =
     (case r of
        RLit c \<Rightarrow>
          (case s of
             [] \<Rightarrow> None
           | x # s' \<Rightarrow>
               if x = c then map_option (\<lambda>(t, gs). (c # t, gs)) (rx_match rs s') else None)
      | RGroup \<Rightarrow>
          first_some
            (map (\<lambda>n. map_option (\<lambda>(t, gs). (take n s @ t, take n s # gs)) (rx_match rs (drop n s)))
              (rev [1..<Suc (length (takeWhile rx_class s))])))"

text \<open>\<open>FindStringSubmatch\<close>: the leftmost match, whole text first, then the groups.\<close>

fun rx_find :: "regexp \<Rightarrow> string \<Rightarrow> string list option" where
  "rx_find r s =
     (case rx_match r s of
        Some (t, gs) \<Rightarrow> Some (t # gs)
      | None \<Rightarrow> (case s of [] \<Rightarrow> None | _ # s' \<Rightarrow> rx_find r s'))"

declare rx_find.simps [simp del]

section \<open>Compilation of the expressions the matcher builds\<close>

lemma length_rx_group_text [simp]: "length rx_group_text = 9"
  by (simp add: rx_group_text_def)

lemma rx_group_text_hd: "\<exists>t. rx_group_text = CHR ''('' # t"
  by (simp add: rx_group_text_def)

lemma rx_plain_not_group: "rx_plain c \<Longrightarrow> take 9 (c # s) \<noteq> rx_group_text"
  by (auto simp: rx_group_text_def rx_plain_def)

lemma regexp_Compile_Nil [simp]: "regexp_Compile [] = Some []"
  by (simp add: regexp_Compile.simps)

lemma regexp_Compile_plain [simp]:
  "rx_plain c \<Longrightarrow> regexp_Compile (c # s) = map_option ((#) (RLit c)) (regexp_Compile s)"
  using rx_plain_not_group [of c s] by (simp add: regexp_Compile.simps [of "c # s"])

lemma regexp_Compile_group [simp]:
  "regexp_Compile (rx_group_text @ s) = map_option ((#) RGroup) (regexp_Compile s)"
  using rx_group_text_hd by (auto simp: regexp_Compile.simps [of "rx_group_text @ s"])

lemma regexp_Compile_lits:
  "list_all rx_plain l \<Longrightarrow> regexp_Compile (l @ s) = map_option ((@) (map RLit l)) (regexp_Compile s)"
  by (induction l) (cases "regexp_Compile s"; simp)+

section \<open>Matching\<close>

lemma first_some_in: "first_some xs = Some x \<Longrightarrow> Some x \<in> set xs"
  by (induction xs rule: first_some.induct) auto

lemma first_some_all_None: "(\<And>x. x \<in> set xs \<Longrightarrow> x = None) \<Longrightarrow> first_some xs = None"
  by (metis first_some_in not_None_eq)

lemma first_some_Cons [simp]:
  "first_some (x # xs) = (case x of Some y \<Rightarrow> Some y | None \<Rightarrow> first_some xs)"
  by (cases x) auto

lemma rx_match_group_Some:
  assumes "rx_match (RGroup # r) s = Some (t, gs)"
  shows "\<exists>n t' gs'. rx_match r (drop n s) = Some (t', gs') \<and> t = take n s @ t' \<and> gs = take n s # gs'"
proof -
  have "Some (t, gs) \<in> set (map (\<lambda>n. map_option (\<lambda>(t, gs). (take n s @ t, take n s # gs))
      (rx_match r (drop n s))) (rev [1..<Suc (length (takeWhile rx_class s))]))"
    using assms by (intro first_some_in) (simp only: rx_match.simps rx.case)
  then obtain n where "Some (t, gs) = map_option (\<lambda>(t, gs). (take n s @ t, take n s # gs))
      (rx_match r (drop n s))"
    unfolding set_map by blast
  then show ?thesis by (cases "rx_match r (drop n s)") auto
qed

lemma rx_match_prefix: "rx_match r s = Some (t, gs) \<Longrightarrow> \<exists>post. s = t @ post"
proof (induction r arbitrary: s t gs)
  case Nil
  then show ?case by simp
next
  case (Cons a r)
  show ?case
  proof (cases a)
    case (RLit c)
    then show ?thesis
      using Cons.prems by (fastforce split: list.splits if_splits dest: Cons.IH)
  next
    case RGroup
    then obtain n t' gs' where "rx_match r (drop n s) = Some (t', gs')" and "t = take n s @ t'"
      using Cons.prems rx_match_group_Some by blast
    then show ?thesis
      using Cons.IH by (metis append.assoc append_take_drop_id)
  qed
qed

lemma rx_match_length_groups:
  "rx_match r s = Some (t, gs) \<Longrightarrow> length gs = length (filter (\<lambda>x. x = RGroup) r)"
proof (induction r arbitrary: s t gs)
  case Nil
  then show ?case by simp
next
  case (Cons a r)
  show ?case
  proof (cases a)
    case (RLit c)
    then show ?thesis
      using Cons.prems by (fastforce split: list.splits if_splits dest: Cons.IH)
  next
    case RGroup
    then obtain n t' gs' where "rx_match r (drop n s) = Some (t', gs')" and "gs = take n s # gs'"
      using Cons.prems rx_match_group_Some by blast
    then show ?thesis
      using Cons.IH RGroup by simp
  qed
qed

lemma rx_match_lits [simp]:
  "rx_match (map RLit l @ r) s =
     (if prefix l s then map_option (\<lambda>(t, gs). (l @ t, gs)) (rx_match r (drop (length l) s)) else None)"
proof (induction l arbitrary: s)
  case Nil
  show ?case by (cases "rx_match r s") auto
next
  case (Cons c l)
  then show ?case
    by (cases s) (auto simp: option.map_comp comp_def split_beta)
qed

text \<open>
  The matcher always writes a slash in front of a segment, so a group is followed by a slash or
  ends the expression. There the repetition never has to give characters back: the group is
  the whole run of class characters.
\<close>

definition rx_slash_led :: "regexp \<Rightarrow> bool" where
  "rx_slash_led r \<longleftrightarrow> (r = [] \<or> hd r = RLit slash)"

lemma rx_match_slash_led_class:
  assumes "rx_slash_led r" and "r \<noteq> []" and "s \<noteq> []" and "rx_class (hd s)"
  shows "rx_match r s = None"
  using assms by (cases r; cases s) (auto simp: rx_slash_led_def rx_class_def)

lemma drop_in_run:
  assumes "n < length (takeWhile P s)"
  shows "drop n s \<noteq> []" and "P (hd (drop n s))"
proof -
  have n: "n < length s"
    using assms length_takeWhile_le [of P s] by linarith
  then show "drop n s \<noteq> []" by simp
  have "P (s ! n)"
    using assms by (metis nth_mem set_takeWhileD takeWhile_nth)
  then show "P (hd (drop n s))"
    using n by (simp add: hd_drop_conv_nth)
qed

lemma rx_match_group_slash_led:
  assumes r: "rx_slash_led r"
  shows "rx_match (RGroup # r) s =
     (let g = takeWhile rx_class s in
      if g = [] then None
      else map_option (\<lambda>(t, gs). (g @ t, g # gs)) (rx_match r (drop (length g) s)))"
proof (cases "takeWhile rx_class s = []")
  case True
  then show ?thesis by simp
next
  case False
  define k where "k = length (takeWhile rx_class s)"
  have k: "0 < k" "take k s = takeWhile rx_class s"
    using False by (auto simp: k_def takeWhile_eq_take [symmetric])
  let ?att = "\<lambda>n. map_option (\<lambda>(t, gs). (take n s @ t, take n s # gs)) (rx_match r (drop n s))"
  have shorter: "first_some (map ?att (rev [1..<k])) = None" if "?att k = None"
  proof (rule first_some_all_None)
    fix x assume "x \<in> set (map ?att (rev [1..<k]))"
    then obtain n where n: "n < k" and x: "x = ?att n" by auto
    have "r \<noteq> []" using that by auto
    then have "rx_match r (drop n s) = None"
      using rx_match_slash_led_class [OF r] drop_in_run [of n rx_class s] n
      by (simp add: k_def)
    then show "x = None" by (simp add: x)
  qed
  have "rev [1..<Suc k] = k # rev [1..<k]"
    using k(1) by simp
  then have "rx_match (RGroup # r) s = first_some (?att k # map ?att (rev [1..<k]))"
    by (simp only: rx_match.simps rx.case list.map k_def [symmetric])
  also have "\<dots> = ?att k"
    using shorter by (cases "?att k") auto
  finally show ?thesis
    using k False by (simp add: Let_def k_def [symmetric])
qed

lemma rx_find_at_start: "rx_match r s = Some (t, gs) \<Longrightarrow> rx_find r s = Some (t # gs)"
  by (simp add: rx_find.simps)

lemma rx_find_Some:
  assumes "rx_find r s = Some res"
  shows "\<exists>pre t gs. suffix (t @ drop (length pre + length t) s) s \<and>
    s = pre @ t @ drop (length pre + length t) s \<and>
    rx_match r (t @ drop (length pre + length t) s) = Some (t, gs) \<and> res = t # gs"
  using assms
proof (induction r s rule: rx_find.induct)
  case (1 r s)
  show ?case
  proof (cases "rx_match r s")
    case (Some p)
    then obtain t gs where p: "rx_match r s = Some (t, gs)" by (cases p) auto
    with "1.prems" have "res = t # gs" by (simp add: rx_find.simps)
    moreover obtain post where "s = t @ post" using rx_match_prefix [OF p] by blast
    ultimately show ?thesis using p by (intro exI [of _ "[]"] exI [of _ t] exI [of _ gs]) simp
  next
    case None
    with "1.prems" obtain x s' where s: "s = x # s'" and find: "rx_find r s' = Some res"
      by (auto simp: rx_find.simps [of r s] split: list.splits)
    from "1.IH" [OF None s find] obtain pre t gs where
      "s' = pre @ t @ drop (length pre + length t) s'"
      "rx_match r (t @ drop (length pre + length t) s') = Some (t, gs)" "res = t # gs"
      by blast
    then show ?thesis
      by (intro exI [of _ "x # pre"] exI [of _ t] exI [of _ gs])
        (auto simp: s suffix_def intro!: exI [of _ "x # pre"])
  qed
qed

end
