(* ===== verification/Matcher.thy ===== *)
theory Matcher
  imports Regexp
begin

text \<open>
  \<open>rules/matcher.go\<close>, \<open>rules/constraint.go\<close> and the attribute types: patterns with
  \<open>:name\<close> segments are turned into regular expressions, matched against keys, and formatted
  back with the attributes a match produced. The lemmas show that matching and formatting are
  inverse to each other, and what a match says about the slashes of a key.
\<close>

named_theorems path_simps "equations of segments, parameters and formatted paths"

section \<open>Definitions\<close>

subsection \<open>Data\<close>

record constraint =
  constr_prefix :: string
  chars :: "int list list"

record regexKeyMatcher =
  rkm_regex :: regexp
  rkm_fieldMap :: "(string, nat) gomap"
  rkm_pattern :: string

text \<open>
  An \<open>attributeInstance\<close> holds a pointer to its value; the only place that makes one
  (\<open>Expand\<close>, dynamic_rule.go:151) stores the address of a string, so the value is never nil.
\<close>

record attributeInstance =
  attr_key :: string
  attr_value :: string

text \<open>
  The three implementers of \<open>extendedAttributes\<close>: a regular expression match, a map, and
  a list of fixed attributes in front of other attributes.
\<close>

datatype attributes =
    RegexKeyMatch (matchStrings: "string list") (matchFields: "(string, nat) gomap")
  | MapAttributes "(string, string) gomap"
  | NestingAttributes (na_nested: attributes) (na_attrs: "attributeInstance list")

datatype rule_error =
    RegexpNotModelled  \<comment> \<open>\<open>regexp.Compile\<close> failed, or the expression is outside the fragment\<close>
  | ComparatorNil
  | TemplateNotModelled  \<comment> \<open>a \<open>Sprintf\<close> template outside the modelled ones\<close>

subsection \<open>Attributes\<close>

text \<open>\<open>m.matchStrings[index]\<close> panics if the index is out of range.\<close>

definition go_index :: "'a list \<Rightarrow> nat \<Rightarrow> 'a go" where
  "go_index xs i = (if i < length xs then Ret (xs ! i) else Panic)"

fun nesting_find :: "attributeInstance list \<Rightarrow> string \<Rightarrow> string option" where
  "nesting_find [] key = None"
| "nesting_find (attribute # as) key =
     (if attr_key attribute = key then Some (attr_value attribute) else nesting_find as key)"

primrec GetAttribute :: "attributes \<Rightarrow> string \<Rightarrow> string option go" where
  "GetAttribute (RegexKeyMatch ms fm) name =
     (case gm_get fm name of
        None \<Rightarrow> Ret None
      | Some index \<Rightarrow> go_bind (go_index ms index) (\<lambda>result. Ret (Some result)))"
| "GetAttribute (MapAttributes values) key =
     (case gm_get values key of None \<Rightarrow> Ret None | Some value \<Rightarrow> Ret (Some value))"
| "GetAttribute (NestingAttributes n as) key =
     (case nesting_find as key of Some v \<Rightarrow> Ret (Some v) | None \<Rightarrow> GetAttribute n key)"

primrec FindAttribute :: "attributes \<Rightarrow> string \<Rightarrow> string option go" where
  "FindAttribute (RegexKeyMatch ms fm) name =
     (case gm_get fm name of
        None \<Rightarrow> Ret None
      | Some index \<Rightarrow> go_bind (go_index ms index) (\<lambda>result. Ret (Some result)))"
| "FindAttribute (MapAttributes values) key = Ret (gm_get values key)"
| "FindAttribute (NestingAttributes n as) key =
     (case nesting_find as key of Some v \<Rightarrow> Ret (Some v) | None \<Rightarrow> FindAttribute n key)"

definition finderWrapper :: "(string \<Rightarrow> string option go) \<Rightarrow> string \<Rightarrow> string option go" where
  "finderWrapper getAttribute s =
     go_bind (getAttribute s) (\<lambda>ptr. case ptr of Some v \<Rightarrow> Ret (Some v) | None \<Rightarrow> Ret None)"

primrec names :: "string range_order \<Rightarrow> attributes \<Rightarrow> string list" where
  "names ord (RegexKeyMatch ms fm) = range_in ord (gm_keys fm)"
| "names ord (MapAttributes values) = range_in ord (gm_keys values)"
| "names ord (NestingAttributes n as) = map attr_key as @ names ord n"

subsection \<open>Formatting\<close>

text \<open>One iteration of the loop of \<open>formatPath\<close> (its \<open>switch\<close>).\<close>

definition formatPath_segment ::
  "(string \<Rightarrow> string option go) \<Rightarrow> string \<Rightarrow> string \<times> bool \<Rightarrow> (string \<times> bool) go" where
  "formatPath_segment finder segment st =
     (case st of (sb, allFound) \<Rightarrow>
        if segment = [] then Ret (sb, allFound)
        else if strings_HasPrefix segment [colon] then
          go_bind (finder (drop 1 segment))
            (\<lambda>r. case r of
                 Some attr \<Rightarrow> Ret (sb @ [slash] @ attr, allFound)
               | None \<Rightarrow> Ret (sb @ [slash] @ segment, False))
        else Ret (sb @ [slash] @ segment, allFound))"

function formatPath_loop ::
  "(string \<Rightarrow> string option go) \<Rightarrow> string \<Rightarrow> string \<times> bool \<Rightarrow> (string \<times> bool) go" where
  "formatPath_loop finder pattern st =
     (case strings_Cut pattern slash of (segment, rest, found) \<Rightarrow>
        go_bind (formatPath_segment finder segment st)
          (\<lambda>st'. if found then formatPath_loop finder rest st' else Ret st'))"
  by pat_completeness auto
termination
  by (relation "measure (\<lambda>(f, p, st). length p)") (auto dest: strings_Cut_shorter [OF sym])

declare formatPath_loop.simps [simp del]

definition formatPath :: "string \<Rightarrow> (string \<Rightarrow> string option go) \<Rightarrow> (string \<times> bool) go" where
  "formatPath pattern finder = formatPath_loop finder pattern ([], True)"

definition FormatWithAttributes :: "string \<Rightarrow> attributes \<Rightarrow> string go" where
  "FormatWithAttributes pattern m =
     go_bind (formatPath pattern (FindAttribute m)) (\<lambda>(result, _). Ret result)"

subsection \<open>Matchers\<close>

fun parsePath_loop ::
  "string list \<Rightarrow> (string, nat) gomap \<times> string \<times> nat \<Rightarrow> (string, nat) gomap \<times> string" where
  "parsePath_loop [] (flds, regex, fieldIndex) = (flds, regex)"
| "parsePath_loop (path # paths) (flds, regex, fieldIndex) =
     (if length path = 0 then parsePath_loop paths (flds, regex, fieldIndex)
      else if strings_HasPrefix path [colon] then
        parsePath_loop paths
          (gm_put flds (drop 1 path) fieldIndex, regex @ [slash] @ rx_group_text, fieldIndex + 1)
      else parsePath_loop paths (flds, regex @ [slash] @ path, fieldIndex))"

definition parsePath :: "string \<Rightarrow> (string, nat) gomap \<times> string" where
  "parsePath pattern = parsePath_loop (strings_Split pattern slash) ([], [], 1)"

definition newRegexKeyMatcher :: "string \<Rightarrow> rule_error + regexKeyMatcher" where
  "newRegexKeyMatcher p =
     (case parsePath p of (flds, regexString) \<Rightarrow>
        (case regexp_Compile regexString of
           None \<Rightarrow> Inl RegexpNotModelled
         | Some r \<Rightarrow> Inr \<lparr>rkm_regex = r, rkm_fieldMap = flds, rkm_pattern = p\<rparr>))"

definition newKeyMatch :: "string \<Rightarrow> regexKeyMatcher \<Rightarrow> attributes option" where
  "newKeyMatch path kmr =
     (case rx_find (rkm_regex kmr) path of
        None \<Rightarrow> None
      | Some results \<Rightarrow> Some (RegexKeyMatch results (rkm_fieldMap kmr)))"

definition match :: "regexKeyMatcher \<Rightarrow> string \<Rightarrow> attributes option" where
  "match rkm path = newKeyMatch path rkm"

definition getPrefix :: "regexKeyMatcher \<Rightarrow> string" where
  "getPrefix rkm =
     (case strings_Index (rkm_pattern rkm) colon of
        None \<Rightarrow> take (length (rkm_pattern rkm)) (rkm_pattern rkm)
      | Some e \<Rightarrow> take e (rkm_pattern rkm))"

text \<open>
  \<open>buildPrefixesFromConstraint(base, index, constr, prefixes)\<close>: the list argument is
  \<open>constr.chars[index:]\<close>, so reading \<open>constr.chars[index]\<close> past the end is the empty list.
\<close>

fun buildPrefixesFromConstraint :: "string \<Rightarrow> int list list \<Rightarrow> string list \<Rightarrow> string list go" where
  "buildPrefixesFromConstraint base [] pfxs = Panic"
| "buildPrefixesFromConstraint base [myChars] pfxs =
     Ret (fold (\<lambda>char ps. ps @ [base @ go_rune char]) myChars pfxs)"
| "buildPrefixesFromConstraint base (myChars # next # rest) pfxs =
     fold (\<lambda>char acc. go_bind acc (\<lambda>ps.
        buildPrefixesFromConstraint (base @ go_rune char) (next # rest) ps)) myChars (Ret pfxs)"

definition getPrefixesWithConstraints ::
  "regexKeyMatcher \<Rightarrow> (string, constraint) gomap \<Rightarrow> string list go" where
  "getPrefixesWithConstraints rkm constraints =
     (case strings_Index (rkm_pattern rkm) colon of
        None \<Rightarrow> Ret [getPrefix rkm]
      | Some firstColon \<Rightarrow>
          let e = (case strings_Index (drop firstColon (rkm_pattern rkm)) slash of
                     None \<Rightarrow> length (rkm_pattern rkm)
                   | Some e \<Rightarrow> firstColon + e);
              attrName = take (e - (firstColon + 1)) (drop (firstColon + 1) (rkm_pattern rkm))
          in case gm_get constraints attrName of
               None \<Rightarrow> Ret [getPrefix rkm]
             | Some constr \<Rightarrow>
                 buildPrefixesFromConstraint (take firstColon (rkm_pattern rkm) @ constr_prefix constr)
                   (chars constr) [])"

section \<open>Vocabulary of the proofs\<close>

definition is_param :: "string \<Rightarrow> bool" where
  "is_param s \<longleftrightarrow> (case s of [] \<Rightarrow> False | c # _ \<Rightarrow> c = colon)"

definition segments :: "string \<Rightarrow> string list" where
  "segments p = filter (\<lambda>s. s \<noteq> []) (strings_Split p slash)"

definition params :: "string \<Rightarrow> string list" where
  "params p = map tl (filter is_param (segments p))"

text \<open>A pattern the model's \<open>regexp_Compile\<close> covers: its literal text is plain.\<close>

definition plain_pattern :: "string \<Rightarrow> bool" where
  "plain_pattern p \<longleftrightarrow> (\<forall>s \<in> set (segments p). is_param s \<or> list_all rx_plain s)"

text \<open>A pattern that starts with a slash and has no empty segment.\<close>

definition normal_path :: "string \<Rightarrow> bool" where
  "normal_path p \<longleftrightarrow> p = concat (map ((#) slash) (segments p))"

text \<open>A value an attribute can take in a key: what \<open>[^\/:]+\<close> matches.\<close>

definition attr_value_ok :: "string \<Rightarrow> bool" where
  "attr_value_ok v \<longleftrightarrow> v \<noteq> [] \<and> list_all rx_class v"

definition seg_regex :: "string \<Rightarrow> string" where
  "seg_regex s = slash # (if is_param s then rx_group_text else s)"

definition seg_rx :: "string \<Rightarrow> regexp" where
  "seg_rx s = RLit slash # (if is_param s then [RGroup] else map RLit s)"

definition seg_format :: "(string \<Rightarrow> string option) \<Rightarrow> string \<Rightarrow> string" where
  "seg_format f s = slash # (if is_param s then (case f (tl s) of Some v \<Rightarrow> v | None \<Rightarrow> s) else s)"

definition seg_found :: "(string \<Rightarrow> string option) \<Rightarrow> string \<Rightarrow> bool" where
  "seg_found f s \<longleftrightarrow> is_param s \<longrightarrow> f (tl s) \<noteq> None"

text \<open>The path a pattern stands for under a valuation of its attributes.\<close>

definition path_format :: "(string \<Rightarrow> string option) \<Rightarrow> string \<Rightarrow> string" where
  "path_format f p = concat (map (seg_format f) (segments p))"

definition path_found :: "(string \<Rightarrow> string option) \<Rightarrow> string \<Rightarrow> bool" where
  "path_found f p \<longleftrightarrow> list_all (seg_found f) (segments p)"

fun fill :: "string list \<Rightarrow> string list \<Rightarrow> string" where
  "fill [] gs = []"
| "fill (s # ss) gs =
     slash # (if is_param s then (case gs of [] \<Rightarrow> s @ fill ss [] | g # gs' \<Rightarrow> g @ fill ss gs')
              else s @ fill ss gs)"

fun attr_wf :: "attributes \<Rightarrow> bool" where
  "attr_wf (RegexKeyMatch ms fm) =
     list_all (\<lambda>n. case gm_get fm n of Some i \<Rightarrow> i < length ms | None \<Rightarrow> True) (gm_keys fm)"
| "attr_wf (MapAttributes values) = True"
| "attr_wf (NestingAttributes n as) = attr_wf n"

definition attr_lookup :: "attributes \<Rightarrow> string \<Rightarrow> string option" where
  "attr_lookup a n = (case FindAttribute a n of Ret r \<Rightarrow> r | _ \<Rightarrow> None)"

section \<open>Segments and formatting\<close>

lemma is_param_iff: "is_param s \<longleftrightarrow> (\<exists>n. s = colon # n)"
  by (cases s) (auto simp: is_param_def)

lemma is_param_HasPrefix [path_simps]: "strings_HasPrefix s [colon] \<longleftrightarrow> is_param s"
  by (cases s) (auto simp: strings_HasPrefix_def is_param_def)

lemma is_param_colon [simp]: "is_param (colon # n)"
  by (simp add: is_param_def)

lemma is_param_drop: "is_param s \<Longrightarrow> drop 1 s = tl s"
  by (simp add: drop_Suc)

lemma segments_no_slash: "s \<in> set (segments p) \<Longrightarrow> slash \<notin> set s"
  by (auto simp: segments_def dest: strings_Split_no_sep)

lemma segments_nonempty: "s \<in> set (segments p) \<Longrightarrow> s \<noteq> []"
  by (simp add: segments_def)

lemma attr_wf_find: "attr_wf a \<Longrightarrow> FindAttribute a n = Ret (attr_lookup a n)"
proof (induction a)
  case (RegexKeyMatch ms fm)
  then show ?case
    by (cases "gm_get fm n") (auto simp: attr_lookup_def go_index_def list_all_iff dest: gm_get_Some_keys
        split: option.splits)
next
  case (NestingAttributes a as)
  then show ?case by (auto simp: attr_lookup_def split: option.splits)
qed (simp add: attr_lookup_def)

lemma formatPath_segment_pure:
  "formatPath_segment (\<lambda>n. Ret (f n)) s st =
     Ret (if s = [] then st else (fst st @ seg_format f s, snd st \<and> seg_found f s))"
  by (cases st) (auto simp: formatPath_segment_def seg_format_def seg_found_def is_param_HasPrefix
      is_param_drop drop_Suc split: option.splits)

lemma formatPath_loop_pure:
  "formatPath_loop (\<lambda>n. Ret (f n)) p st = Ret (fst st @ path_format f p, snd st \<and> path_found f p)"
proof (induction p arbitrary: st rule: length_induct)
  case (1 p)
  obtain seg rest found where cut: "strings_Cut p slash = (seg, rest, found)"
    by (cases "strings_Cut p slash") auto
  have split: "strings_Split p slash = seg # (if found then strings_Split rest slash else [])"
    using strings_Split_step [of p slash] cut by simp
  have IH: "found \<Longrightarrow> formatPath_loop (\<lambda>n. Ret (f n)) rest st' =
      Ret (fst st' @ path_format f rest, snd st' \<and> path_found f rest)" for st'
    using 1 cut strings_Cut_shorter [of p slash seg rest] by (cases st') simp
  show ?case
    using IH by (simp add: formatPath_loop.simps [of _ p] cut formatPath_segment_pure path_format_def
        path_found_def segments_def split)
qed

lemma formatPath_pure: "formatPath p (\<lambda>n. Ret (f n)) = Ret (path_format f p, path_found f p)"
  by (simp add: formatPath_def formatPath_loop_pure)

lemma formatPath_attr:
  assumes "attr_wf a"
  shows "formatPath p (FindAttribute a) = Ret (path_format (attr_lookup a) p, path_found (attr_lookup a) p)"
proof -
  have "FindAttribute a = (\<lambda>n. Ret (attr_lookup a n))"
    using attr_wf_find [OF assms] by blast
  then show ?thesis by (simp add: formatPath_pure)
qed

lemma FormatWithAttributes_attr:
  "attr_wf a \<Longrightarrow> FormatWithAttributes p a = Ret (path_format (attr_lookup a) p)"
  by (simp add: FormatWithAttributes_def formatPath_attr)

section \<open>Compilation of a pattern\<close>

fun put_fields :: "string list \<Rightarrow> (string, nat) gomap \<Rightarrow> nat \<Rightarrow> (string, nat) gomap" where
  "put_fields [] m i = m"
| "put_fields (n # ns) m i = put_fields ns (gm_put m n i) (i + 1)"

lemma parsePath_loop_eq:
  "parsePath_loop paths (m, r, i) =
     (put_fields (map tl (filter is_param (filter (\<lambda>s. s \<noteq> []) paths))) m i,
      r @ concat (map seg_regex (filter (\<lambda>s. s \<noteq> []) paths)))"
  by (induction paths arbitrary: m r i)
    (auto simp: is_param_HasPrefix drop_Suc seg_regex_def is_param_iff)

lemma parsePath_eq:
  "parsePath p = (put_fields (params p) [] 1, concat (map seg_regex (segments p)))"
  by (simp add: parsePath_def parsePath_loop_eq params_def segments_def)

lemma gm_get_put_fields_other: "n \<notin> set ns \<Longrightarrow> gm_get (put_fields ns m i) n = gm_get m n"
  by (induction ns arbitrary: m i) (auto simp: gomap_simps)

lemma gm_get_put_fields:
  "distinct ns \<Longrightarrow> j < length ns \<Longrightarrow> gm_get (put_fields ns m i) (ns ! j) = Some (i + j)"
proof (induction ns arbitrary: m i j)
  case (Cons n ns)
  then show ?case
    by (cases j) (auto simp: gm_get_put_fields_other gomap_simps)
qed simp

lemma gm_keys_put_fields: "set (gm_keys (put_fields ns m i)) = set ns \<union> set (gm_keys m)"
  by (induction ns arbitrary: m i) (auto simp: gomap_simps)

lemma gm_get_put_fields_bound:
  "gm_get (put_fields ns m i) n = Some k \<Longrightarrow> gm_get m n = Some k \<or> k < i + length ns"
  by (induction ns arbitrary: m i) (force simp: gomap_simps split: if_splits)+

lemma rx_plain_slash [simp]: "rx_plain slash"
  by (simp add: rx_plain_def)

lemma regexp_Compile_segs:
  assumes "\<forall>s \<in> set ss. is_param s \<or> list_all rx_plain s"
  shows "regexp_Compile (concat (map seg_regex ss)) = Some (concat (map seg_rx ss))"
  using assms
  by (induction ss) (auto simp: seg_regex_def seg_rx_def regexp_Compile_lits)

lemma newRegexKeyMatcher_plain:
  "plain_pattern p \<Longrightarrow> newRegexKeyMatcher p =
     Inr \<lparr>rkm_regex = concat (map seg_rx (segments p)), rkm_fieldMap = put_fields (params p) [] 1,
          rkm_pattern = p\<rparr>"
  by (simp add: newRegexKeyMatcher_def parsePath_eq plain_pattern_def regexp_Compile_segs)

text \<open>
  Conversely the model compiles no other pattern: the text of the group cannot come out of the
  literal text of a pattern, since a literal segment neither holds a slash nor starts with a colon.
\<close>

definition seg_led :: "string \<Rightarrow> bool" where
  "seg_led r \<longleftrightarrow> r = [] \<or> (\<exists>y r'. r = slash # y # r' \<and> y \<noteq> colon)"

lemma seg_led_segs:
  "(\<forall>s \<in> set ss. s \<noteq> []) \<Longrightarrow> seg_led (concat (map seg_regex ss))"
proof (cases ss)
  case (Cons s ss')
  moreover assume "\<forall>s \<in> set ss. s \<noteq> []"
  ultimately obtain c s' where s: "s = c # s'" by (cases s) auto
  show ?thesis
    by (cases "is_param s") (auto simp: Cons seg_led_def seg_regex_def s rx_group_text_def is_param_iff)
qed (simp add: seg_led_def)

lemma group_text_nth:
  "rx_group_text ! 4 = slash" "rx_group_text ! 5 = colon"
  "n < 4 \<Longrightarrow> rx_group_text ! n \<noteq> slash"
  by (auto simp: rx_group_text_def nth_Cons split: nat.splits)

lemma no_group_text:
  assumes "slash \<notin> set s" and "seg_led r" and "s \<noteq> []"
  shows "take 9 (s @ r) \<noteq> rx_group_text"
proof
  assume eq: "take 9 (s @ r) = rx_group_text"
  then have len: "9 \<le> length (s @ r)"
    by (metis length_rx_group_text length_take min.bounded_iff order_refl)
  have nth: "(s @ r) ! n = rx_group_text ! n" if "n < 9" for n
    using eq that by (metis nth_take)
  have "\<not> 4 < length s"
  proof
    assume "4 < length s"
    then have "s ! 4 = slash"
      using nth [of 4] by (simp add: group_text_nth nth_append)
    moreover from \<open>4 < length s\<close> have "s ! 4 \<in> set s"
      by (rule nth_mem)
    ultimately show False using assms(1) by metis
  qed
  moreover have r: "r \<noteq> []"
    using len calculation by auto
  then obtain y r' where yr: "r = slash # y # r'" "y \<noteq> colon"
    using assms(2) by (auto simp: seg_led_def)
  then have "(s @ r) ! length s = slash" by simp
  then have "\<not> length s < 4"
    using nth [of "length s"] group_text_nth(3) [of "length s"] by auto
  ultimately have "length s = 4" by simp
  then show False
    using nth [of 5] yr by (simp add: group_text_nth nth_append)
qed

lemma regexp_Compile_lit_inv:
  assumes "slash \<notin> set s" and "seg_led r" and "regexp_Compile (s @ r) = Some x"
  shows "list_all rx_plain s \<and> (\<exists>y. regexp_Compile r = Some y)"
  using assms
proof (induction s arbitrary: x)
  case (Cons c s)
  have "take 9 (c # s @ r) \<noteq> rx_group_text"
    using no_group_text [of "c # s" r] Cons.prems by simp
  then show ?case
    using Cons by (auto simp: regexp_Compile.simps [of "c # s @ r"] split: if_splits)
qed auto

lemma regexp_Compile_segs_inv:
  assumes "regexp_Compile (concat (map seg_regex ss)) = Some x"
    and "\<forall>s \<in> set ss. s \<noteq> [] \<and> slash \<notin> set s"
  shows "\<forall>s \<in> set ss. is_param s \<or> list_all rx_plain s"
  using assms
proof (induction ss arbitrary: x)
  case (Cons s ss)
  have led: "seg_led (concat (map seg_regex ss))"
    using Cons.prems by (simp add: seg_led_segs)
  show ?case
  proof (cases "is_param s")
    case True
    then show ?thesis using Cons by (auto simp: seg_regex_def)
  next
    case False
    then have "\<exists>x'. regexp_Compile (s @ concat (map seg_regex ss)) = Some x'"
      using Cons.prems by (auto simp: seg_regex_def [of s])
    then have "list_all rx_plain s \<and> (\<exists>y. regexp_Compile (concat (map seg_regex ss)) = Some y)"
      using regexp_Compile_lit_inv [OF _ led, of s] Cons.prems by auto
    then show ?thesis using Cons by auto
  qed
qed simp

lemma newRegexKeyMatcher_iff_plain: "(\<exists>m. newRegexKeyMatcher p = Inr m) \<longleftrightarrow> plain_pattern p"
proof
  assume "\<exists>m. newRegexKeyMatcher p = Inr m"
  then have "\<exists>x. regexp_Compile (concat (map seg_regex (segments p))) = Some x"
    by (auto simp: newRegexKeyMatcher_def parsePath_eq split: option.splits)
  then show "plain_pattern p"
    unfolding plain_pattern_def
    using regexp_Compile_segs_inv segments_no_slash segments_nonempty by metis
qed (simp add: newRegexKeyMatcher_plain)

lemma newRegexKeyMatcher_Inr:
  assumes "newRegexKeyMatcher p = Inr m"
  shows "plain_pattern p" and "rkm_pattern m = p" and "rkm_fieldMap m = put_fields (params p) [] 1"
    and "rkm_regex m = concat (map seg_rx (segments p))"
proof -
  show plain: "plain_pattern p"
    using assms newRegexKeyMatcher_iff_plain by blast
  show "rkm_pattern m = p" "rkm_fieldMap m = put_fields (params p) [] 1"
    "rkm_regex m = concat (map seg_rx (segments p))"
    using assms newRegexKeyMatcher_plain [OF plain] by auto
qed

section \<open>What a match contains\<close>

lemma rx_slash_led_segs [simp]: "rx_slash_led (concat (map seg_rx ss))"
  by (cases ss) (auto simp: rx_slash_led_def seg_rx_def)

lemma rx_match_param_seg:
  "is_param s \<Longrightarrow> rx_match (seg_rx s @ concat (map seg_rx ss)) (x # t) =
     (if x = slash \<and> takeWhile rx_class t \<noteq> []
      then map_option (\<lambda>(u, gs). (slash # takeWhile rx_class t @ u, takeWhile rx_class t # gs))
             (rx_match (concat (map seg_rx ss)) (drop (length (takeWhile rx_class t)) t))
      else None)"
proof -
  assume "is_param s"
  then have "rx_match (seg_rx s @ concat (map seg_rx ss)) (x # t) =
      (if x = slash then map_option (\<lambda>(u, gs). (slash # u, gs))
         (rx_match (RGroup # concat (map seg_rx ss)) t) else None)"
    by (simp add: seg_rx_def)
  then show ?thesis
    by (cases "rx_match (concat (map seg_rx ss)) (drop (length (takeWhile rx_class t)) t)")
      (auto simp: rx_match_group_slash_led Let_def simp del: rx_match.simps(2))
qed

lemma rx_match_lit_seg:
  "\<not> is_param s \<Longrightarrow> rx_match (seg_rx s @ r) t =
     (if prefix (slash # s) t
      then map_option (\<lambda>(u, gs). (slash # s @ u, gs)) (rx_match r (drop (Suc (length s)) t)) else None)"
  using rx_match_lits [of "slash # s" r t] by (simp add: seg_rx_def)

lemma takeWhile_class_ok: "takeWhile rx_class t \<noteq> [] \<Longrightarrow> attr_value_ok (takeWhile rx_class t)"
  by (auto simp: attr_value_ok_def list_all_iff dest: set_takeWhileD)

lemma rx_match_segs_Some:
  "rx_match (concat (map seg_rx ss)) t = Some (u, gs) \<Longrightarrow>
     u = fill ss gs \<and> length gs = length (filter is_param ss) \<and> list_all attr_value_ok gs"
proof (induction ss arbitrary: t u gs)
  case Nil
  then show ?case by simp
next
  case (Cons s ss)
  show ?case
  proof (cases "is_param s")
    case True
    obtain x t' where t: "t = x # t'"
      using Cons.prems by (cases t) (auto simp: seg_rx_def)
    have m: "rx_match (seg_rx s @ concat (map seg_rx ss)) (x # t') = Some (u, gs)"
      using Cons.prems t by simp
    then obtain u' gs' where g: "takeWhile rx_class t' \<noteq> []"
      and rest: "rx_match (concat (map seg_rx ss)) (drop (length (takeWhile rx_class t')) t') = Some (u', gs')"
      and u: "u = slash # takeWhile rx_class t' @ u'" and gs: "gs = takeWhile rx_class t' # gs'"
      using True by (auto simp: rx_match_param_seg split: if_splits)
    show ?thesis
      using Cons.IH [OF rest] True u gs takeWhile_class_ok [OF g] by simp
  next
    case False
    then show ?thesis
      using Cons.prems Cons.IH by (auto simp: rx_match_lit_seg split: if_splits)
  qed
qed

lemma takeWhile_class_fill:
  "list_all rx_class g \<Longrightarrow> takeWhile rx_class (g @ fill ss gs) = g"
  by (cases ss) (auto simp: list_all_iff takeWhile_append rx_class_def)

lemma rx_match_segs_fill:
  "length gs = length (filter is_param ss) \<Longrightarrow> list_all attr_value_ok gs \<Longrightarrow>
     rx_match (concat (map seg_rx ss)) (fill ss gs) = Some (fill ss gs, gs)"
proof (induction ss arbitrary: gs)
  case (Cons s ss)
  show ?case
  proof (cases "is_param s")
    case True
    then obtain g gs' where gs: "gs = g # gs'"
      using Cons.prems by (cases gs) auto
    then have "g \<noteq> []" and g: "takeWhile rx_class (g @ fill ss gs') = g"
      using Cons.prems by (auto simp: attr_value_ok_def intro: takeWhile_class_fill)
    then show ?thesis
      using Cons True gs by (simp add: rx_match_param_seg)
  next
    case False
    then show ?thesis using Cons by (simp add: rx_match_lit_seg)
  qed
qed simp

lemma fill_format:
  "list_all (seg_found f) ss \<Longrightarrow>
     concat (map (seg_format f) ss) = fill ss (map (\<lambda>s. the (f (tl s))) (filter is_param ss))"
  by (induction ss) (auto simp: seg_format_def seg_found_def)

lemma path_format_fill:
  "path_found f p \<Longrightarrow> path_format f p = fill (segments p) (map (\<lambda>n. the (f n)) (params p))"
  by (simp add: path_format_def path_found_def fill_format params_def comp_def)

lemma path_found_iff: "path_found f p \<longleftrightarrow> (\<forall>n \<in> set (params p). f n \<noteq> None)"
  by (auto simp: path_found_def seg_found_def list_all_iff params_def)

lemma path_format_cong: "(\<And>n. n \<in> set (params p) \<Longrightarrow> f n = g n) \<Longrightarrow> path_format f p = path_format g p"
  by (auto simp: path_format_def seg_format_def params_def intro!: arg_cong [where f = concat] map_cong)

lemma path_found_cong: "(\<And>n. n \<in> set (params p) \<Longrightarrow> f n = g n) \<Longrightarrow> path_found f p = path_found g p"
  by (auto simp: path_found_iff)

text \<open>The match of a pattern with parameters \<open>ns\<close>: matched text \<open>t\<close>, group texts \<open>gs\<close>.\<close>

definition match_of :: "string list \<Rightarrow> string \<Rightarrow> string list \<Rightarrow> attributes" where
  "match_of ns t gs = RegexKeyMatch (t # gs) (put_fields ns [] 1)"

lemma match_Some:
  assumes new: "newRegexKeyMatcher p = Inr m" and match: "match m path = Some a"
  obtains pre gs post where "path = pre @ fill (segments p) gs @ post"
    and "a = match_of (params p) (fill (segments p) gs) gs"
    and "length gs = length (params p)" and "list_all attr_value_ok gs"
proof -
  note m = newRegexKeyMatcher_Inr [OF new]
  obtain res where res: "rx_find (rkm_regex m) path = Some res"
    and a: "a = RegexKeyMatch res (put_fields (params p) [] 1)"
    using match m by (auto simp: match_def newKeyMatch_def split: option.splits)
  obtain pre t gs where "path = pre @ t @ drop (length pre + length t) path"
    and "rx_match (rkm_regex m) (t @ drop (length pre + length t) path) = Some (t, gs)"
    and "res = t # gs"
    using rx_find_Some [OF res] by blast
  moreover from this have "t = fill (segments p) gs" "length gs = length (params p)"
    "list_all attr_value_ok gs"
    using m rx_match_segs_Some [of "segments p"] by (auto simp: params_def)
  ultimately show thesis
    using that [of pre gs "drop (length pre + length t) path"] a by (simp add: match_of_def)
qed

lemma match_fill:
  assumes "newRegexKeyMatcher p = Inr m"
    and "length gs = length (params p)" and "list_all attr_value_ok gs"
  shows "match m (fill (segments p) gs) =
    Some (match_of (params p) (fill (segments p) gs) gs)"
proof -
  have "rx_match (rkm_regex m) (fill (segments p) gs) = Some (fill (segments p) gs, gs)"
    using newRegexKeyMatcher_Inr [OF assms(1)] assms(2,3) rx_match_segs_fill
    by (simp add: params_def)
  then show ?thesis
    using newRegexKeyMatcher_Inr [OF assms(1)]
    by (simp add: match_def newKeyMatch_def rx_find_at_start match_of_def)
qed

lemma attr_wf_match:
  "length gs = length ns \<Longrightarrow> attr_wf (match_of ns t gs)"
  by (auto simp: match_of_def list_all_iff dest: gm_get_put_fields_bound split: option.splits)

lemma match_attr_wf:
  assumes "newRegexKeyMatcher p = Inr m" and "match m path = Some a"
  shows "attr_wf a"
  using match_Some [OF assms] attr_wf_match by metis

lemma attr_lookup_match:
  assumes "distinct ns" and "length gs = length ns"
  shows "attr_lookup (match_of ns t gs) n =
    (if n \<in> set ns then map_of (zip ns gs) n else None)"
proof (cases "n \<in> set ns")
  case True
  then obtain j where j: "j < length ns" "n = ns ! j"
    by (auto simp: in_set_conv_nth)
  moreover have "map_of (zip ns gs) n = Some (gs ! j)"
    using j assms by (simp add: map_of_zip_nth)
  ultimately show ?thesis
    using assms True gm_get_put_fields [OF assms(1) j(1), of "[]" 1]
    by (simp add: match_of_def attr_lookup_def go_index_def)
next
  case False
  then show ?thesis
    by (simp add: match_of_def attr_lookup_def gm_get_put_fields_other)
qed

lemma params_lookup_match:
  assumes "distinct ns" and "length gs = length ns"
  shows "map (\<lambda>n. the (attr_lookup (match_of ns t gs) n)) ns = gs"
  by (rule nth_equalityI) (use assms in \<open>auto simp: attr_lookup_match map_of_zip_nth\<close>)

lemma match_lookup:
  assumes "distinct ns" and "length gs = length ns" and "list_all attr_value_ok gs" and "n \<in> set ns"
  shows "\<exists>v. attr_lookup (match_of ns t gs) n = Some v \<and> attr_value_ok v"
proof -
  obtain j where j: "j < length ns" "n = ns ! j"
    using assms(4) by (auto simp: in_set_conv_nth)
  then have "attr_lookup (match_of ns t gs) n = Some (gs ! j)"
    using assms by (simp add: attr_lookup_match map_of_zip_nth)
  moreover have "attr_value_ok (gs ! j)"
    using assms j by (simp add: list_all_length)
  ultimately show ?thesis by blast
qed

lemma path_format_match:
  assumes "distinct (params p)" and "length gs = length (params p)" and "list_all attr_value_ok gs"
  shows "path_format (attr_lookup (match_of (params p) t gs)) p =
      fill (segments p) gs"
    and "path_found (attr_lookup (match_of (params p) t gs)) p"
proof -
  show found: "path_found (attr_lookup (match_of (params p) t gs)) p"
    using match_lookup [OF assms] by (fastforce simp: path_found_iff)
  show "path_format (attr_lookup (match_of (params p) t gs)) p =
      fill (segments p) gs"
    using params_lookup_match [OF assms(1,2)] by (simp add: path_format_fill [OF found])
qed

section \<open>Slashes\<close>

lemma strings_Count_fill:
  assumes "\<forall>s \<in> set ss. slash \<notin> set s" and "\<forall>g \<in> set gs. slash \<notin> set g"
  shows "strings_Count (fill ss gs) slash = length ss"
  using assms
proof (induction ss gs rule: fill.induct)
  case (2 s ss gs)
  then show ?case
    by (cases gs) (auto simp: strings_Count_def)
qed (simp add: strings_Count_def)

lemma attr_value_ok_no_slash: "attr_value_ok v \<Longrightarrow> slash \<notin> set v"
  by (auto simp: attr_value_ok_def list_all_iff rx_class_def)

lemma strings_Count_segments:
  assumes "normal_path p" shows "strings_Count p slash = length (segments p)"
proof -
  have aux: "(\<forall>s \<in> set ss. slash \<notin> set s) \<Longrightarrow>
      strings_Count (concat (map ((#) slash) ss)) slash = length ss" for ss
    by (induction ss) (auto simp: strings_Count_def)
  show ?thesis
    using aux [of "segments p"] segments_no_slash assms unfolding normal_path_def by metis
qed

section \<open>Prefixes\<close>

lemma getPrefix_eq: "getPrefix m = takeWhile (\<lambda>c. c \<noteq> colon) (rkm_pattern m)"
proof (cases "colon \<in> set (rkm_pattern m)")
  case True
  then obtain ys zs where "rkm_pattern m = ys @ colon # zs" "colon \<notin> set ys"
    by (meson split_list_first)
  then show ?thesis by (simp add: getPrefix_def strings_Index_def)
next
  case False
  then show ?thesis by (simp add: getPrefix_def strings_Index_def)
qed

lemma takeWhile_append_prefix: "prefix (takeWhile P (xs @ ys)) xs \<or> takeWhile P (xs @ ys) = xs @ takeWhile P ys"
  by (induction xs) auto

lemma prefix_segs_format:
  "\<forall>s \<in> set ss. s \<noteq> [] \<Longrightarrow>
   prefix (takeWhile (\<lambda>c. c \<noteq> colon) (concat (map ((#) slash) ss))) (concat (map (seg_format f) ss))"
proof (induction ss)
  case (Cons s ss)
  show ?case
  proof (cases "is_param s")
    case True
    then show ?thesis by (auto simp: seg_format_def is_param_iff)
  next
    case False
    then show ?thesis
      using Cons takeWhile_append_prefix [of "\<lambda>c. c \<noteq> colon" s "concat (map ((#) slash) ss)"]
      by (auto simp: seg_format_def intro: prefix_order.trans)
  qed
qed simp

lemma getPrefix_format:
  assumes "normal_path (rkm_pattern m)"
  shows "prefix (getPrefix m) (path_format f (rkm_pattern m))"
  using prefix_segs_format [of "segments (rkm_pattern m)" f] assms segments_nonempty
  unfolding getPrefix_eq path_format_def normal_path_def by metis

lemma fold_append_single: "fold (\<lambda>c ps. ps @ [g c]) cs ps = ps @ map g cs"
  by (induction cs arbitrary: ps) auto

lemma fold_go_bind_Ret:
  assumes "\<And>c ps. h c ps = Ret (ps @ g c)"
  shows "fold (\<lambda>c acc. go_bind acc (h c)) cs (Ret ps) = Ret (ps @ concat (map g cs))"
  using assms by (induction cs arbitrary: ps) auto

lemma buildPrefixes_eq:
  "cs \<noteq> [] \<Longrightarrow> buildPrefixesFromConstraint base cs ps =
     Ret (ps @ map (\<lambda>w. base @ concat (map go_rune w)) (product_lists cs))"
proof (induction cs arbitrary: base ps)
  case (Cons myChars cs)
  show ?case
  proof (cases cs)
    case Nil
    then show ?thesis by (simp add: fold_append_single map_concat comp_def)
  next
    case (Cons more rest)
    have step: "buildPrefixesFromConstraint (base @ go_rune c) (more # rest) ps' =
        Ret (ps' @ map (\<lambda>w. base @ concat (map go_rune (c # w))) (product_lists (more # rest)))"
      for c ps'
      using Cons.IH [of "base @ go_rune c" ps'] Cons by simp
    show ?thesis
      unfolding Cons buildPrefixesFromConstraint.simps
      by (subst fold_go_bind_Ret [of "\<lambda>c. buildPrefixesFromConstraint (base @ go_rune c) (more # rest)"
            "\<lambda>c. map (\<lambda>w. base @ concat (map go_rune (c # w))) (product_lists (more # rest))", OF step])
        (simp add: map_concat comp_def)
  qed
qed simp

text \<open>
  The prefixes of a constrained pattern cover every key whose first attribute value satisfies the
  constraint: it starts with the constraint's prefix and one of the listed character sequences.
\<close>

definition constraint_allows :: "constraint \<Rightarrow> string \<Rightarrow> bool" where
  "constraint_allows c v \<longleftrightarrow>
     list_ex (\<lambda>w. prefix (constr_prefix c @ concat (map go_rune w)) v) (product_lists (chars c))"

definition literal_segments_no_colon :: "string \<Rightarrow> bool" where
  "literal_segments_no_colon p \<longleftrightarrow> (\<forall>s \<in> set (segments p). is_param s \<or> colon \<notin> set s)"

lemma normal_path_first_param:
  assumes "normal_path p" and "literal_segments_no_colon p" and "params p = n # ns"
  obtains lits rest where "segments p = lits @ (colon # n) # rest" and "\<forall>s \<in> set lits. \<not> is_param s"
    and "p = concat (map ((#) slash) lits) @ slash # colon # n @ concat (map ((#) slash) rest)"
    and "colon \<notin> set (concat (map ((#) slash) lits))"
proof -
  let ?lits = "takeWhile (\<lambda>s. \<not> is_param s) (segments p)"
  have "filter is_param (segments p) \<noteq> []"
    using assms(3) by (auto simp: params_def)
  then obtain s rest where seg: "segments p = ?lits @ s # rest" and "is_param s"
    by (metis (no_types, lifting) filter_False takeWhile_dropWhile_id dropWhile_eq_Nil_conv hd_dropWhile
        list.exhaust_sel)
  moreover have lits: "\<forall>s \<in> set ?lits. \<not> is_param s"
    by (auto dest: set_takeWhileD)
  ultimately have "tl s = n"
    using assms(3) by (subst (asm) params_def) (metis (no_types, lifting) filter.simps(2) filter_False
        filter_append list.map(2) list.sel(1) append_Nil)
  then have s: "s = colon # n" using \<open>is_param s\<close> by (auto simp: is_param_iff)
  have "p = concat (map ((#) slash) (segments p))"
    using assms(1) by (simp add: normal_path_def)
  then have "p = concat (map ((#) slash) ?lits) @ slash # colon # n @ concat (map ((#) slash) rest)"
    using seg s by (metis (no_types, lifting) append.simps(2) concat.simps(2) concat_append list.map(2)
        map_append)
  moreover have "\<forall>s \<in> set ?lits. colon \<notin> set s"
    using assms(2) by (auto simp: literal_segments_no_colon_def dest!: set_takeWhileD)
  then have "colon \<notin> set (concat (map ((#) slash) ?lits))"
    by auto
  ultimately show thesis using that seg s lits by metis
qed

lemma getPrefixesWithConstraints_param:
  assumes p: "p = L @ slash # colon # n @ R" and "colon \<notin> set L" and "slash \<notin> set n"
    and R: "R = [] \<or> hd R = slash"
    and "rkm_pattern m = p"
  shows "getPrefixesWithConstraints m constraints =
    (case gm_get constraints n of
       None \<Rightarrow> Ret [getPrefix m]
     | Some c \<Rightarrow> buildPrefixesFromConstraint (L @ [slash] @ constr_prefix c) (chars c) [])"
proof -
  have "takeWhile (\<lambda>x. x \<noteq> colon) p = L @ [slash]"
    using assms(2) takeWhile_sep [of colon "L @ [slash]" "n @ R"] by (simp add: p)
  then have index: "strings_Index p colon = Some (Suc (length L))"
    by (simp add: strings_Index_def p)
  have drop: "drop (Suc (length L)) p = colon # n @ R" by (simp add: p)
  have "(case strings_Index (colon # n @ R) slash of None \<Rightarrow> length p
       | Some e \<Rightarrow> Suc (length L) + e) = Suc (length L) + Suc (length n)"
  proof (cases R)
    case Nil
    then show ?thesis using assms(3) by (simp add: strings_Index_def p)
  next
    case (Cons x R')
    then have "x = slash" using R by simp
    then have "takeWhile (\<lambda>x. x \<noteq> slash) (colon # n @ R) = colon # n"
      using assms(3) takeWhile_sep [of slash n R'] Cons by simp
    then show ?thesis by (simp add: strings_Index_def Cons)
  qed
  moreover have "take (Suc (length L) + Suc (length n) - (Suc (length L) + 1))
      (drop (Suc (length L) + 1) p) = n" "take (Suc (length L)) p = L @ [slash]"
    by (simp_all add: p)
  ultimately show ?thesis
    unfolding getPrefixesWithConstraints_def assms(5) index option.case drop Let_def
    by (simp only: append_assoc)
qed

lemma constrained_prefix_covers:
  assumes "normal_path p" and "literal_segments_no_colon p" and "params p = n # ns"
    and "rkm_pattern m = p" and "gm_get constraints n = Some c" and "chars c \<noteq> []"
    and "f n = Some v" and "constraint_allows c v"
  obtains ps q where "getPrefixesWithConstraints m constraints = Ret ps" and "q \<in> set ps"
    and "prefix q (path_format f p)"
proof -
  obtain lits rest where seg: "segments p = lits @ (colon # n) # rest"
    and lits: "\<forall>s \<in> set lits. \<not> is_param s"
    and p: "p = concat (map ((#) slash) lits) @ slash # colon # n @ concat (map ((#) slash) rest)"
    and nocolon: "colon \<notin> set (concat (map ((#) slash) lits))"
    using normal_path_first_param [OF assms(1,2,3)] by metis
  let ?L = "concat (map ((#) slash) lits)"
  have n: "slash \<notin> set n"
    using segments_no_slash [of "colon # n" p] seg by simp
  have R: "concat (map ((#) slash) rest) = [] \<or> hd (concat (map ((#) slash) rest)) = slash"
    by (cases rest) auto
  obtain w where w: "w \<in> set (product_lists (chars c))"
    "prefix (constr_prefix c @ concat (map go_rune w)) v"
    using assms(8) by (auto simp: constraint_allows_def list_ex_iff)
  let ?q = "(?L @ [slash] @ constr_prefix c) @ concat (map go_rune w)"
  have lits_format: "map (seg_format f) lits = map ((#) slash) lits"
    using lits by (simp add: seg_format_def)
  have "path_format f p = ?L @ slash # v @ concat (map (seg_format f) rest)"
    by (simp add: path_format_def seg lits_format seg_format_def [of f "colon # n"] assms(7)
        del: map_eq_conv)
  then have "prefix ?q (path_format f p)"
    using w(2) by (auto simp: prefix_def)
  moreover have "getPrefixesWithConstraints m constraints =
      Ret (map (\<lambda>w. (?L @ [slash] @ constr_prefix c) @ concat (map go_rune w)) (product_lists (chars c)))"
    using getPrefixesWithConstraints_param [OF p nocolon n R assms(4), of constraints] assms(5,6)
    by (simp only: buildPrefixes_eq append_Nil simp_thms option.case)
  ultimately show thesis using that w(1) by (metis (no_types, lifting) image_eqI set_map)
qed

lemma getPrefixesWithConstraints_first:
  assumes "normal_path p" and "literal_segments_no_colon p" and "params p = n # ns" and "rkm_pattern m = p"
  shows "\<exists>L. getPrefixesWithConstraints m constraints =
    (case gm_get constraints n of
       None \<Rightarrow> Ret [getPrefix m]
     | Some c \<Rightarrow> buildPrefixesFromConstraint (L @ [slash] @ constr_prefix c) (chars c) [])"
proof -
  obtain lits rest where seg: "segments p = lits @ (colon # n) # rest"
    and p: "p = concat (map ((#) slash) lits) @ slash # colon # n @ concat (map ((#) slash) rest)"
    and nocolon: "colon \<notin> set (concat (map ((#) slash) lits))"
    using normal_path_first_param [OF assms(1-3)] by metis
  have n: "slash \<notin> set n"
    using segments_no_slash [of "colon # n" p] seg by simp
  have R: "concat (map ((#) slash) rest) = [] \<or> hd (concat (map ((#) slash) rest)) = slash"
    by (cases rest) auto
  show ?thesis
    using getPrefixesWithConstraints_param [OF p nocolon n R assms(4), of constraints] by blast
qed

lemma unconstrained_prefix:
  assumes "normal_path p" and "literal_segments_no_colon p" and "rkm_pattern m = p"
    and "params p = [] \<or> gm_get constraints (hd (params p)) = None"
  shows "getPrefixesWithConstraints m constraints = Ret [getPrefix m]"
proof (cases "params p")
  case Nil
  then have "\<forall>s \<in> set (segments p). colon \<notin> set s"
    using assms(2) by (auto simp: literal_segments_no_colon_def params_def filter_empty_conv)
  then have "colon \<notin> set (concat (map ((#) slash) (segments p)))" by auto
  then have "colon \<notin> set p" using assms(1) unfolding normal_path_def by simp
  then have "strings_Index p colon = None" by (simp add: strings_Index_def)
  then show ?thesis by (simp add: getPrefixesWithConstraints_def assms(3))
next
  case (Cons n ns)
  then show ?thesis
    using getPrefixesWithConstraints_first [OF assms(1,2) Cons assms(3), of constraints] assms(4) by auto
qed

section \<open>Properties\<close>



text \<open>
  C35. Formatting a pattern with a map that gives every parameter a non-empty value without slashes
  and colons, and matching the resulting key with the pattern's matcher, returns the same attribute
  values, and formatting the pattern with them gives the key again.
\<close>

theorem format_then_match:
  assumes "newRegexKeyMatcher p = Inr m" and "distinct (params p)"
    and "\<forall>n \<in> set (params p). \<exists>v. gm_get values n = Some v \<and> attr_value_ok v"
  shows "\<exists>key a. FormatWithAttributes p (MapAttributes values) = Ret key \<and> match m key = Some a \<and>
    (\<forall>n \<in> set (params p). FindAttribute a n = FindAttribute (MapAttributes values) n) \<and>
    FormatWithAttributes p a = Ret key"
proof -
  let ?f = "attr_lookup (MapAttributes values)"
  let ?gs = "map (\<lambda>n. the (?f n)) (params p)"
  let ?key = "fill (segments p) ?gs"
  have found: "path_found ?f p"
    using assms(3) by (auto simp: path_found_iff attr_lookup_def)
  have gs: "length ?gs = length (params p)" "list_all attr_value_ok ?gs"
    using assms(3) by (auto simp: list_all_iff attr_lookup_def)
  let ?a = "match_of (params p) ?key ?gs"
  have "FormatWithAttributes p (MapAttributes values) = Ret ?key"
    by (simp add: FormatWithAttributes_attr path_format_fill [OF found])
  moreover have "match m ?key = Some ?a"
    using match_fill [OF assms(1) gs] .
  moreover have wf: "attr_wf ?a" by (rule attr_wf_match) simp
  moreover have "FormatWithAttributes p ?a = Ret ?key"
    using path_format_match(1) [OF assms(2) gs] by (simp add: FormatWithAttributes_attr [OF wf])
  moreover have "attr_lookup ?a n = ?f n" if "n \<in> set (params p)" for n
    using that assms(2) found
    by (auto simp: attr_lookup_match map_of_zip_map path_found_iff)
  then have "\<forall>n \<in> set (params p). FindAttribute ?a n = FindAttribute (MapAttributes values) n"
    by (simp add: attr_wf_find [OF wf] attr_wf_find [of "MapAttributes values"] del: FindAttribute.simps)
  ultimately show ?thesis by blast
qed

theorem format_then_match_witness:
  "\<exists>m key a. newRegexKeyMatcher ''/a/:id/b/:x'' = Inr m \<and>
     FormatWithAttributes ''/a/:id/b/:x'' (MapAttributes [(''id'', ''7''), (''x'', ''y-1'')]) = Ret key \<and>
     match m key = Some a \<and> FormatWithAttributes ''/a/:id/b/:x'' a = Ret key"
proof -
  let ?p = "''/a/:id/b/:x''" and ?kvs = "[(''id'', ''7''), (''x'', ''y-1'')]"
  have m: "newRegexKeyMatcher ?p = Inr (projr (newRegexKeyMatcher ?p))" by code_simp
  have d: "distinct (params ?p)" by code_simp
  have "set (params ?p) = {''id'', ''x''}" by code_simp
  then have v: "\<forall>n \<in> set (params ?p). \<exists>v. gm_get ?kvs n = Some v \<and> attr_value_ok v"
    by (simp add: gm_get_def attr_value_ok_def rx_class_def)
  show ?thesis using format_then_match [OF m d v] m by blast
qed

text \<open>
  The replacement method \<open>FindAttribute\<close> agrees with \<open>GetAttribute\<close> (through
  \<open>finderWrapper\<close>) for every implementation of the attributes, panics included.
\<close>

theorem FindAttribute_agrees_GetAttribute: "FindAttribute a n = finderWrapper (GetAttribute a) n"
  by (induction a) (auto simp: finderWrapper_def go_index_def split: option.splits)

text \<open>
  \<open>buildPrefixesFromConstraint\<close> appends one prefix per choice of one character out of
  every position, in the order of the positions, and panics exactly when the constraint lists no
  position at all.
\<close>

theorem buildPrefixesFromConstraint_product:
  "buildPrefixesFromConstraint base cs ps =
     (if cs = [] then Panic
      else Ret (ps @ map (\<lambda>w. base @ concat (map go_rune w)) (product_lists cs)))"
  by (simp add: buildPrefixes_eq)

end
