(* ===== verification/StaticRule.thy ===== *)
theory StaticRule
  imports Matcher
begin

text \<open>
  \<open>rules/static_rule.go\<close> and the map-backed read APIs (\<open>mapReadAPI\<close> of dynamic_rule.go,
  \<open>cacheReadAPI\<close> of int_crawler.go): rules over concrete keys, their evaluation against a
  key-value store, and the two filters (\<open>satisfiable\<close>, \<open>qSatisfiable\<close>) that decide
  whether a changed key warrants an evaluation. The lemmas give evaluation a boolean semantics
  (\<open>holds\<close>), show that it reads no other keys than \<open>getKeys\<close>, and relate both filters to it.
\<close>

named_theorems static_simps "unfolding of the list-valued helpers of static rules"

section \<open>Definitions\<close>

datatype quadState = qTrue | qFalse | qMaybe | qNone

type_synonym comparator = "string option \<Rightarrow> bool"

text \<open>The \<open>get\<close> of a \<open>readAPI\<close>: \<open>Inl\<close> is an error, \<open>Inr None\<close> a nil value.\<close>

type_synonym read_get = "string \<Rightarrow> string + string option"

datatype static_rule =
    CompareLiteralRule attributes string comparator string
  | AndStaticRule "static_rule list"
  | OrStaticRule "static_rule list"
  | NotStaticRule static_rule
  | EqualsRule attributes "string list"

datatype ruleFactory = CompareLiteralRuleFactory comparator string | EqualsRuleFactory

definition newEqualsComparator :: "string option \<Rightarrow> comparator" where
  "newEqualsComparator value comparedValue =
     (case value of
        None \<Rightarrow> comparedValue = None
      | Some v \<Rightarrow> (case comparedValue of None \<Rightarrow> False | Some c \<Rightarrow> c = v))"

text \<open>\<open>newRule\<close> of the two factories; \<open>keys[0]\<close> panics on an empty list.\<close>

primrec newRule :: "ruleFactory \<Rightarrow> string list \<Rightarrow> attributes \<Rightarrow> static_rule go" where
  "newRule (CompareLiteralRuleFactory comparator stringTemplate) keys attr =
     go_bind (go_index keys 0) (\<lambda>key. Ret (CompareLiteralRule attr key comparator stringTemplate))"
| "newRule EqualsRuleFactory keys attr = Ret (EqualsRule attr keys)"

primrec getAttributes :: "static_rule \<Rightarrow> attributes go" where
  "getAttributes (CompareLiteralRule attr key c t) = Ret attr"
| "getAttributes (AndStaticRule nestedRules) =
     (case map getAttributes nestedRules of [] \<Rightarrow> Panic | a # _ \<Rightarrow> a)"
| "getAttributes (OrStaticRule nestedRules) =
     (case map getAttributes nestedRules of [] \<Rightarrow> Panic | a # _ \<Rightarrow> a)"
| "getAttributes (NotStaticRule r) = getAttributes r"
| "getAttributes (EqualsRule attr keys) = Ret attr"

primrec getKeys :: "static_rule \<Rightarrow> string list" where
  "getKeys (CompareLiteralRule attr key c t) = [key]"
| "getKeys (AndStaticRule nestedRules) = concat (map getKeys nestedRules)"
| "getKeys (OrStaticRule nestedRules) = concat (map getKeys nestedRules)"
| "getKeys (NotStaticRule r) = getKeys r"
| "getKeys (EqualsRule attr keys) = keys"

primrec keyMatch :: "static_rule \<Rightarrow> string \<Rightarrow> bool" where
  "keyMatch (CompareLiteralRule attr k c t) key = (k = key)"
| "keyMatch (AndStaticRule nestedRules) key = list_ex (\<lambda>b. b) (map (\<lambda>r. keyMatch r key) nestedRules)"
| "keyMatch (OrStaticRule nestedRules) key = list_ex (\<lambda>b. b) (map (\<lambda>r. keyMatch r key) nestedRules)"
| "keyMatch (NotStaticRule r) key = keyMatch r key"
| "keyMatch (EqualsRule attr keys) key = (length keys = 0 \<or> list_ex (\<lambda>ruleKey. key = ruleKey) keys)"

primrec satisfiable :: "static_rule \<Rightarrow> string \<Rightarrow> string option \<Rightarrow> bool" where
  "satisfiable (CompareLiteralRule attr k c t) key value = (key = k)"
| "satisfiable (AndStaticRule nestedRules) key value =
     list_ex (\<lambda>b. b) (map (\<lambda>r. satisfiable r key value) nestedRules)"
| "satisfiable (OrStaticRule nestedRules) key value =
     list_ex (\<lambda>b. b) (map (\<lambda>r. satisfiable r key value) nestedRules)"
| "satisfiable (NotStaticRule r) key value = keyMatch r key"
| "satisfiable (EqualsRule attr keys) key value = keyMatch (EqualsRule attr keys) key"

text \<open>The loop of \<open>qSatisfiable\<close> of compound rules: \<open>(anyTrue, anyMaybe, anyFalse)\<close>.\<close>

fun q_flags :: "quadState list \<Rightarrow> bool \<times> bool \<times> bool \<Rightarrow> bool \<times> bool \<times> bool" where
  "q_flags [] st = st"
| "q_flags (nqs # qs) (anyTrue, anyMaybe, anyFalse) =
     q_flags qs
       (case nqs of
          qTrue \<Rightarrow> (True, anyMaybe, anyFalse)
        | qFalse \<Rightarrow> (anyTrue, anyMaybe, True)
        | qMaybe \<Rightarrow> (anyTrue, True, anyFalse)
        | qNone \<Rightarrow> (anyTrue, anyMaybe, anyFalse))"

definition and_q :: "quadState list \<Rightarrow> quadState" where
  "and_q qs =
     (case q_flags qs (False, False, False) of (anyTrue, anyMaybe, anyFalse) \<Rightarrow>
        if anyFalse then qFalse else if anyTrue then qTrue else if anyMaybe then qMaybe else qNone)"

definition or_q :: "quadState list \<Rightarrow> quadState" where
  "or_q qs =
     (case q_flags qs (False, False, False) of (anyTrue, anyMaybe, anyFalse) \<Rightarrow>
        if anyTrue then qTrue else if anyMaybe then qMaybe else if anyFalse then qFalse else qNone)"

definition not_q :: "quadState \<Rightarrow> quadState" where
  "not_q nqs = (case nqs of qMaybe \<Rightarrow> qMaybe | qTrue \<Rightarrow> qFalse | qFalse \<Rightarrow> qTrue | qNone \<Rightarrow> qNone)"

primrec qSatisfiable :: "static_rule \<Rightarrow> string \<Rightarrow> string option \<Rightarrow> quadState" where
  "qSatisfiable (CompareLiteralRule attr k comparator t) key value =
     (if key \<noteq> k then qNone else if comparator value then qTrue else qFalse)"
| "qSatisfiable (AndStaticRule nestedRules) key value =
     and_q (map (\<lambda>r. qSatisfiable r key value) nestedRules)"
| "qSatisfiable (OrStaticRule nestedRules) key value =
     or_q (map (\<lambda>r. qSatisfiable r key value) nestedRules)"
| "qSatisfiable (NotStaticRule r) key value = not_q (qSatisfiable r key value)"
| "qSatisfiable (EqualsRule attr keys) key value =
     (if keyMatch (EqualsRule attr keys) key then qMaybe else qNone)"

primrec and_satisfied :: "(string + bool) list \<Rightarrow> string + bool" where
  "and_satisfied [] = Inr True"
| "and_satisfied (r # rs) =
     (case r of
        Inl err \<Rightarrow> Inl err
      | Inr sat \<Rightarrow> if \<not> sat then Inr False else and_satisfied rs)"

primrec or_satisfied :: "(string + bool) list \<Rightarrow> string + bool" where
  "or_satisfied [] = Inr False"
| "or_satisfied (r # rs) =
     (case r of
        Inl err \<Rightarrow> Inl err
      | Inr sat \<Rightarrow> if sat then Inr True else or_satisfied rs)"

text \<open>The loop of \<open>equalsRule.satisfied\<close> over the keys after the first.\<close>

primrec equals_satisfied :: "read_get \<Rightarrow> string option \<Rightarrow> string list \<Rightarrow> string + bool" where
  "equals_satisfied get ref [] = Inr True"
| "equals_satisfied get ref (key # keys) =
     (case get key of
        Inl err2 \<Rightarrow> Inl err2
      | Inr None \<Rightarrow> if ref \<noteq> None then Inr False else equals_satisfied get ref keys
      | Inr (Some value) \<Rightarrow>
          (case ref of
             None \<Rightarrow> Inr False
           | Some r \<Rightarrow> if r \<noteq> value then Inr False else equals_satisfied get ref keys))"

primrec satisfied :: "static_rule \<Rightarrow> read_get \<Rightarrow> string + bool" where
  "satisfied (CompareLiteralRule attr key comparator t) get =
     (case get key of Inl err \<Rightarrow> Inl err | Inr value \<Rightarrow> Inr (comparator value))"
| "satisfied (AndStaticRule nestedRules) get = and_satisfied (map (\<lambda>r. satisfied r get) nestedRules)"
| "satisfied (OrStaticRule nestedRules) get = or_satisfied (map (\<lambda>r. satisfied r get) nestedRules)"
| "satisfied (NotStaticRule r) get =
     (case satisfied r get of Inl err \<Rightarrow> Inl err | Inr sat \<Rightarrow> Inr (\<not> sat))"
| "satisfied (EqualsRule attr keys) get =
     (case keys of
        [] \<Rightarrow> Inr True
      | key0 # rest \<Rightarrow>
          (case get key0 of Inl err1 \<Rightarrow> Inl err1 | Inr ref \<Rightarrow> equals_satisfied get ref rest))"

text \<open>\<open>String()\<close>; \<open>None\<close> only where a rule's template is outside \<open>fmt_Sprintf\<close>.\<close>

primrec static_String :: "static_rule \<Rightarrow> string option" where
  "static_String (CompareLiteralRule attr key c stringTemplate) = fmt_Sprintf stringTemplate key"
| "static_String (AndStaticRule nestedRules) =
     map_option (\<lambda>ss. ''('' @ strings_Join ss '' AND '' @ '')'') (those (map static_String nestedRules))"
| "static_String (OrStaticRule nestedRules) =
     map_option (\<lambda>ss. ''('' @ strings_Join ss '' OR '' @ '')'') (those (map static_String nestedRules))"
| "static_String (NotStaticRule r) = map_option (\<lambda>s. ''NOT ('' @ s @ '')'') (static_String r)"
| "static_String (EqualsRule attr keys) = Some (strings_Join keys '' = '')"

subsection \<open>Read APIs over a map\<close>

definition errorValue :: string where
  "errorValue = ''<ERROR>''"

definition mapReadAPI_get :: "(string, string) gomap \<Rightarrow> read_get" where
  "mapReadAPI_get values key =
     (case gm_get values key of
        None \<Rightarrow> Inr None
      | Some value \<Rightarrow> if value = errorValue then Inl ''Error'' else Inr (Some value))"

definition mapReadAPI_put :: "(string, string) gomap \<Rightarrow> string \<Rightarrow> string \<Rightarrow> (string, string) gomap" where
  "mapReadAPI_put values key value = gm_put values key value"

definition mapReadAPI_getCachedAPI ::
  "(string, string) gomap \<Rightarrow> string list \<Rightarrow> string + (string, string) gomap" where
  "mapReadAPI_getCachedAPI values keys = Inr values"

definition cacheReadAPI_get :: "(string, string) gomap \<Rightarrow> read_get" where
  "cacheReadAPI_get values key =
     (case gm_get values key of None \<Rightarrow> Inr None | Some value \<Rightarrow> Inr (Some value))"

definition cacheReadAPI_getCachedAPI ::
  "(string, string) gomap \<Rightarrow> string list \<Rightarrow> string + (string, string) gomap" where
  "cacheReadAPI_getCachedAPI values keys = Inr values"

section \<open>Vocabulary of the proofs\<close>

text \<open>The boolean meaning of a rule in a store.\<close>

primrec holds :: "static_rule \<Rightarrow> (string \<Rightarrow> string option) \<Rightarrow> bool" where
  "holds (CompareLiteralRule attr key comparator t) s = comparator (s key)"
| "holds (AndStaticRule rs) s = list_all (\<lambda>b. b) (map (\<lambda>r. holds r s) rs)"
| "holds (OrStaticRule rs) s = list_ex (\<lambda>b. b) (map (\<lambda>r. holds r s) rs)"
| "holds (NotStaticRule r) s = (\<not> holds r s)"
| "holds (EqualsRule attr keys) s = list_all (\<lambda>k. s k = s (hd keys)) keys"

text \<open>No rule inside compares an empty list of keys.\<close>

primrec keys_nonempty :: "static_rule \<Rightarrow> bool" where
  "keys_nonempty (CompareLiteralRule attr key c t) = True"
| "keys_nonempty (AndStaticRule rs) = list_all (\<lambda>b. b) (map keys_nonempty rs)"
| "keys_nonempty (OrStaticRule rs) = list_all (\<lambda>b. b) (map keys_nonempty rs)"
| "keys_nonempty (NotStaticRule r) = keys_nonempty r"
| "keys_nonempty (EqualsRule attr keys) = (keys \<noteq> [])"

text \<open>No key occurs in two different nested rules of the same compound rule.\<close>

definition disjoint_keys :: "static_rule list \<Rightarrow> bool" where
  "disjoint_keys rs \<longleftrightarrow> sorted_wrt (\<lambda>a b. set (getKeys a) \<inter> set (getKeys b) = {}) rs"

primrec linear :: "static_rule \<Rightarrow> bool" where
  "linear (CompareLiteralRule attr key c t) = True"
| "linear (AndStaticRule rs) = (disjoint_keys rs \<and> list_all (\<lambda>b. b) (map linear rs))"
| "linear (OrStaticRule rs) = (disjoint_keys rs \<and> list_all (\<lambda>b. b) (map linear rs))"
| "linear (NotStaticRule r) = linear r"
| "linear (EqualsRule attr keys) = (keys \<noteq> [])"

section \<open>Evaluation\<close>

lemma list_ex_id [static_simps]: "list_ex (\<lambda>b. b) (map P xs) \<longleftrightarrow> (\<exists>x \<in> set xs. P x)"
  by (auto simp: list_ex_iff)

lemma list_all_id [static_simps]: "list_all (\<lambda>b. b) (map P xs) \<longleftrightarrow> (\<forall>x \<in> set xs. P x)"
  by (auto simp: list_all_iff)

lemma and_satisfied_map:
  "(\<And>r. r \<in> set rs \<Longrightarrow> f r = Inr (P r)) \<Longrightarrow> and_satisfied (map f rs) = Inr (\<forall>r \<in> set rs. P r)"
  by (induction rs) auto

lemma or_satisfied_map:
  "(\<And>r. r \<in> set rs \<Longrightarrow> f r = Inr (P r)) \<Longrightarrow> or_satisfied (map f rs) = Inr (\<exists>r \<in> set rs. P r)"
  by (induction rs) auto

lemma and_satisfied_Inl: "and_satisfied xs = Inl e \<Longrightarrow> Inl e \<in> set xs"
  by (induction xs) (auto split: sum.splits if_splits)

lemma or_satisfied_Inl: "or_satisfied xs = Inl e \<Longrightarrow> Inl e \<in> set xs"
  by (induction xs) (auto split: sum.splits if_splits)

lemma equals_satisfied_eq:
  "(\<And>k. k \<in> set keys \<Longrightarrow> get k = Inr (s k)) \<Longrightarrow>
     equals_satisfied get ref keys = Inr (\<forall>k \<in> set keys. s k = ref)"
  by (induction keys) (auto split: option.splits)

lemma equals_satisfied_Inl: "equals_satisfied get ref keys = Inl e \<Longrightarrow> \<exists>k \<in> set keys. get k = Inl e"
  by (induction keys) (auto split: sum.splits option.splits if_splits)

lemma satisfied_holds:
  "(\<And>k. k \<in> set (getKeys r) \<Longrightarrow> get k = Inr (s k)) \<Longrightarrow> satisfied r get = Inr (holds r s)"
proof (induction r)
  case (AndStaticRule rs)
  have "satisfied r get = Inr (holds r s)" if "r \<in> set rs" for r
    by (rule AndStaticRule.IH [OF that]) (use AndStaticRule.prems that in auto)
  then show ?case by (simp add: and_satisfied_map static_simps)
next
  case (OrStaticRule rs)
  have "satisfied r get = Inr (holds r s)" if "r \<in> set rs" for r
    by (rule OrStaticRule.IH [OF that]) (use OrStaticRule.prems that in auto)
  then show ?case by (simp add: or_satisfied_map static_simps)
next
  case (EqualsRule attr keys)
  then show ?case
    by (cases keys) (auto simp: equals_satisfied_eq list_all_iff)
qed auto

lemma satisfied_Inl: "satisfied r get = Inl e \<Longrightarrow> \<exists>k \<in> set (getKeys r). get k = Inl e"
proof (induction r)
  case (AndStaticRule rs)
  then show ?case by (fastforce dest!: and_satisfied_Inl)
next
  case (OrStaticRule rs)
  then show ?case by (fastforce dest!: or_satisfied_Inl)
next
  case (EqualsRule attr keys)
  then show ?case
    by (cases keys) (auto dest: equals_satisfied_Inl split: sum.splits)
qed (auto split: sum.splits)

lemma satisfied_cong:
  "(\<And>k. k \<in> set (getKeys r) \<Longrightarrow> get k = get' k) \<Longrightarrow> satisfied r get = satisfied r get'"
proof (induction r)
  case (AndStaticRule rs)
  have "satisfied r get = satisfied r get'" if "r \<in> set rs" for r
    by (rule AndStaticRule.IH [OF that]) (use AndStaticRule.prems that in auto)
  then have "map (\<lambda>r. satisfied r get) rs = map (\<lambda>r. satisfied r get') rs" by simp
  then show ?case by (simp only: satisfied.simps)
next
  case (OrStaticRule rs)
  have "satisfied r get = satisfied r get'" if "r \<in> set rs" for r
    by (rule OrStaticRule.IH [OF that]) (use OrStaticRule.prems that in auto)
  then have "map (\<lambda>r. satisfied r get) rs = map (\<lambda>r. satisfied r get') rs" by simp
  then show ?case by (simp only: satisfied.simps)
next
  case (EqualsRule attr keys)
  moreover have "(\<And>k. k \<in> set ks \<Longrightarrow> get k = get' k) \<Longrightarrow>
      equals_satisfied get ref ks = equals_satisfied get' ref ks" for ref ks
    by (induction ks) (auto split: sum.splits option.splits)
  ultimately show ?case by (cases keys) (auto split: sum.splits)
qed auto

lemma holds_cong: "(\<And>k. k \<in> set (getKeys r) \<Longrightarrow> s k = s' k) \<Longrightarrow> holds r s = holds r s'"
  using satisfied_cong [of r "\<lambda>k. Inr (s k)" "\<lambda>k. Inr (s' k)"]
    satisfied_holds [of r "\<lambda>k. Inr (s k)" s] satisfied_holds [of r "\<lambda>k. Inr (s' k)" s']
  by simp

section \<open>The filters\<close>

lemma q_flags_eq:
  "q_flags qs (t, m, f) = (t \<or> qTrue \<in> set qs, m \<or> qMaybe \<in> set qs, f \<or> qFalse \<in> set qs)"
  by (induction qs arbitrary: t m f) (auto split: quadState.splits)

lemma and_q_eq:
  "and_q qs = (if qFalse \<in> set qs then qFalse else if qTrue \<in> set qs then qTrue
     else if qMaybe \<in> set qs then qMaybe else qNone)"
  by (simp add: and_q_def q_flags_eq)

lemma or_q_eq:
  "or_q qs = (if qTrue \<in> set qs then qTrue else if qMaybe \<in> set qs then qMaybe
     else if qFalse \<in> set qs then qFalse else qNone)"
  by (simp add: or_q_def q_flags_eq)

lemma compound_q_qNone_iff:
  "and_q qs = qNone \<longleftrightarrow> (\<forall>q \<in> set qs. q = qNone)" "or_q qs = qNone \<longleftrightarrow> (\<forall>q \<in> set qs. q = qNone)"
  by (auto simp: and_q_eq or_q_eq split: if_splits) (metis quadState.exhaust)+

lemma compound_q_single:
  "x \<in> set qs \<Longrightarrow> set qs \<subseteq> {x, qNone} \<Longrightarrow> and_q qs = x"
  "x \<in> set qs \<Longrightarrow> set qs \<subseteq> {x, qNone} \<Longrightarrow> or_q qs = x"
  by (cases x; auto simp: and_q_eq or_q_eq)+

lemma qNone_iff_no_keyMatch: "qSatisfiable r key value = qNone \<longleftrightarrow> \<not> keyMatch r key"
proof (induction r)
  case (NotStaticRule r)
  then show ?case by (auto simp: not_q_def split: quadState.splits)
qed (auto simp: compound_q_qNone_iff static_simps)

lemma satisfiable_eq_keyMatch: "satisfiable r key value = keyMatch r key"
  by (induction r) (auto simp: static_simps)

lemma keyMatch_iff_getKeys: "keys_nonempty r \<Longrightarrow> keyMatch r key \<longleftrightarrow> key \<in> set (getKeys r)"
  by (induction r) (auto simp: static_simps list_ex_iff)

lemma linear_keys_nonempty: "linear r \<Longrightarrow> keys_nonempty r"
  by (induction r) (auto simp: static_simps)

lemma getKeys_keyMatch: "key \<in> set (getKeys r) \<Longrightarrow> keyMatch r key"
  by (induction r) (auto simp: static_simps list_ex_iff)

text \<open>
  In a list of rules without shared keys at most one reacts to a key; the compound rule then
  answers what that one answers.
\<close>

lemma disjoint_keys_others:
  assumes "disjoint_keys rs" and "c \<in> set rs" and "key \<in> set (getKeys c)"
    and "\<forall>r \<in> set rs. keys_nonempty r"
  shows "set (map (\<lambda>r. qSatisfiable r key value) rs) \<subseteq> {qSatisfiable c key value, qNone}"
proof -
  have "key \<notin> set (getKeys r) \<or> r = c" if "r \<in> set rs" for r
    using assms(1-3) that unfolding disjoint_keys_def
    by (induction rs) auto
  then show ?thesis
    using assms(4) qNone_iff_no_keyMatch keyMatch_iff_getKeys by fastforce
qed

lemma holds_changed_key:
  assumes "holds r s' \<noteq> holds r s" and "\<And>k. k \<noteq> key \<Longrightarrow> s' k = s k"
  shows "key \<in> set (getKeys r)"
proof (rule ccontr)
  assume "key \<notin> set (getKeys r)"
  then have "holds r s' = holds r s"
    using assms(2) by (intro holds_cong) metis
  with assms(1) show False by simp
qed

lemma compound_child_decides:
  assumes "disjoint_keys rs" and "\<forall>r \<in> set rs. linear r" and "c \<in> set rs" and "key \<in> set (getKeys c)"
  shows "and_q (map (\<lambda>r. qSatisfiable r key value) rs) = qSatisfiable c key value"
    and "or_q (map (\<lambda>r. qSatisfiable r key value) rs) = qSatisfiable c key value"
proof -
  have sub: "set (map (\<lambda>r. qSatisfiable r key value) rs) \<subseteq> {qSatisfiable c key value, qNone}"
    using disjoint_keys_others [OF assms(1,3,4)] assms(2) linear_keys_nonempty by blast
  have mem: "qSatisfiable c key value \<in> set (map (\<lambda>r. qSatisfiable r key value) rs)"
    using assms(3) by auto
  show "and_q (map (\<lambda>r. qSatisfiable r key value) rs) = qSatisfiable c key value"
    by (rule compound_q_single(1) [OF mem sub])
  show "or_q (map (\<lambda>r. qSatisfiable r key value) rs) = qSatisfiable c key value"
    by (rule compound_q_single(2) [OF mem sub])
qed

lemma compound_changed:
  "holds (AndStaticRule rs) s' \<noteq> holds (AndStaticRule rs) s \<Longrightarrow>
     \<exists>c \<in> set rs. holds c s' \<noteq> holds c s \<and> holds c s' = holds (AndStaticRule rs) s'"
  "holds (OrStaticRule rs) s' \<noteq> holds (OrStaticRule rs) s \<Longrightarrow>
     \<exists>c \<in> set rs. holds c s' \<noteq> holds c s \<and> holds c s' = holds (OrStaticRule rs) s'"
  by (simp_all add: static_simps) blast+

lemma linear_filter:
  assumes "linear r" and "holds r s' \<noteq> holds r s"
    and agree: "\<And>k. k \<noteq> key \<Longrightarrow> s' k = s k" and "s' key = value"
  shows "qSatisfiable r key value \<in> {if holds r s' then qTrue else qFalse, qMaybe}"
  using assms(1,2)
proof (induction r)
  case (CompareLiteralRule attr k c t)
  then show ?case
    using agree [of k] assms(4) by (cases "k = key") auto
next
  case (AndStaticRule rs)
  obtain c where c: "c \<in> set rs" "holds c s' \<noteq> holds c s"
    "holds c s' = holds (AndStaticRule rs) s'"
    using compound_changed(1) [OF AndStaticRule.prems(2)] by blast
  note key = holds_changed_key [OF c(2) agree]
  show ?case
    using AndStaticRule.IH [OF c(1) _ c(2)] AndStaticRule.prems(1) c
      compound_child_decides(1) [OF _ _ c(1) key]
    by (simp add: list_all_id)
next
  case (OrStaticRule rs)
  obtain c where c: "c \<in> set rs" "holds c s' \<noteq> holds c s"
    "holds c s' = holds (OrStaticRule rs) s'"
    using compound_changed(2) [OF OrStaticRule.prems(2)] by blast
  note key = holds_changed_key [OF c(2) agree]
  show ?case
    using OrStaticRule.IH [OF c(1) _ c(2)] OrStaticRule.prems(1) c
      compound_child_decides(2) [OF _ _ c(1) key]
    by (simp add: list_all_id)
next
  case (NotStaticRule r)
  then show ?case by (auto simp: not_q_def split: if_splits)
next
  case (EqualsRule attr keys)
  then have "key \<in> set keys"
    using holds_changed_key [of "EqualsRule attr keys" s' s key] agree by simp
  then show ?case by (auto simp: list_ex_iff)
qed

text \<open>Conjunctions of leaf rules and negated leaf rules.\<close>

fun leaf_rule :: "static_rule \<Rightarrow> bool" where
  "leaf_rule (CompareLiteralRule attr key c t) = True"
| "leaf_rule (EqualsRule attr keys) = True"
| "leaf_rule r = False"

primrec conjunctive :: "static_rule \<Rightarrow> bool" where
  "conjunctive (CompareLiteralRule attr key c t) = True"
| "conjunctive (AndStaticRule rs) = list_all (\<lambda>b. b) (map conjunctive rs)"
| "conjunctive (OrStaticRule rs) = False"
| "conjunctive (NotStaticRule r) = leaf_rule r"
| "conjunctive (EqualsRule attr keys) = True"

lemma conjunctive_qFalse:
  "conjunctive r \<Longrightarrow> qSatisfiable r key (s key) = qFalse \<Longrightarrow> \<not> holds r s"
proof (induction r)
  case (AndStaticRule rs)
  from AndStaticRule.prems(2) have "qFalse \<in> set (map (\<lambda>r. qSatisfiable r key (s key)) rs)"
    by (simp add: and_q_eq split: if_splits)
  then obtain r where r: "r \<in> set rs" "qSatisfiable r key (s key) = qFalse" by auto
  then have "\<not> holds r s"
    using AndStaticRule.IH [OF r(1) _ r(2)] AndStaticRule.prems(1) by (simp add: list_all_id)
  with r(1) show ?case by (auto simp: list_all_id)
next
  case (NotStaticRule r)
  show ?case
    using NotStaticRule.prems by (cases r) (auto simp: not_q_def split: if_splits)
qed (auto split: if_splits)

lemma satisfied_Inr:
  assumes "satisfied r get = Inr b" and "\<And>k v. get k = Inr v \<Longrightarrow> s k = v"
  shows "b = holds r s"
  using assms(1)
proof (induction r arbitrary: b)
  case (AndStaticRule rs)
  then show ?case
  proof (induction rs)
    case (Cons r rs)
    then show ?case by (auto split: sum.splits if_splits)
  qed simp
next
  case (OrStaticRule rs)
  then show ?case
  proof (induction rs)
    case (Cons r rs)
    then show ?case by (auto split: sum.splits if_splits)
  qed simp
next
  case (EqualsRule attr keys)
  have loop: "equals_satisfied get ref ks = Inr b \<Longrightarrow> b \<longleftrightarrow> (\<forall>k \<in> set ks. s k = ref)" for ref ks
    by (induction ks) (auto dest: assms(2) split: sum.splits option.splits if_splits)
  show ?case
    using EqualsRule loop by (cases keys) (auto simp: list_all_iff dest: assms(2) split: sum.splits)
qed (auto dest: assms(2) split: sum.splits)

section \<open>The read API interface\<close>

text \<open>
  What evaluation relies on: a cached API, asked for a list of keys, answers those keys as the API
  it was made from does.
\<close>

locale read_api =
  fixes get :: "'api \<Rightarrow> read_get"
    and getCachedAPI :: "'api \<Rightarrow> string list \<Rightarrow> string + 'cache"
    and cached_get :: "'cache \<Rightarrow> read_get"
  assumes cached_get: "getCachedAPI api keys = Inr c \<Longrightarrow> k \<in> set keys \<Longrightarrow> cached_get c k = get api k"
begin

lemma satisfied_cached:
  assumes "getCachedAPI api keys = Inr c" and "set (getKeys r) \<subseteq> set keys"
  shows "satisfied r (cached_get c) = satisfied r (get api)"
  using assms cached_get by (intro satisfied_cong) blast

lemma satisfied_batch:
  assumes "getCachedAPI api (concat (map getKeys rs)) = Inr c" and "r \<in> set rs"
  shows "satisfied r (cached_get c) = satisfied r (get api)"
  using assms by (intro satisfied_cached) auto

end

interpretation mapReadAPI: read_api mapReadAPI_get mapReadAPI_getCachedAPI mapReadAPI_get
  by unfold_locales (simp add: mapReadAPI_getCachedAPI_def)

interpretation cacheReadAPI: read_api cacheReadAPI_get cacheReadAPI_getCachedAPI cacheReadAPI_get
  by unfold_locales (simp add: cacheReadAPI_getCachedAPI_def)

section \<open>Properties\<close>

text \<open>
  C20. Evaluation is correct: if \<open>satisfied\<close> fails, one of the rule's keys failed with that
  error; if it returns a truth value, that is the boolean meaning of the rule in every store that
  agrees with the answers of the API, also where the evaluation stopped before reading all keys.
\<close>

theorem satisfied_correct:
  "(\<forall>e. satisfied r get = Inl e \<longrightarrow> (\<exists>k \<in> set (getKeys r). get k = Inl e)) \<and>
   (\<forall>b s. satisfied r get = Inr b \<longrightarrow> (\<forall>k v. get k = Inr v \<longrightarrow> s k = v) \<longrightarrow> b = holds r s)"
  using satisfied_Inl satisfied_Inr by blast

theorem satisfied_correct_witness:
  "satisfied (OrStaticRule [EqualsRule (MapAttributes []) [''/a'', ''/b''],
       NotStaticRule (CompareLiteralRule (MapAttributes []) ''/e'' (newEqualsComparator None) ''%s'')])
     (mapReadAPI_get [(''/a'', ''1''), (''/b'', ''2''), (''/e'', ''<ERROR>'')]) = Inl ''Error'' \<and>
   (\<exists>k \<in> set [''/a'', ''/b'', ''/e''].
     mapReadAPI_get [(''/a'', ''1''), (''/b'', ''2''), (''/e'', ''<ERROR>'')] k = Inl ''Error'')"
proof -
  let ?r = "OrStaticRule [EqualsRule (MapAttributes []) [''/a'', ''/b''],
     NotStaticRule (CompareLiteralRule (MapAttributes []) ''/e'' (newEqualsComparator None) ''%s'')]"
  let ?get = "mapReadAPI_get [(''/a'', ''1''), (''/b'', ''2''), (''/e'', ''<ERROR>'')]"
  have e: "satisfied ?r ?get = Inl ''Error''" by code_simp
  moreover have "getKeys ?r = [''/a'', ''/b'', ''/e'']" by simp
  ultimately show ?thesis
    using satisfied_correct [of ?r ?get] by metis
qed

text \<open>
  The two filters agree on which rules a key touches at all: the enhanced filter answers
  \<open>qNone\<close> exactly when the basic filter rejects the key.
\<close>

theorem filters_agree_on_untouched_rules:
  "qSatisfiable r key value = qNone \<longleftrightarrow> \<not> satisfiable r key value"
  by (simp add: qNone_iff_no_keyMatch satisfiable_eq_keyMatch)

text \<open>
  C36. For a rule in which no two nested rules share a key, the enhanced filter misses no trigger:
  when a change of one key turns the rule from unsatisfied to satisfied, \<open>qSatisfiable\<close> answers
  \<open>qTrue\<close> or \<open>qMaybe\<close> for that key and its new value.
\<close>

theorem enhanced_filter_sees_trigger:
  assumes "linear r" and "satisfied r (\<lambda>k. Inr (s k)) = Inr False"
    and "satisfied r (\<lambda>k. Inr ((s(key := value)) k)) = Inr True"
  shows "qSatisfiable r key value = qTrue \<or> qSatisfiable r key value = qMaybe"
proof -
  have "\<not> holds r s" "holds r (s(key := value))"
    using assms(2,3) satisfied_holds [of r "\<lambda>k. Inr (s k)" s]
      satisfied_holds [of r "\<lambda>k. Inr ((s(key := value)) k)" "s(key := value)"] by auto
  then show ?thesis
    using linear_filter [OF assms(1), of "s(key := value)" s key] by auto
qed

theorem enhanced_filter_sees_trigger_witness:
  "qSatisfiable (AndStaticRule [CompareLiteralRule (MapAttributes []) ''/a'' (newEqualsComparator (Some ''1'')) [],
       EqualsRule (MapAttributes []) [''/b'', ''/c'']]) ''/c'' (Some ''2'') \<in> {qTrue, qMaybe}"
proof -
  let ?r = "AndStaticRule [CompareLiteralRule (MapAttributes []) ''/a'' (newEqualsComparator (Some ''1'')) [],
     EqualsRule (MapAttributes []) [''/b'', ''/c'']]"
  let ?s = "map_of [(''/a'', ''1''), (''/b'', ''2'')]"
  have lin: "linear ?r" by (simp add: disjoint_keys_def)
  have before: "satisfied ?r (\<lambda>k. Inr (?s k)) = Inr False"
    by (simp add: newEqualsComparator_def)
  have after: "satisfied ?r (\<lambda>k. Inr ((?s(''/c'' := Some ''2'')) k)) = Inr True"
    by (simp add: newEqualsComparator_def)
  show ?thesis using enhanced_filter_sees_trigger [OF lin before after] by blast
qed

text \<open>
  For a conjunction of leaf rules and negated leaf rules, whether or not they share keys, the
  enhanced filter selects the rule for every one of its keys as long as the rule is satisfied, so
  neither a watcher nor the crawler loses it.
\<close>

theorem enhanced_filter_keeps_satisfied_conjunction:
  assumes "conjunctive r" and "satisfied r (\<lambda>k. Inr (s k)) = Inr True" and "key \<in> set (getKeys r)"
  shows "qSatisfiable r key (s key) = qTrue \<or> qSatisfiable r key (s key) = qMaybe"
proof -
  have "holds r s"
    using assms(2) satisfied_holds [of r "\<lambda>k. Inr (s k)" s] by simp
  then have "qSatisfiable r key (s key) \<noteq> qFalse"
    using conjunctive_qFalse [OF assms(1)] by blast
  moreover have "qSatisfiable r key (s key) \<noteq> qNone"
    using getKeys_keyMatch [OF assms(3)] by (simp add: qNone_iff_no_keyMatch)
  ultimately show ?thesis by (cases "qSatisfiable r key (s key)") auto
qed

theorem enhanced_filter_keeps_satisfied_conjunction_witness:
  "qSatisfiable (AndStaticRule [CompareLiteralRule (MapAttributes []) ''/a'' (newEqualsComparator (Some ''1'')) [],
       NotStaticRule (CompareLiteralRule (MapAttributes []) ''/a'' (newEqualsComparator None) [])])
     ''/a'' (Some ''1'') \<in> {qTrue, qMaybe}"
proof -
  let ?r = "AndStaticRule [CompareLiteralRule (MapAttributes []) ''/a'' (newEqualsComparator (Some ''1'')) [],
     NotStaticRule (CompareLiteralRule (MapAttributes []) ''/a'' (newEqualsComparator None) [])]"
  let ?s = "[''/a'' \<mapsto> ''1'']"
  have "conjunctive ?r" "satisfied ?r (\<lambda>k. Inr (?s k)) = Inr True" "''/a'' \<in> set (getKeys ?r)"
    by (simp_all add: newEqualsComparator_def)
  then show ?thesis
    using enhanced_filter_keeps_satisfied_conjunction [of ?r ?s "''/a''"] by simp
qed

text \<open>
  Outside those classes the enhanced filter does lose rules. In the store
  \<open>{/k: b}\<close> the rule \<open>/k = b AND (/k = a OR /j = nil)\<close> is satisfied and the basic filter
  selects it, but the enhanced filter answers \<open>qFalse\<close> for \<open>/k\<close>, the only key the store
  holds: a nested OR that the key does not help is taken for a reason why the AND cannot hold.
\<close>

theorem enhanced_filter_loses_satisfied_rule:
  "let r = AndStaticRule
         [CompareLiteralRule (MapAttributes []) ''/k'' (newEqualsComparator (Some ''b'')) ''%s'',
          OrStaticRule
            [CompareLiteralRule (MapAttributes []) ''/k'' (newEqualsComparator (Some ''a'')) ''%s'',
             CompareLiteralRule (MapAttributes []) ''/j'' (newEqualsComparator None) ''%s'']]
   in satisfied r (cacheReadAPI_get [(''/k'', ''b'')]) = Inr True \<and>
      satisfiable r ''/k'' (Some ''b'') \<and> qSatisfiable r ''/k'' (Some ''b'') = qFalse"
  by code_simp

end
