(* ===== verification/DynamicRule.thy ===== *)
theory DynamicRule
  imports StaticRule
begin

text \<open>
  \<open>rules/dynamic_rule.go\<close> without rule expansion (theory \<open>Expansion\<close>): rules over key
  patterns, the constructors, the static rules they make for a key or for given attributes, the
  leaf representations and the analysis of which leaves a rule cannot do without.
\<close>

named_theorems dyn_simps "equations of dynamic rule operations on well-formed rules"

section \<open>Definitions\<close>

record dynamicRule =
  dr_factory :: ruleFactory
  dr_matchers :: "regexKeyMatcher list"
  dr_patterns :: "string list"
  dr_prefixes :: "string list"
  dr_attributes :: "attributeInstance list"
  dr_rep :: string

text \<open>
  The implementers of \<open>DynamicRule\<close>. The compound ones carry the patterns and prefixes that
  \<open>newCompoundDynamicRule\<close> computed. A \<open>notDynamicRule\<close> has exactly one nested rule
  (\<open>NewNotRule\<close>, and \<open>newNotRule\<close> as \<open>expand\<close> calls it).
\<close>

datatype dynamic_rule =
    Leaf dynamicRule
  | AndDynamicRule "dynamic_rule list" "string list" "string list"
  | OrDynamicRule "dynamic_rule list" "string list" "string list"
  | NotDynamicRule dynamic_rule "string list" "string list"

subsection \<open>Constructors\<close>

primrec new_matchers :: "string list \<Rightarrow> rule_error + regexKeyMatcher list" where
  "new_matchers [] = Inr []"
| "new_matchers (v # vs) =
     (case newRegexKeyMatcher v of
        Inl err \<Rightarrow> Inl err
      | Inr matcher \<Rightarrow>
          (case new_matchers vs of Inl err \<Rightarrow> Inl err | Inr ms \<Rightarrow> Inr (matcher # ms)))"

definition newDynamicRule ::
  "ruleFactory \<Rightarrow> string list \<Rightarrow> string \<Rightarrow> attributeInstance list \<Rightarrow> rule_error + dynamicRule" where
  "newDynamicRule factory ps rep as =
     (case new_matchers ps of
        Inl err \<Rightarrow> Inl err
      | Inr matchers \<Rightarrow>
          Inr \<lparr>dr_factory = factory, dr_matchers = matchers, dr_patterns = ps,
               dr_prefixes = map getPrefix matchers, dr_attributes = as, dr_rep = rep\<rparr>)"

definition NewCompareLiteralRule ::
  "string \<Rightarrow> comparator option \<Rightarrow> string \<Rightarrow> rule_error + dynamic_rule" where
  "NewCompareLiteralRule p comparator renderTemplate =
     (case comparator of
        None \<Rightarrow> Inl ComparatorNil
      | Some c \<Rightarrow>
          (case fmt_Sprintf renderTemplate p of
             None \<Rightarrow> Inl TemplateNotModelled
           | Some rep \<Rightarrow>
               map_sum (\<lambda>e. e) Leaf
                 (newDynamicRule (CompareLiteralRuleFactory c renderTemplate) [p] rep [])))"

definition NewEqualsLiteralRule :: "string \<Rightarrow> string option \<Rightarrow> rule_error + dynamic_rule" where
  "NewEqualsLiteralRule p value =
     (let valString = (case value of None \<Rightarrow> ''<nil>'' | Some v \<Rightarrow> [CHR 0x22] @ v @ [CHR 0x22])
      in NewCompareLiteralRule p (Some (newEqualsComparator value)) (''%s = '' @ valString))"

definition NewEqualsRule :: "string list \<Rightarrow> rule_error + dynamic_rule" where
  "NewEqualsRule ps = map_sum (\<lambda>e. e) Leaf (newDynamicRule EqualsRuleFactory ps (strings_Join ps '' = '') [])"

definition removeDuplicates :: "string range_order \<Rightarrow> string list \<Rightarrow> string list" where
  "removeDuplicates ord xs =
     range_in ord (gm_keys (fold (\<lambda>x unique. gm_put unique x True) xs []))"

primrec getPatterns :: "dynamic_rule \<Rightarrow> string list" where
  "getPatterns (Leaf krp) = dr_patterns krp"
| "getPatterns (AndDynamicRule rs ps fs) = ps"
| "getPatterns (OrDynamicRule rs ps fs) = ps"
| "getPatterns (NotDynamicRule r ps fs) = getPatterns r"

primrec getPrefixes :: "dynamic_rule \<Rightarrow> string list" where
  "getPrefixes (Leaf krp) = dr_prefixes krp"
| "getPrefixes (AndDynamicRule rs ps fs) = fs"
| "getPrefixes (OrDynamicRule rs ps fs) = fs"
| "getPrefixes (NotDynamicRule r ps fs) = getPrefixes r"

text \<open>\<open>newCompoundDynamicRule\<close>: the patterns and prefixes of the nested rules, without
  duplicates.\<close>

definition newCompoundDynamicRule ::
  "string range_order \<Rightarrow> dynamic_rule list \<Rightarrow> string list \<times> string list" where
  "newCompoundDynamicRule ord rules =
     (removeDuplicates ord (concat (map getPatterns rules)),
      removeDuplicates ord (concat (map getPrefixes rules)))"

definition NewAndRule :: "string range_order \<Rightarrow> dynamic_rule list \<Rightarrow> dynamic_rule" where
  "NewAndRule ord rules = (case newCompoundDynamicRule ord rules of (ps, fs) \<Rightarrow> AndDynamicRule rules ps fs)"

definition NewOrRule :: "string range_order \<Rightarrow> dynamic_rule list \<Rightarrow> dynamic_rule" where
  "NewOrRule ord rules = (case newCompoundDynamicRule ord rules of (ps, fs) \<Rightarrow> OrDynamicRule rules ps fs)"

definition NewNotRule :: "string range_order \<Rightarrow> dynamic_rule \<Rightarrow> dynamic_rule" where
  "NewNotRule ord r = (case newCompoundDynamicRule ord [r] of (ps, fs) \<Rightarrow> NotDynamicRule r ps fs)"

subsection \<open>Static rules\<close>

primrec first_match :: "regexKeyMatcher list \<Rightarrow> string \<Rightarrow> attributes option" where
  "first_match [] key = None"
| "first_match (matcher # ms) key =
     (case match matcher key of Some m \<Rightarrow> Some m | None \<Rightarrow> first_match ms key)"

definition leaf_makeStaticRule ::
  "dynamicRule \<Rightarrow> string \<Rightarrow> (static_rule \<times> attributes) option go" where
  "leaf_makeStaticRule krp key =
     (case first_match (dr_matchers krp) key of
        None \<Rightarrow> Ret None
      | Some m \<Rightarrow>
          go_bind (go_collect (map (\<lambda>matcher. FormatWithAttributes (rkm_pattern matcher) m) (dr_matchers krp)))
            (\<lambda>keys.
              let attr = NestingAttributes m (dr_attributes krp)
              in go_bind (newRule (dr_factory krp) keys attr) (\<lambda>sr. Ret (Some (sr, attr)))))"

text \<open>The loop of \<open>staticRuleFromAttributes\<close> that formats the keys of a leaf rule.\<close>

primrec format_keys :: "regexKeyMatcher list \<Rightarrow> attributes \<Rightarrow> string list option go" where
  "format_keys [] attr = Ret (Some [])"
| "format_keys (matcher # ms) attr =
     go_bind (formatPath (rkm_pattern matcher) (FindAttribute attr))
       (\<lambda>(key, ok). if \<not> ok then Ret None
          else go_bind (format_keys ms attr) (\<lambda>r. Ret (map_option ((#) key) r)))"

definition leaf_staticRuleFromAttributes :: "dynamicRule \<Rightarrow> attributes \<Rightarrow> static_rule option go" where
  "leaf_staticRuleFromAttributes krp attr =
     go_bind (format_keys (dr_matchers krp) attr)
       (\<lambda>r. case r of
            None \<Rightarrow> Ret None
          | Some keys \<Rightarrow> go_bind (newRule (dr_factory krp) keys attr) (\<lambda>sr. Ret (Some sr)))"

text \<open>The loop of the compound \<open>staticRuleFromAttributes\<close> over the results of its nested rules.\<close>

primrec collect_static :: "static_rule option go list \<Rightarrow> static_rule list option go" where
  "collect_static [] = Ret (Some [])"
| "collect_static (m # ms) =
     go_bind m
       (\<lambda>r. case r of
            None \<Rightarrow> Ret None
          | Some rule \<Rightarrow> go_bind (collect_static ms) (\<lambda>rs. Ret (map_option ((#) rule) rs)))"

primrec staticRuleFromAttributes :: "dynamic_rule \<Rightarrow> attributes \<Rightarrow> static_rule option go" where
  "staticRuleFromAttributes (Leaf krp) attr = leaf_staticRuleFromAttributes krp attr"
| "staticRuleFromAttributes (AndDynamicRule rs ps fs) attr =
     go_bind (collect_static (map (\<lambda>r. staticRuleFromAttributes r attr) rs))
       (\<lambda>cdr. Ret (map_option AndStaticRule cdr))"
| "staticRuleFromAttributes (OrDynamicRule rs ps fs) attr =
     go_bind (collect_static (map (\<lambda>r. staticRuleFromAttributes r attr) rs))
       (\<lambda>cdr. Ret (map_option OrStaticRule cdr))"
| "staticRuleFromAttributes (NotDynamicRule r ps fs) attr =
     go_bind (staticRuleFromAttributes r attr) (\<lambda>nested. Ret (map_option NotStaticRule nested))"

text \<open>
  The loop of the compound \<open>makeStaticRule\<close>: the attributes of the first nested rule that can
  be made for the key and is satisfiable with it. The list holds the outcomes of the nested
  calls; an outcome behind the break is not looked at.
\<close>

primrec satisfiable_attributes ::
  "(static_rule \<times> attributes) option go list \<Rightarrow> string \<Rightarrow> string option \<Rightarrow> attributes option go" where
  "satisfiable_attributes [] key value = Ret None"
| "satisfiable_attributes (m # ms) key value =
     go_bind m
       (\<lambda>r. case r of
            None \<Rightarrow> satisfiable_attributes ms key value
          | Some (rule, attr) \<Rightarrow>
              if satisfiable rule key value then Ret (Some attr)
              else satisfiable_attributes ms key value)"

definition compound_makeStaticRule ::
  "(static_rule list \<Rightarrow> static_rule) \<Rightarrow> dynamic_rule list \<Rightarrow>
   (static_rule \<times> attributes) option go list \<Rightarrow> string \<Rightarrow> string option \<Rightarrow>
   (static_rule \<times> attributes) option go" where
  "compound_makeStaticRule constructor rules made key value =
     go_bind (satisfiable_attributes made key value)
       (\<lambda>r. case r of
            None \<Rightarrow> Ret None
          | Some validAttr \<Rightarrow>
              go_bind (collect_static (map (\<lambda>rule. staticRuleFromAttributes rule validAttr) rules))
                (\<lambda>cdr. case cdr of
                     None \<Rightarrow> Ret None
                   | Some rs \<Rightarrow> Ret (Some (constructor rs, validAttr))))"

primrec makeStaticRule ::
  "dynamic_rule \<Rightarrow> string \<Rightarrow> string option \<Rightarrow> (static_rule \<times> attributes) option go" where
  "makeStaticRule (Leaf krp) key value = leaf_makeStaticRule krp key"
| "makeStaticRule (AndDynamicRule rs ps fs) key value =
     compound_makeStaticRule AndStaticRule rs (map (\<lambda>r. makeStaticRule r key value) rs) key value"
| "makeStaticRule (OrDynamicRule rs ps fs) key value =
     compound_makeStaticRule OrStaticRule rs (map (\<lambda>r. makeStaticRule r key value) rs) key value"
| "makeStaticRule (NotDynamicRule r ps fs) key value =
     go_bind (makeStaticRule r key value)
       (\<lambda>m. case m of None \<Rightarrow> Ret None | Some (ns, attr) \<Rightarrow> Ret (Some (NotStaticRule ns, attr)))"

text \<open>\<open>RuleSatisfied\<close>: the error is \<open>Inl\<close>.\<close>

definition RuleSatisfied ::
  "dynamic_rule \<Rightarrow> string \<Rightarrow> string option \<Rightarrow> (string, string) gomap \<Rightarrow> (string + bool) go" where
  "RuleSatisfied rule triggerKey triggerValue kvs =
     go_bind (makeStaticRule rule triggerKey triggerValue)
       (\<lambda>m. case m of
            None \<Rightarrow> Ret (Inl ''Rule could not be triggered'')
          | Some (sRule, _) \<Rightarrow> Ret (satisfied sRule (mapReadAPI_get kvs)))"

subsection \<open>Prefixes with constraints, text\<close>

definition leaf_getPrefixesWithConstraints ::
  "dynamicRule \<Rightarrow> (string, constraint) gomap \<Rightarrow> string list go" where
  "leaf_getPrefixesWithConstraints krp constraints =
     go_bind (go_collect (map (\<lambda>km. getPrefixesWithConstraints km constraints) (dr_matchers krp)))
       (\<lambda>pss. Ret (concat pss))"

primrec rule_getPrefixesWithConstraints ::
  "dynamic_rule \<Rightarrow> (string, constraint) gomap \<Rightarrow> string list go" where
  "rule_getPrefixesWithConstraints (Leaf krp) constraints = leaf_getPrefixesWithConstraints krp constraints"
| "rule_getPrefixesWithConstraints (AndDynamicRule rs ps fs) constraints =
     go_bind (go_collect (map (\<lambda>r. rule_getPrefixesWithConstraints r constraints) rs)) (\<lambda>pss. Ret (concat pss))"
| "rule_getPrefixesWithConstraints (OrDynamicRule rs ps fs) constraints =
     go_bind (go_collect (map (\<lambda>r. rule_getPrefixesWithConstraints r constraints) rs)) (\<lambda>pss. Ret (concat pss))"
| "rule_getPrefixesWithConstraints (NotDynamicRule r ps fs) constraints =
     go_bind (rule_getPrefixesWithConstraints r constraints) (\<lambda>ps. Ret ([] @ ps))"

definition delimitedString :: "string \<Rightarrow> string list \<Rightarrow> string" where
  "delimitedString del ss =
     ''('' @ concat (map (\<lambda>(idx, s). (if 0 < idx then '' '' @ del @ '' '' else []) @ s)
       (enumerate 0 ss)) @ '')''"

primrec rule_String :: "dynamic_rule \<Rightarrow> string" where
  "rule_String (Leaf krp) = dr_rep krp"
| "rule_String (AndDynamicRule rs ps fs) = delimitedString ''AND'' (map rule_String rs)"
| "rule_String (OrDynamicRule rs ps fs) = delimitedString ''OR'' (map rule_String rs)"
| "rule_String (NotDynamicRule r ps fs) = ''NOT ('' @ rule_String r @ '')''"

subsection \<open>Leaf representations\<close>

primrec evaluate :: "dynamic_rule \<Rightarrow> (string, bool) gomap \<Rightarrow> bool" where
  "evaluate (Leaf krp) values = (case gm_get values (dr_rep krp) of Some b \<Rightarrow> b | None \<Rightarrow> False)"
| "evaluate (AndDynamicRule rs ps fs) values =
     fold (\<lambda>e result. result \<and> e) (map (\<lambda>r. evaluate r values) rs) True"
| "evaluate (OrDynamicRule rs ps fs) values =
     fold (\<lambda>e result. result \<or> e) (map (\<lambda>r. evaluate r values) rs) False"
| "evaluate (NotDynamicRule r ps fs) values = (\<not> evaluate r values)"

definition compound_leafReps :: "string range_order \<Rightarrow> string list list \<Rightarrow> string list" where
  "compound_leafReps ord nested =
     range_in ord (gm_keys (fold (\<lambda>rep reps. gm_put reps rep True) (concat nested) []))"

primrec getLeafRepresentations :: "string range_order \<Rightarrow> dynamic_rule \<Rightarrow> string list" where
  "getLeafRepresentations ord (Leaf krp) = [dr_rep krp]"
| "getLeafRepresentations ord (AndDynamicRule rs ps fs) =
     compound_leafReps ord (map (getLeafRepresentations ord) rs)"
| "getLeafRepresentations ord (OrDynamicRule rs ps fs) =
     compound_leafReps ord (map (getLeafRepresentations ord) rs)"
| "getLeafRepresentations ord (NotDynamicRule r ps fs) =
     compound_leafReps ord [getLeafRepresentations ord r]"

text \<open>The nested loops of the compound \<open>getLeafRepresentationPatternMap\<close>.\<close>

definition merge_patterns ::
  "string range_order \<Rightarrow> (string, string list) gomap \<Rightarrow> (string, string list) gomap \<Rightarrow>
   (string, string list) gomap" where
  "merge_patterns ord m out =
     fold (\<lambda>k out.
        gm_put out k ((case gm_get out k of Some ps \<Rightarrow> ps | None \<Rightarrow> []) @
          (case gm_get m k of Some v \<Rightarrow> v | None \<Rightarrow> [])))
       (range_in ord (gm_keys m)) out"

definition compound_patternMap ::
  "string range_order \<Rightarrow> (string, string list) gomap list \<Rightarrow> (string, string list) gomap" where
  "compound_patternMap ord nested =
     (let out = fold (merge_patterns ord) nested []
      in fold (\<lambda>k out. gm_put out k
           (removeDuplicates ord (case gm_get out k of Some v \<Rightarrow> v | None \<Rightarrow> [])))
         (range_in ord (gm_keys out)) out)"

primrec getLeafRepresentationPatternMap ::
  "string range_order \<Rightarrow> dynamic_rule \<Rightarrow> (string, string list) gomap" where
  "getLeafRepresentationPatternMap ord (Leaf krp) = [(dr_rep krp, dr_patterns krp)]"
| "getLeafRepresentationPatternMap ord (AndDynamicRule rs ps fs) =
     compound_patternMap ord (map (getLeafRepresentationPatternMap ord) rs)"
| "getLeafRepresentationPatternMap ord (OrDynamicRule rs ps fs) =
     compound_patternMap ord (map (getLeafRepresentationPatternMap ord) rs)"
| "getLeafRepresentationPatternMap ord (NotDynamicRule r ps fs) =
     compound_patternMap ord [getLeafRepresentationPatternMap ord r]"

text \<open>
  \<open>processBooleanMap\<close> calls \<open>proc\<close>, which mutates the caller's variables: here it maps a
  state to a state.
\<close>

fun processBooleanMap ::
  "string list \<Rightarrow> (string, bool) gomap \<Rightarrow> bool \<Rightarrow> ((string, bool) gomap \<Rightarrow> 's \<Rightarrow> 's) \<Rightarrow> 's \<Rightarrow> 's" where
  "processBooleanMap [] parent value proc st = st"
| "processBooleanMap [k] parent value proc st = proc (gm_put parent k value) st"
| "processBooleanMap (k # k' # ks) parent value proc st =
     fold (\<lambda>val st. processBooleanMap (k' # ks) (gm_put parent k value) val proc st) [False, True] st"

definition getEssentialRepresentations :: "string range_order \<Rightarrow> dynamic_rule \<Rightarrow> string list" where
  "getEssentialRepresentations ord rule =
     (let reps = getLeafRepresentations ord rule;
          mustAlwaysBeTrue = fold (\<lambda>rep m. gm_put m rep True) reps [];
          proc = (\<lambda>values m.
            if evaluate rule values
            then fold (\<lambda>rep m. if gm_get values rep \<noteq> Some True then gm_put m rep False else m) reps m
            else m);
          final = fold (\<lambda>val m. processBooleanMap reps [] val proc m) [False, True] mustAlwaysBeTrue
      in filter (\<lambda>rep. gm_get final rep = Some True) reps)"

definition getCrawlerPatterns :: "string range_order \<Rightarrow> dynamic_rule \<Rightarrow> string list" where
  "getCrawlerPatterns ord rule =
     (let ps = fold (\<lambda>p m. gm_put m p True) (getPatterns rule) [];
          eReps = getEssentialRepresentations ord rule;
          mappings = getLeafRepresentationPatternMap ord rule;
          ps' = fold (\<lambda>rep ps.
                  if strings_HasSuffix rep ''<nil>''
                  then fold (\<lambda>p ps. gm_delete ps p)
                         (case gm_get mappings rep of Some v \<Rightarrow> v | None \<Rightarrow> []) ps
                  else ps) eReps ps
      in range_in ord (gm_keys ps'))"

section \<open>Vocabulary of the proofs\<close>

text \<open>Rules as the constructors make them.\<close>

definition wf_leaf :: "dynamicRule \<Rightarrow> bool" where
  "wf_leaf krp \<longleftrightarrow>
     new_matchers (dr_patterns krp) = Inr (dr_matchers krp) \<and>
     dr_prefixes krp = map getPrefix (dr_matchers krp) \<and>
     (dr_factory krp = EqualsRuleFactory \<or> length (dr_patterns krp) = 1)"

primrec leaves :: "dynamic_rule \<Rightarrow> dynamicRule list" where
  "leaves (Leaf krp) = [krp]"
| "leaves (AndDynamicRule rs ps fs) = concat (map leaves rs)"
| "leaves (OrDynamicRule rs ps fs) = concat (map leaves rs)"
| "leaves (NotDynamicRule r ps fs) = leaves r"

primrec wf_rule :: "dynamic_rule \<Rightarrow> bool" where
  "wf_rule (Leaf krp) = wf_leaf krp"
| "wf_rule (AndDynamicRule rs ps fs) =
     (list_all (\<lambda>b. b) (map wf_rule rs) \<and>
      set ps = set (concat (map getPatterns rs)) \<and> set fs = set (concat (map getPrefixes rs)))"
| "wf_rule (OrDynamicRule rs ps fs) =
     (list_all (\<lambda>b. b) (map wf_rule rs) \<and>
      set ps = set (concat (map getPatterns rs)) \<and> set fs = set (concat (map getPrefixes rs)))"
| "wf_rule (NotDynamicRule r ps fs) = wf_rule r"

definition leaf_params :: "dynamicRule \<Rightarrow> string set" where
  "leaf_params krp = (\<Union>p \<in> set (dr_patterns krp). set (params p))"

definition rule_params :: "dynamic_rule \<Rightarrow> string set" where
  "rule_params r = (\<Union>krp \<in> set (leaves r). leaf_params krp)"

text \<open>The static rule a dynamic rule stands for under given attributes.\<close>

definition leaf_inst :: "(string \<Rightarrow> string option) \<Rightarrow> attributes \<Rightarrow> dynamicRule \<Rightarrow> static_rule" where
  "leaf_inst f attr krp =
     (case dr_factory krp of
        CompareLiteralRuleFactory c t \<Rightarrow> CompareLiteralRule attr (path_format f (hd (dr_patterns krp))) c t
      | EqualsRuleFactory \<Rightarrow> EqualsRule attr (map (path_format f) (dr_patterns krp)))"

primrec inst :: "attributes \<Rightarrow> dynamic_rule \<Rightarrow> static_rule" where
  "inst attr (Leaf krp) = leaf_inst (attr_lookup attr) attr krp"
| "inst attr (AndDynamicRule rs ps fs) = AndStaticRule (map (inst attr) rs)"
| "inst attr (OrDynamicRule rs ps fs) = OrStaticRule (map (inst attr) rs)"
| "inst attr (NotDynamicRule r ps fs) = NotStaticRule (inst attr r)"

definition binds :: "attributes \<Rightarrow> string set \<Rightarrow> bool" where
  "binds attr ns \<longleftrightarrow> (\<forall>n \<in> ns. attr_lookup attr n \<noteq> None)"

section \<open>Constructors\<close>

lemma new_matchers_Inr:
  "new_matchers ps = Inr ms \<Longrightarrow> list_all2 (\<lambda>p m. newRegexKeyMatcher p = Inr m) ps ms"
  by (induction ps arbitrary: ms) (auto split: sum.splits)

lemma map_sum_Inr: "map_sum (\<lambda>e. e) f x = Inr y \<longleftrightarrow> (\<exists>z. x = Inr z \<and> y = f z)"
  by (cases x) auto

lemma matchers_patterns:
  "list_all2 (\<lambda>p m. newRegexKeyMatcher p = Inr m) ps ms \<Longrightarrow> map rkm_pattern ms = ps"
  by (induction rule: list_all2_induct) (auto dest: newRegexKeyMatcher_Inr(2))

lemma matchers_own_pattern:
  assumes "list_all2 (\<lambda>p m. newRegexKeyMatcher p = Inr m) ps ms" and "m \<in> set ms"
  shows "newRegexKeyMatcher (rkm_pattern m) = Inr m"
  using assms by (induction rule: list_all2_induct) (auto dest: newRegexKeyMatcher_Inr(2))

lemma wf_leaf_matchers:
  assumes "wf_leaf krp"
  shows "map rkm_pattern (dr_matchers krp) = dr_patterns krp"
    and "m \<in> set (dr_matchers krp) \<Longrightarrow> newRegexKeyMatcher (rkm_pattern m) = Inr m"
    and "p \<in> set (dr_patterns krp) \<Longrightarrow> \<exists>m \<in> set (dr_matchers krp). newRegexKeyMatcher p = Inr m"
proof -
  have all: "list_all2 (\<lambda>p m. newRegexKeyMatcher p = Inr m) (dr_patterns krp) (dr_matchers krp)"
    using assms by (simp add: wf_leaf_def new_matchers_Inr)
  then show "map rkm_pattern (dr_matchers krp) = dr_patterns krp"
    by (rule matchers_patterns)
  show "m \<in> set (dr_matchers krp) \<Longrightarrow> newRegexKeyMatcher (rkm_pattern m) = Inr m"
    using all by (rule matchers_own_pattern)
  show "p \<in> set (dr_patterns krp) \<Longrightarrow> \<exists>m \<in> set (dr_matchers krp). newRegexKeyMatcher p = Inr m"
    using all by (force simp: in_set_conv_nth list_all2_conv_all_nth)
qed

lemma set_removeDuplicates [simp]: "set (removeDuplicates ord xs) = set xs"
proof -
  have "set (gm_keys (fold (\<lambda>x unique. gm_put unique x True) xs m)) = set (gm_keys m) \<union> set xs" for m
    by (induction xs arbitrary: m) (auto simp: gomap_simps)
  then show ?thesis by (simp add: removeDuplicates_def)
qed

lemma distinct_fold_put: "gm_wf m \<Longrightarrow> gm_wf (fold (\<lambda>x m. gm_put m x (f x)) xs m)"
  by (induction xs arbitrary: m) auto

lemma distinct_removeDuplicates [simp]: "distinct (removeDuplicates ord xs)"
  using distinct_fold_put [of "[]" "\<lambda>_. True" xs]
  by (simp add: removeDuplicates_def gm_wf_def gm_keys_def)

lemma newDynamicRule_Inr:
  assumes "newDynamicRule fac ps rep as = Inr krp" and "fac = EqualsRuleFactory \<or> length ps = 1"
  shows "wf_leaf krp" and "dr_patterns krp = ps" and "dr_rep krp = rep" and "dr_attributes krp = as"
    and "dr_factory krp = fac"
  using assms by (auto simp: newDynamicRule_def wf_leaf_def split: sum.splits)

lemma wf_NewCompareLiteralRule: "NewCompareLiteralRule p c t = Inr r \<Longrightarrow> wf_rule r"
  by (auto simp: NewCompareLiteralRule_def map_sum_Inr dest!: newDynamicRule_Inr(1) split: option.splits)

lemma wf_NewEqualsLiteralRule: "NewEqualsLiteralRule p v = Inr r \<Longrightarrow> wf_rule r"
  by (auto simp: NewEqualsLiteralRule_def Let_def dest: wf_NewCompareLiteralRule)

lemma NewEqualsLiteralRule_leaf:
  "NewEqualsLiteralRule p v = Inr r \<Longrightarrow>
     \<exists>krp t. r = Leaf krp \<and> dr_factory krp = CompareLiteralRuleFactory (newEqualsComparator v) t"
  by (auto simp: NewEqualsLiteralRule_def NewCompareLiteralRule_def Let_def map_sum_Inr
      newDynamicRule_def split: option.splits sum.splits)

lemma wf_NewEqualsRule: "NewEqualsRule ps = Inr r \<Longrightarrow> wf_rule r"
  by (auto simp: NewEqualsRule_def map_sum_Inr dest: newDynamicRule_Inr(1))

lemma wf_compound:
  "\<forall>r \<in> set rs. wf_rule r \<Longrightarrow> wf_rule (NewAndRule ord rs)"
  "\<forall>r \<in> set rs. wf_rule r \<Longrightarrow> wf_rule (NewOrRule ord rs)"
  "wf_rule r \<Longrightarrow> wf_rule (NewNotRule ord r)"
  by (simp_all add: NewAndRule_def NewOrRule_def NewNotRule_def newCompoundDynamicRule_def static_simps)

lemma wf_rule_leaves: "wf_rule r \<Longrightarrow> krp \<in> set (leaves r) \<Longrightarrow> wf_leaf krp"
  by (induction r) (auto simp: static_simps)

lemma getPatterns_leaves:
  "wf_rule r \<Longrightarrow> set (getPatterns r) = (\<Union>krp \<in> set (leaves r). set (dr_patterns krp))"
  by (induction r) (auto simp: static_simps)

section \<open>Static rules\<close>

lemma binds_simps [dyn_simps]: "binds a (A \<union> B) \<longleftrightarrow> binds a A \<and> binds a B"
  by (auto simp: binds_def)

lemma rule_params_simps [dyn_simps]:
  "rule_params (Leaf krp) = leaf_params krp"
  "rule_params (AndDynamicRule rs ps fs) = (\<Union>r \<in> set rs. rule_params r)"
  "rule_params (OrDynamicRule rs ps fs) = (\<Union>r \<in> set rs. rule_params r)"
  "rule_params (NotDynamicRule r ps fs) = rule_params r"
  by (auto simp: rule_params_def)

lemma newRule_leaf_inst:
  assumes "wf_leaf krp"
  shows "newRule (dr_factory krp) (map (path_format f) (dr_patterns krp)) attr = Ret (leaf_inst f attr krp)"
proof (cases "dr_factory krp")
  case (CompareLiteralRuleFactory c t)
  then obtain p where "dr_patterns krp = [p]"
    using assms by (cases "dr_patterns krp") (auto simp: wf_leaf_def)
  then show ?thesis
    using CompareLiteralRuleFactory by (simp add: leaf_inst_def go_index_def)
qed (simp add: leaf_inst_def)

lemma format_keys_eq:
  assumes "attr_wf a"
  shows "format_keys ms a =
    Ret (if \<forall>m \<in> set ms. path_found (attr_lookup a) (rkm_pattern m)
         then Some (map (\<lambda>m. path_format (attr_lookup a) (rkm_pattern m)) ms) else None)"
  by (induction ms) (auto simp: formatPath_attr [OF assms])

lemma leaf_found_iff:
  assumes "wf_leaf krp"
  shows "(\<forall>m \<in> set (dr_matchers krp). path_found (attr_lookup a) (rkm_pattern m)) \<longleftrightarrow> binds a (leaf_params krp)"
proof -
  have "(\<forall>m \<in> set (dr_matchers krp). path_found (attr_lookup a) (rkm_pattern m)) \<longleftrightarrow>
      (\<forall>p \<in> set (dr_patterns krp). path_found (attr_lookup a) p)"
    using wf_leaf_matchers(1) [OF assms] by (metis (no_types, lifting) image_iff list.set_map)
  then show ?thesis by (auto simp: path_found_iff binds_def leaf_params_def)
qed

lemma map_matchers_format:
  "wf_leaf krp \<Longrightarrow> map (\<lambda>m. g (rkm_pattern m)) (dr_matchers krp) = map g (dr_patterns krp)"
  using wf_leaf_matchers(1) [of krp] by (metis (no_types, lifting) comp_apply map_eq_conv map_map)

lemma leaf_static_eq:
  assumes "wf_leaf krp" and "attr_wf a"
  shows "leaf_staticRuleFromAttributes krp a =
    Ret (if binds a (leaf_params krp) then Some (leaf_inst (attr_lookup a) a krp) else None)"
  by (simp add: leaf_staticRuleFromAttributes_def format_keys_eq [OF assms(2)] leaf_found_iff [OF assms(1)]
      map_matchers_format [OF assms(1)] newRule_leaf_inst [OF assms(1)])

lemma collect_static_eq:
  "(\<And>r. r \<in> set rs \<Longrightarrow> f r = Ret (if P r then Some (g r) else None)) \<Longrightarrow>
     collect_static (map f rs) = Ret (if \<forall>r \<in> set rs. P r then Some (map g rs) else None)"
  by (induction rs) auto

lemma staticRuleFromAttributes_eq:
  assumes "attr_wf a"
  shows "wf_rule r \<Longrightarrow> staticRuleFromAttributes r a =
    Ret (if binds a (rule_params r) then Some (inst a r) else None)"
proof (induction r)
  case (Leaf krp)
  then show ?case by (simp add: leaf_static_eq assms dyn_simps)
next
  case (AndDynamicRule rs ps fs)
  have "collect_static (map (\<lambda>r. staticRuleFromAttributes r a) rs) =
      Ret (if \<forall>r \<in> set rs. binds a (rule_params r) then Some (map (inst a) rs) else None)"
    using AndDynamicRule by (intro collect_static_eq) (simp add: list_all_id)
  then show ?case by (auto simp: dyn_simps binds_def)
next
  case (OrDynamicRule rs ps fs)
  have "collect_static (map (\<lambda>r. staticRuleFromAttributes r a) rs) =
      Ret (if \<forall>r \<in> set rs. binds a (rule_params r) then Some (map (inst a) rs) else None)"
    using OrDynamicRule by (intro collect_static_eq) (simp add: list_all_id)
  then show ?case by (auto simp: dyn_simps binds_def)
next
  case (NotDynamicRule r ps fs)
  then show ?case by (simp add: dyn_simps)
qed

lemma first_match_Some:
  "first_match ms key = Some a \<Longrightarrow> \<exists>m \<in> set ms. match m key = Some a"
  by (induction ms) (auto split: option.splits)

lemma first_match_None: "first_match ms key = None \<longleftrightarrow> (\<forall>m \<in> set ms. match m key = None)"
  by (induction ms) (auto split: option.splits)

lemma leaf_make_eq:
  assumes "wf_leaf krp"
  shows "leaf_makeStaticRule krp key =
    Ret (case first_match (dr_matchers krp) key of
           None \<Rightarrow> None
         | Some m \<Rightarrow> Some (leaf_inst (attr_lookup m) (NestingAttributes m (dr_attributes krp)) krp,
             NestingAttributes m (dr_attributes krp)))"
proof (cases "first_match (dr_matchers krp) key")
  case (Some a)
  then obtain m where "m \<in> set (dr_matchers krp)" "match m key = Some a"
    using first_match_Some by blast
  then have wf: "attr_wf a"
    using wf_leaf_matchers(2) [OF assms] match_attr_wf by blast
  show ?thesis
    by (simp add: leaf_makeStaticRule_def Some FormatWithAttributes_attr [OF wf] Let_def
        map_matchers_format [OF assms] newRule_leaf_inst [OF assms])
qed (simp add: leaf_makeStaticRule_def)

lemma leaf_make_attr:
  assumes "wf_leaf krp" and "leaf_makeStaticRule krp key = Ret (Some (sr, a))"
  obtains m p am where "m \<in> set (dr_matchers krp)" "p \<in> set (dr_patterns krp)"
    "newRegexKeyMatcher p = Inr m" "match m key = Some am"
    "a = NestingAttributes am (dr_attributes krp)" "attr_wf a" "sr = leaf_inst (attr_lookup am) a krp"
proof -
  obtain am where am: "first_match (dr_matchers krp) key = Some am"
    and a: "a = NestingAttributes am (dr_attributes krp)" "sr = leaf_inst (attr_lookup am) a krp"
    using assms(2) by (auto simp: leaf_make_eq [OF assms(1)] split: option.splits)
  obtain m where m: "m \<in> set (dr_matchers krp)" "match m key = Some am"
    using first_match_Some [OF am] by blast
  note new = wf_leaf_matchers(2) [OF assms(1) m(1)]
  have "rkm_pattern m \<in> set (dr_patterns krp)"
    using wf_leaf_matchers(1) [OF assms(1)] m(1) by (metis image_eqI list.set_map)
  moreover have "attr_wf a"
    using match_attr_wf [OF new m(2)] a by simp
  ultimately show thesis using that m new a by blast
qed

lemma satisfiable_attributes_Ret:
  assumes "\<And>m. m \<in> set ms \<Longrightarrow> \<exists>x. m = Ret x"
  shows "\<exists>x. satisfiable_attributes ms key value = Ret x"
  using assms
proof (induction ms)
  case (Cons m ms)
  obtain x where m: "m = Ret x" using Cons.prems by auto
  have "\<exists>y. satisfiable_attributes ms key value = Ret y"
    using Cons by simp
  then show ?case by (auto simp: m split: option.splits)
qed simp

lemma satisfiable_attributes_Some:
  "satisfiable_attributes ms key value = Ret (Some a) \<Longrightarrow>
     \<exists>rule. Ret (Some (rule, a)) \<in> set ms \<and> satisfiable rule key value"
  by (induction ms) (auto simp: go_simps split: option.splits if_splits)

lemma satisfiable_attributes_None:
  "satisfiable_attributes ms key value = Ret None \<Longrightarrow> Ret (Some (rule, a)) \<in> set ms \<Longrightarrow>
     \<not> satisfiable rule key value"
  by (induction ms) (auto simp: go_simps split: option.splits if_splits)


text \<open>Every call returns, and the attributes it returns can be looked up without a panic.\<close>

lemma satisfiable_attributes_cases:
  assumes "\<And>m. m \<in> set ms \<Longrightarrow> \<exists>x. m = Ret x"
  obtains "satisfiable_attributes ms key val = Ret None"
  | rule a where "satisfiable_attributes ms key val = Ret (Some a)"
      "Ret (Some (rule, a)) \<in> set ms" "satisfiable rule key val"
proof -
  obtain x where x: "satisfiable_attributes ms key val = Ret x"
    using satisfiable_attributes_Ret [OF assms] by blast
  show thesis
  proof (cases x)
    case None
    then show ?thesis using that(1) x by simp
  next
    case (Some a)
    then show ?thesis using satisfiable_attributes_Some [of ms key val a] that(2) x by auto
  qed
qed

lemma compound_make_eq:
  assumes ret: "\<And>r. r \<in> set rs \<Longrightarrow> \<exists>x. makeStaticRule r key val = Ret x"
    and wfa: "\<And>r sr a. r \<in> set rs \<Longrightarrow> makeStaticRule r key val = Ret (Some (sr, a)) \<Longrightarrow> attr_wf a"
    and wfr: "\<And>r. r \<in> set rs \<Longrightarrow> wf_rule r"
  obtains "compound_makeStaticRule con rs (map (\<lambda>r. makeStaticRule r key val) rs) key val = Ret None"
      "\<And>r sr a. r \<in> set rs \<Longrightarrow> makeStaticRule r key val = Ret (Some (sr, a)) \<Longrightarrow> \<not> satisfiable sr key val"
  | r sr a where "r \<in> set rs" "makeStaticRule r key val = Ret (Some (sr, a))" "satisfiable sr key val"
      "attr_wf a"
      "compound_makeStaticRule con rs (map (\<lambda>r. makeStaticRule r key val) rs) key val =
         Ret (if binds a (\<Union>r \<in> set rs. rule_params r) then Some (con (map (inst a) rs), a) else None)"
proof -
  let ?ms = "map (\<lambda>r. makeStaticRule r key val) rs"
  have ms: "\<And>m. m \<in> set ?ms \<Longrightarrow> \<exists>x. m = Ret x"
    using ret by auto
  show thesis
  proof (cases rule: satisfiable_attributes_cases [of ?ms key val, case_names ret none some])
    case (ret m)
    then show ?case by (rule ms)
  next
    case none
    have "\<not> satisfiable sr key val" if "r \<in> set rs" "makeStaticRule r key val = Ret (Some (sr, a))" for r sr a
      using satisfiable_attributes_None [OF none, of sr a] that by (metis image_eqI list.set_map)
    then show ?thesis using that(1) none by (simp add: compound_makeStaticRule_def)
  next
    case (some sr a)
    then obtain r where r: "r \<in> set rs" "makeStaticRule r key val = Ret (Some (sr, a))"
      by auto
    note wf = wfa [OF r]
    have "collect_static (map (\<lambda>r. staticRuleFromAttributes r a) rs) =
        Ret (if \<forall>r \<in> set rs. binds a (rule_params r) then Some (map (inst a) rs) else None)"
      using wfr by (intro collect_static_eq) (simp add: staticRuleFromAttributes_eq [OF wf])
    then have "compound_makeStaticRule con rs ?ms key val =
        Ret (if binds a (\<Union>r \<in> set rs. rule_params r) then Some (con (map (inst a) rs), a) else None)"
      using some(1) by (auto simp: compound_makeStaticRule_def binds_def)
    then show ?thesis using that(2) r some(3) wf by blast
  qed
qed

lemma make_Ret:
  "wf_rule r \<Longrightarrow> \<exists>x. makeStaticRule r key val = Ret x \<and> (\<forall>sr a. x = Some (sr, a) \<longrightarrow> attr_wf a)"
proof (induction r)
  case (Leaf krp)
  then have wf: "wf_leaf krp" by simp
  have "\<exists>x. leaf_makeStaticRule krp key = Ret x" by (simp add: leaf_make_eq [OF wf])
  then show ?case using leaf_make_attr [OF wf] by (metis makeStaticRule.simps(1))
next
  case (AndDynamicRule rs ps fs)
  then have IH: "r \<in> set rs \<Longrightarrow> \<exists>x. makeStaticRule r key val = Ret x \<and> (\<forall>sr a. x = Some (sr, a) \<longrightarrow> attr_wf a)" for r
    by (simp add: list_all_id)
  have wfr: "\<And>r. r \<in> set rs \<Longrightarrow> wf_rule r" using AndDynamicRule.prems by (simp add: list_all_id)
  show ?case
    by (cases rule: compound_make_eq [of rs key val AndStaticRule]) (use IH wfr in \<open>fastforce+\<close>)
next
  case (OrDynamicRule rs ps fs)
  then have IH: "r \<in> set rs \<Longrightarrow> \<exists>x. makeStaticRule r key val = Ret x \<and> (\<forall>sr a. x = Some (sr, a) \<longrightarrow> attr_wf a)" for r
    by (simp add: list_all_id)
  have wfr: "\<And>r. r \<in> set rs \<Longrightarrow> wf_rule r" using OrDynamicRule.prems by (simp add: list_all_id)
  show ?case
    by (cases rule: compound_make_eq [of rs key val OrStaticRule]) (use IH wfr in \<open>fastforce+\<close>)
next
  case (NotDynamicRule r ps fs)
  then show ?case by (auto split: option.splits)
qed

lemma make_attr_wf: "wf_rule r \<Longrightarrow> makeStaticRule r key val = Ret (Some (sr, a)) \<Longrightarrow> attr_wf a"
  using make_Ret [of r key val] by auto

section \<open>What a made rule is\<close>

text \<open>
  The fixed attributes of a leaf (the parameters that \<open>Expand\<close> replaced) are not parameters of
  its patterns any more.
\<close>

definition fresh_leaf :: "dynamicRule \<Rightarrow> bool" where
  "fresh_leaf krp \<longleftrightarrow> list_all (\<lambda>at. attr_key at \<notin> leaf_params krp) (dr_attributes krp)"

definition fresh_attributes :: "dynamic_rule \<Rightarrow> bool" where
  "fresh_attributes r \<longleftrightarrow> list_all fresh_leaf (leaves r)"

primrec compound :: "dynamic_rule \<Rightarrow> bool" where
  "compound (Leaf krp) = False"
| "compound (AndDynamicRule rs ps fs) = True"
| "compound (OrDynamicRule rs ps fs) = True"
| "compound (NotDynamicRule r ps fs) = compound r"

lemma attr_lookup_nesting:
  "attr_lookup (NestingAttributes n as) k =
     (case nesting_find as k of Some v \<Rightarrow> Some v | None \<Rightarrow> attr_lookup n k)"
  by (simp add: attr_lookup_def split: option.splits)

lemma nesting_find_None: "list_all (\<lambda>at. attr_key at \<noteq> k) as \<Longrightarrow> nesting_find as k = None"
  by (induction as) auto

lemma nesting_find_Some: "nesting_find as k = Some v \<Longrightarrow> \<exists>at \<in> set as. attr_key at = k \<and> attr_value at = v"
  by (induction as) (auto split: if_splits)

lemma leaf_lookup_nesting:
  assumes "fresh_leaf krp" and "n \<in> leaf_params krp"
  shows "attr_lookup (NestingAttributes am (dr_attributes krp)) n = attr_lookup am n"
proof -
  have "nesting_find (dr_attributes krp) n = None"
    using assms by (intro nesting_find_None) (auto simp: fresh_leaf_def list_all_iff)
  then show ?thesis by (simp add: attr_lookup_nesting)
qed

lemma leaf_inst_cong:
  assumes "wf_leaf krp" and "\<And>n. n \<in> leaf_params krp \<Longrightarrow> f n = g n"
  shows "leaf_inst f a krp = leaf_inst g a krp"
proof -
  have eq: "path_format f p = path_format g p" if "p \<in> set (dr_patterns krp)" for p
    using assms(2) that by (intro path_format_cong) (auto simp: leaf_params_def)
  show ?thesis
  proof (cases "dr_factory krp")
    case (CompareLiteralRuleFactory c t)
    then have "dr_patterns krp \<noteq> []" using assms(1) by (auto simp: wf_leaf_def)
    then show ?thesis using eq CompareLiteralRuleFactory by (simp add: leaf_inst_def)
  qed (simp add: leaf_inst_def eq)
qed

lemma leaf_make_inst:
  assumes "wf_leaf krp" and "fresh_leaf krp" and "leaf_makeStaticRule krp key = Ret (Some (sr, a))"
  shows "sr = leaf_inst (attr_lookup a) a krp"
proof -
  obtain am where "a = NestingAttributes am (dr_attributes krp)" "sr = leaf_inst (attr_lookup am) a krp"
    using leaf_make_attr [OF assms(1,3)] by metis
  then show ?thesis
    using leaf_inst_cong [OF assms(1)] leaf_lookup_nesting [OF assms(2)] by metis
qed

lemma make_compound_cases:
  assumes "\<And>r. r \<in> set rs \<Longrightarrow> wf_rule r"
    and "compound_makeStaticRule con rs (map (\<lambda>r. makeStaticRule r key val) rs) key val = Ret (Some (sr, a))"
  obtains r sr' where "r \<in> set rs" "makeStaticRule r key val = Ret (Some (sr', a))"
    "satisfiable sr' key val" "sr = con (map (inst a) rs)" "binds a (\<Union>r \<in> set rs. rule_params r)"
proof -
  have ret: "\<And>r. r \<in> set rs \<Longrightarrow> \<exists>x. makeStaticRule r key val = Ret x"
    using make_Ret assms(1) by blast
  have wfa: "\<And>r sr a. r \<in> set rs \<Longrightarrow> makeStaticRule r key val = Ret (Some (sr, a)) \<Longrightarrow> attr_wf a"
    using make_attr_wf assms(1) by blast
  show thesis
    by (cases rule: compound_make_eq [of rs key val con, OF ret wfa assms(1)])
      (use assms(2) that in \<open>auto split: if_splits\<close>)
qed

lemma make_inst:
  "wf_rule r \<Longrightarrow> fresh_attributes r \<Longrightarrow> makeStaticRule r key val = Ret (Some (sr, a)) \<Longrightarrow> sr = inst a r"
proof (induction r arbitrary: sr)
  case (Leaf krp)
  then show ?case using leaf_make_inst by (simp add: fresh_attributes_def)
next
  case (AndDynamicRule rs ps fs)
  show ?case
    using AndDynamicRule.prems by (auto simp: list_all_id elim: make_compound_cases [rotated])
next
  case (OrDynamicRule rs ps fs)
  show ?case
    using OrDynamicRule.prems by (auto simp: list_all_id elim: make_compound_cases [rotated])
next
  case (NotDynamicRule r ps fs)
  then show ?case
    by (auto simp: go_simps fresh_attributes_def split: option.splits)
qed

lemma fresh_nested:
  "fresh_attributes (AndDynamicRule rs ps fs) \<Longrightarrow> r \<in> set rs \<Longrightarrow> fresh_attributes r"
  "fresh_attributes (OrDynamicRule rs ps fs) \<Longrightarrow> r \<in> set rs \<Longrightarrow> fresh_attributes r"
  "fresh_attributes (NotDynamicRule r ps fs) \<Longrightarrow> fresh_attributes r"
  by (auto simp: fresh_attributes_def list_all_iff)

lemma make_compound_trigger:
  "wf_rule r \<Longrightarrow> fresh_attributes r \<Longrightarrow> compound r \<Longrightarrow> makeStaticRule r key val = Ret (Some (sr, a)) \<Longrightarrow>
     binds a (rule_params r) \<and> satisfiable (inst a r) key val"
proof (induction r arbitrary: sr)
  case (AndDynamicRule rs ps fs)
  then have wf: "\<And>r. r \<in> set rs \<Longrightarrow> wf_rule r" by (simp add: list_all_id)
  obtain r sr' where r: "r \<in> set rs" "makeStaticRule r key val = Ret (Some (sr', a))"
    "satisfiable sr' key val" "binds a (\<Union>r \<in> set rs. rule_params r)"
    using AndDynamicRule.prems(4) wf by (auto elim: make_compound_cases [rotated])
  have "sr' = inst a r" using make_inst [OF wf [OF r(1)] fresh_nested(1) [OF AndDynamicRule.prems(2) r(1)] r(2)] .
  then show ?case using r by (auto simp: dyn_simps static_simps)
next
  case (OrDynamicRule rs ps fs)
  then have wf: "\<And>r. r \<in> set rs \<Longrightarrow> wf_rule r" by (simp add: list_all_id)
  obtain r sr' where r: "r \<in> set rs" "makeStaticRule r key val = Ret (Some (sr', a))"
    "satisfiable sr' key val" "binds a (\<Union>r \<in> set rs. rule_params r)"
    using OrDynamicRule.prems(4) wf by (auto elim: make_compound_cases [rotated])
  have "sr' = inst a r" using make_inst [OF wf [OF r(1)] fresh_nested(2) [OF OrDynamicRule.prems(2) r(1)] r(2)] .
  then show ?case using r by (auto simp: dyn_simps static_simps)
next
  case (NotDynamicRule r ps fs)
  obtain sr' where sr': "makeStaticRule r key val = Ret (Some (sr', a))"
    using NotDynamicRule.prems(4) by (auto simp: go_simps split: option.splits)
  have "binds a (rule_params r) \<and> satisfiable (inst a r) key val"
    by (rule NotDynamicRule.IH [OF _ _ _ sr'])
      (use NotDynamicRule.prems(1,3) fresh_nested(3) [OF NotDynamicRule.prems(2)] in auto)
  then show ?case by (simp add: dyn_simps satisfiable_eq_keyMatch)
qed simp

section \<open>Essential leaves and crawler patterns\<close>

text \<open>The truth value of a rule as a boolean function of its leaf representations.\<close>

primrec truth :: "dynamic_rule \<Rightarrow> (string \<Rightarrow> bool) \<Rightarrow> bool" where
  "truth (Leaf krp) \<nu> = \<nu> (dr_rep krp)"
| "truth (AndDynamicRule rs ps fs) \<nu> = list_all (\<lambda>b. b) (map (\<lambda>r. truth r \<nu>) rs)"
| "truth (OrDynamicRule rs ps fs) \<nu> = list_ex (\<lambda>b. b) (map (\<lambda>r. truth r \<nu>) rs)"
| "truth (NotDynamicRule r ps fs) \<nu> = (\<not> truth r \<nu>)"

lemma fold_and: "fold (\<lambda>e result. result \<and> e) bs b \<longleftrightarrow> b \<and> list_all (\<lambda>b. b) bs"
  by (induction bs arbitrary: b) auto

lemma fold_or: "fold (\<lambda>e result. result \<or> e) bs b \<longleftrightarrow> b \<or> list_ex (\<lambda>b. b) bs"
  by (induction bs arbitrary: b) auto

lemma evaluate_truth: "evaluate r m = truth r (\<lambda>rep. gm_get m rep = Some True)"
proof (induction r)
  case (AndDynamicRule rs ps fs)
  then show ?case by (simp add: fold_and static_simps)
next
  case (OrDynamicRule rs ps fs)
  then show ?case by (simp add: fold_or static_simps)
qed (auto split: option.splits)

lemma truth_cong:
  "(\<And>krp. krp \<in> set (leaves r) \<Longrightarrow> \<nu> (dr_rep krp) = \<nu>' (dr_rep krp)) \<Longrightarrow> truth r \<nu> = truth r \<nu>'"
proof (induction r)
  case (AndDynamicRule rs ps fs)
  have "truth r \<nu> = truth r \<nu>'" if "r \<in> set rs" for r
    by (rule AndDynamicRule.IH [OF that]) (use AndDynamicRule.prems that in auto)
  then show ?case by (simp add: static_simps)
next
  case (OrDynamicRule rs ps fs)
  have "truth r \<nu> = truth r \<nu>'" if "r \<in> set rs" for r
    by (rule OrDynamicRule.IH [OF that]) (use OrDynamicRule.prems that in auto)
  then show ?case by (simp add: static_simps)
qed auto

lemma keys_fold_put: "set (gm_keys (fold (\<lambda>x m. gm_put m x (f x)) xs m)) = set (gm_keys m) \<union> set xs"
  by (induction xs arbitrary: m) (auto simp: gomap_simps)

lemma getLeafRepresentations_set: "set (getLeafRepresentations ord r) = dr_rep ` set (leaves r)"
proof (induction r)
  case (AndDynamicRule rs ps fs)
  then show ?case by (auto simp: compound_leafReps_def keys_fold_put)
next
  case (OrDynamicRule rs ps fs)
  then show ?case by (auto simp: compound_leafReps_def keys_fold_put)
qed (auto simp: compound_leafReps_def keys_fold_put)

text \<open>The maps that \<open>processBooleanMap\<close> hands to its callback, in order.\<close>

fun boolean_maps :: "string list \<Rightarrow> (string, bool) gomap \<Rightarrow> bool \<Rightarrow> (string, bool) gomap list" where
  "boolean_maps [] parent b = []"
| "boolean_maps [k] parent b = [gm_put parent k b]"
| "boolean_maps (k # k' # ks) parent b =
     boolean_maps (k' # ks) (gm_put parent k b) False @ boolean_maps (k' # ks) (gm_put parent k b) True"

lemma processBooleanMap_fold:
  "processBooleanMap ks parent b proc st = fold proc (boolean_maps ks parent b) st"
  by (induction ks parent b arbitrary: st rule: boolean_maps.induct) auto

lemma boolean_maps_all:
  "ks \<noteq> [] \<Longrightarrow> \<exists>m \<in> set (boolean_maps ks parent (\<nu> (hd ks))).
     \<forall>k. gm_get m k = (if k \<in> set ks then Some (\<nu> k) else gm_get parent k)"
proof (induction ks arbitrary: parent)
  case (Cons k ks)
  show ?case
  proof (cases ks)
    case Nil
    then show ?thesis by (simp add: gomap_simps)
  next
    case (Cons k' ks')
    then obtain m where m: "m \<in> set (boolean_maps ks (gm_put parent k (\<nu> k)) (\<nu> k'))"
      "\<forall>j. gm_get m j = (if j \<in> set ks then Some (\<nu> j) else gm_get (gm_put parent k (\<nu> k)) j)"
      using Cons.IH [of "gm_put parent k (\<nu> k)"] by auto
    then have "m \<in> set (boolean_maps (k # ks) parent (\<nu> k))"
      using Cons by (cases "\<nu> k'") auto
    moreover have "\<forall>j. gm_get m j = (if j \<in> set (k # ks) then Some (\<nu> j) else gm_get parent j)"
      using m(2) by (auto simp: gomap_simps)
    ultimately show ?thesis by (metis list.sel(1))
  qed
qed simp

lemma clear_flags:
  "gm_get (fold (\<lambda>rep m. if P rep then gm_put m rep False else m) reps m) k =
     (if k \<in> set reps \<and> P k then Some False else gm_get m k)"
  by (induction reps arbitrary: m) (auto simp: gomap_simps)

lemma clear_flags_all:
  "gm_get (fold (\<lambda>vals m. if E vals
       then fold (\<lambda>rep m. if P vals rep then gm_put m rep False else m) reps m else m) vss m) k =
     (if k \<in> set reps \<and> (\<exists>vals \<in> set vss. E vals \<and> P vals k) then Some False else gm_get m k)"
  by (induction vss arbitrary: m) (auto simp: clear_flags)

lemma set_flags: "gm_get (fold (\<lambda>rep m. gm_put m rep b) reps m) k =
    (if k \<in> set reps then Some b else gm_get m k)"
  by (induction reps arbitrary: m) (auto simp: gomap_simps)

lemma essential_iff:
  "rep \<in> set (getEssentialRepresentations ord r) \<longleftrightarrow>
     rep \<in> dr_rep ` set (leaves r) \<and> (\<forall>\<nu>. truth r \<nu> \<longrightarrow> \<nu> rep)"
proof -
  define reps where "reps = getLeafRepresentations ord r"
  define vss where "vss = boolean_maps reps [] False @ boolean_maps reps [] True"
  have set_reps: "set reps = dr_rep ` set (leaves r)"
    by (simp add: reps_def getLeafRepresentations_set)
  have "rep \<in> set (getEssentialRepresentations ord r) \<longleftrightarrow>
      rep \<in> set reps \<and> (\<forall>vals \<in> set vss. evaluate r vals \<longrightarrow> gm_get vals rep = Some True)"
    by (auto simp: getEssentialRepresentations_def Let_def reps_def [symmetric] vss_def
        processBooleanMap_fold fold_append [symmetric] clear_flags_all set_flags
        simp del: fold_append split: if_splits)
  also have "\<dots> \<longleftrightarrow> rep \<in> set reps \<and> (\<forall>\<nu>. truth r \<nu> \<longrightarrow> \<nu> rep)"
  proof (cases "rep \<in> set reps")
    case True
    have "\<nu> rep" if all: "\<forall>vals \<in> set vss. evaluate r vals \<longrightarrow> gm_get vals rep = Some True"
      and t: "truth r \<nu>" for \<nu>
    proof -
      have "reps \<noteq> []" using True by auto
      then obtain m where m: "m \<in> set (boolean_maps reps [] (\<nu> (hd reps)))"
        "\<forall>k. gm_get m k = (if k \<in> set reps then Some (\<nu> k) else None)"
        using boolean_maps_all [of reps "[]" \<nu>] by auto
      then have "m \<in> set vss" by (cases "\<nu> (hd reps)") (auto simp: vss_def)
      moreover have "evaluate r m"
        using t truth_cong [of r \<nu> "\<lambda>rep. gm_get m rep = Some True"] m(2) set_reps
        by (auto simp: evaluate_truth)
      ultimately show ?thesis using all m(2) True by auto
    qed
    then show ?thesis using evaluate_truth by auto
  qed simp
  finally show ?thesis by (simp add: set_reps)
qed

abbreviation gm_list :: "(string, string list) gomap \<Rightarrow> string \<Rightarrow> string list" where
  "gm_list m k \<equiv> (case gm_get m k of Some v \<Rightarrow> v | None \<Rightarrow> [])"

lemma merge_fold_set:
  "set (gm_list (fold (\<lambda>k out. gm_put out k (gm_list out k @ gm_list m k)) ks out) k) =
     set (gm_list out k) \<union> (if k \<in> set ks then set (gm_list m k) else {})"
  by (induction ks arbitrary: out) (auto simp: gomap_simps)

lemma merge_patterns_set: "set (gm_list (merge_patterns ord m out) k) = set (gm_list out k) \<union> set (gm_list m k)"
proof -
  have "k \<notin> set (gm_keys m) \<Longrightarrow> gm_get m k = None" by (simp add: gomap_simps)
  then show ?thesis by (auto simp: merge_patterns_def merge_fold_set)
qed

lemma merge_all_set:
  "set (gm_list (fold (merge_patterns ord) ms out) k) = set (gm_list out k) \<union> (\<Union>m \<in> set ms. set (gm_list m k))"
proof (induction ms arbitrary: out)
  case (Cons m ms)
  show ?case
    by (simp only: fold_simps Cons.IH merge_patterns_set list.set(2) UN_insert Un_assoc)
qed simp

lemma dedup_fold_set:
  "set (gm_list (fold (\<lambda>k out. gm_put out k (removeDuplicates ord (gm_list out k))) ks out) k) =
     set (gm_list out k)"
  by (induction ks arbitrary: out) (auto simp: gomap_simps)

lemma compound_patternMap_set:
  "set (gm_list (compound_patternMap ord ms) k) = (\<Union>m \<in> set ms. set (gm_list m k))"
  by (simp add: compound_patternMap_def Let_def dedup_fold_set merge_all_set)

lemma patternMap_set:
  "set (gm_list (getLeafRepresentationPatternMap ord r) rep) =
     (\<Union>krp \<in> {krp \<in> set (leaves r). dr_rep krp = rep}. set (dr_patterns krp))"
proof (induction r)
  case (Leaf krp)
  then show ?case by (auto simp: gm_get_def)
next
  case (AndDynamicRule rs ps fs)
  then show ?case unfolding getLeafRepresentationPatternMap.simps compound_patternMap_set by auto
next
  case (OrDynamicRule rs ps fs)
  then show ?case unfolding getLeafRepresentationPatternMap.simps compound_patternMap_set by auto
next
  case (NotDynamicRule r ps fs)
  then show ?case unfolding getLeafRepresentationPatternMap.simps compound_patternMap_set by auto
qed

lemma gm_keys_delete: "set (gm_keys (gm_delete m k)) = set (gm_keys m) - {k}"
  by (auto simp: gm_keys_def gm_delete_def delete_keys)

lemma delete_all: "set (gm_keys (fold (\<lambda>p m. gm_delete m p) xs m)) = set (gm_keys m) - set xs"
  by (induction xs arbitrary: m) (auto simp: gm_keys_delete)

lemma delete_nil_patterns:
  "set (gm_keys (fold (\<lambda>rep m. if P rep then fold (\<lambda>p m. gm_delete m p) (g rep) m else m) reps m)) =
     set (gm_keys m) - (\<Union>rep \<in> {rep \<in> set reps. P rep}. set (g rep))"
  by (induction reps arbitrary: m) (auto simp: delete_all)

lemma getCrawlerPatterns_set:
  "set (getCrawlerPatterns ord r) = set (getPatterns r) -
     (\<Union>krp \<in> {krp \<in> set (leaves r). strings_HasSuffix (dr_rep krp) ''<nil>'' \<and>
        (\<forall>\<nu>. truth r \<nu> \<longrightarrow> \<nu> (dr_rep krp))}. set (dr_patterns krp))"
  unfolding getCrawlerPatterns_def Let_def set_range_in delete_nil_patterns keys_fold_put
  by (auto simp: patternMap_set essential_iff) metis+

text \<open>
  Representations that identify what a leaf compares, and leaves whose representation ends in
  \<open><nil>\<close> test for an absent key, as \<open>NewEqualsLiteralRule\<close> makes them.
\<close>

definition reps_faithful :: "dynamic_rule \<Rightarrow> bool" where
  "reps_faithful r \<longleftrightarrow>
     (\<forall>k1 \<in> set (leaves r). \<forall>k2 \<in> set (leaves r). dr_rep k1 = dr_rep k2 \<longrightarrow>
        dr_factory k1 = dr_factory k2 \<and> dr_patterns k1 = dr_patterns k2) \<and>
     (\<forall>krp \<in> set (leaves r). strings_HasSuffix (dr_rep krp) ''<nil>'' \<longrightarrow>
        (\<exists>t. dr_factory krp = CompareLiteralRuleFactory (newEqualsComparator None) t))"

lemma holds_inst_truth:
  assumes "\<And>krp. krp \<in> set (leaves r) \<Longrightarrow> \<nu> (dr_rep krp) = holds (leaf_inst (attr_lookup a) a krp) st"
  shows "holds (inst a r) st = truth r \<nu>"
  using assms
proof (induction r)
  case (AndDynamicRule rs ps fs)
  have "holds (inst a r) st = truth r \<nu>" if "r \<in> set rs" for r
    by (rule AndDynamicRule.IH [OF that]) (use AndDynamicRule.prems that in auto)
  then show ?case by (simp add: static_simps)
next
  case (OrDynamicRule rs ps fs)
  have "holds (inst a r) st = truth r \<nu>" if "r \<in> set rs" for r
    by (rule OrDynamicRule.IH [OF that]) (use OrDynamicRule.prems that in auto)
  then show ?case by (simp add: static_simps)
qed auto

lemma leaf_inst_holds_cong:
  "dr_factory k1 = dr_factory k2 \<Longrightarrow> dr_patterns k1 = dr_patterns k2 \<Longrightarrow>
     leaf_inst f a k1 = leaf_inst f a k2"
  by (cases "dr_factory k2") (simp_all add: leaf_inst_def)

lemma skipped_pattern_nil:
  assumes "wf_rule r" and "reps_faithful r" and "holds (inst a r) st"
    and "p \<in> set (getPatterns r)" and "p \<notin> set (getCrawlerPatterns ord r)"
  shows "st (path_format (attr_lookup a) p) = None"
proof -
  define \<nu> where "\<nu> rep = (\<exists>krp \<in> set (leaves r). dr_rep krp = rep \<and>
    holds (leaf_inst (attr_lookup a) a krp) st)" for rep
  have \<nu>: "\<nu> (dr_rep krp) = holds (leaf_inst (attr_lookup a) a krp) st" if "krp \<in> set (leaves r)" for krp
    using assms(2) that leaf_inst_holds_cong unfolding \<nu>_def reps_faithful_def by metis
  obtain krp where krp: "krp \<in> set (leaves r)" "strings_HasSuffix (dr_rep krp) ''<nil>''"
    "\<forall>\<nu>. truth r \<nu> \<longrightarrow> \<nu> (dr_rep krp)" "p \<in> set (dr_patterns krp)"
    using assms(4,5) by (auto simp: getCrawlerPatterns_set)
  have "holds (leaf_inst (attr_lookup a) a krp) st"
    using holds_inst_truth [of r \<nu> a st, OF \<nu>] assms(3) krp(1,3) \<nu> by metis
  moreover obtain t where t: "dr_factory krp = CompareLiteralRuleFactory (newEqualsComparator None) t"
    using assms(2) krp(1,2) unfolding reps_faithful_def by blast
  moreover have "dr_patterns krp = [p]"
    using wf_rule_leaves [OF assms(1) krp(1)] t krp(4)
    by (cases "dr_patterns krp") (auto simp: wf_leaf_def)
  ultimately show ?thesis by (simp add: leaf_inst_def newEqualsComparator_def)
qed

section \<open>Which keys make a rule\<close>

text \<open>
  Rules as the tutorial of the repository writes them: one pattern per leaf, every parameter once
  in a pattern, the same parameters in all patterns.
\<close>

definition uniform_in :: "string set \<Rightarrow> dynamic_rule \<Rightarrow> bool" where
  "uniform_in P r \<longleftrightarrow> list_all (\<lambda>krp. case dr_patterns krp of
     [p] \<Rightarrow> distinct (params p) \<and> set (params p) = P | _ \<Rightarrow> False) (leaves r)"

lemma uniform_leaf:
  assumes "uniform_in P (Leaf krp)"
  obtains p where "dr_patterns krp = [p]" "distinct (params p)" "set (params p) = P" "leaf_params krp = P"
  using assms by (auto simp: uniform_in_def leaf_params_def split: list.splits)

lemma uniform_nested:
  "uniform_in P (AndDynamicRule rs ps fs) \<Longrightarrow> r \<in> set rs \<Longrightarrow> uniform_in P r"
  "uniform_in P (OrDynamicRule rs ps fs) \<Longrightarrow> r \<in> set rs \<Longrightarrow> uniform_in P r"
  "uniform_in P (NotDynamicRule r ps fs) \<Longrightarrow> uniform_in P r"
  by (auto simp: uniform_in_def list_all_iff)

lemma uniform_leaves:
  assumes "uniform_in P r" and "krp \<in> set (leaves r)" shows "leaf_params krp = P"
proof -
  have "uniform_in P (Leaf krp)" using assms by (simp add: uniform_in_def list_all_iff)
  then show ?thesis by (rule uniform_leaf)
qed

lemma uniform_params: "uniform_in P r \<Longrightarrow> rule_params r \<subseteq> P"
  by (auto simp: rule_params_def uniform_leaves)

lemma uniform_params_eq: "uniform_in P r \<Longrightarrow> leaves r \<noteq> [] \<Longrightarrow> rule_params r = P"
  by (auto simp: rule_params_def uniform_leaves neq_Nil_conv)

lemma keyMatch_leaves: "keyMatch (inst a r) key \<Longrightarrow> leaves r \<noteq> []"
  by (induction r) (auto simp: static_simps)

lemma leaf_inst_keys:
  "wf_leaf krp \<Longrightarrow> getKeys (leaf_inst f a krp) = map (path_format f) (dr_patterns krp)"
  by (cases "dr_patterns krp") (auto simp: leaf_inst_def wf_leaf_def split: ruleFactory.splits)

lemma uniform_inst_keys:
  "wf_rule r \<Longrightarrow> uniform_in P r \<Longrightarrow> keys_nonempty (inst a r)"
proof (induction r)
  case (Leaf krp)
  then show ?case
    by (auto simp: leaf_inst_def split: ruleFactory.splits elim: uniform_leaf)
qed (auto simp: static_simps dest: uniform_nested)

lemma leaf_make_single:
  assumes "wf_leaf krp" and "dr_patterns krp = [p]" and "distinct (params p)"
    and "leaf_makeStaticRule krp key = Ret (Some (sr, a))"
  shows "binds a (set (params p))"
proof -
  obtain m am where m: "newRegexKeyMatcher p = Inr m" "match m key = Some am"
    and a: "a = NestingAttributes am (dr_attributes krp)"
    by (rule leaf_make_attr [OF assms(1,4)]) (use assms(2) in auto)
  obtain t gs where am: "am = match_of (params p) t gs" "length gs = length (params p)" "list_all attr_value_ok gs"
    using match_Some [OF m] by metis
  have "attr_lookup am n \<noteq> None" if "n \<in> set (params p)" for n
    using match_lookup [OF assms(3) am(2,3) that, of t] am(1) by auto
  then show ?thesis by (auto simp: binds_def a attr_lookup_nesting split: option.splits)
qed

lemma make_binds:
  assumes "wf_rule r" and "fresh_attributes r" and "uniform_in P r"
    and "makeStaticRule r key val = Ret (Some (sr, a))"
  shows "binds a P"
  using assms
proof (induction r arbitrary: sr)
  case (Leaf krp)
  then show ?case
    by (auto elim!: uniform_leaf dest!: leaf_make_single)
next
  case (AndDynamicRule rs ps fs)
  note t = make_compound_trigger [OF AndDynamicRule.prems(1,2) _ AndDynamicRule.prems(4)]
  then show ?case
    using uniform_params_eq [OF AndDynamicRule.prems(3)] keyMatch_leaves [of a "AndDynamicRule rs ps fs" key]
    by (metis compound.simps(2) satisfiable_eq_keyMatch)
next
  case (OrDynamicRule rs ps fs)
  note t = make_compound_trigger [OF OrDynamicRule.prems(1,2) _ OrDynamicRule.prems(4)]
  then show ?case
    using uniform_params_eq [OF OrDynamicRule.prems(3)] keyMatch_leaves [of a "OrDynamicRule rs ps fs" key]
    by (metis compound.simps(3) satisfiable_eq_keyMatch)
next
  case (NotDynamicRule r ps fs)
  then show ?case
    by (auto simp: go_simps split: option.splits dest: fresh_nested uniform_nested)
qed

lemma leaf_make_complete:
  assumes "wf_leaf krp" and "fresh_leaf krp" and p: "dr_patterns krp = [p]" "distinct (params p)"
    and f: "\<And>n. n \<in> set (params p) \<Longrightarrow> \<exists>v. f n = Some v \<and> attr_value_ok v"
  shows "\<exists>sr a. leaf_makeStaticRule krp (path_format f p) = Ret (Some (sr, a)) \<and>
    satisfiable sr (path_format f p) val"
proof -
  let ?gs = "map (\<lambda>n. the (f n)) (params p)"
  have found: "path_found f p" using f by (fastforce simp: path_found_iff)
  have gs: "length ?gs = length (params p)" "list_all attr_value_ok ?gs"
    using f by (auto simp: list_all_iff) (metis option.sel)
  obtain m where m: "dr_matchers krp = [m]" "newRegexKeyMatcher p = Inr m"
    using wf_leaf_matchers(1,2) [OF assms(1)] p(1) by (cases "dr_matchers krp") auto
  let ?am = "match_of (params p) (fill (segments p) ?gs) ?gs"
  have "match m (path_format f p) = Some ?am"
    using match_fill [OF m(2) gs] path_format_fill [OF found] by simp
  then have make: "leaf_makeStaticRule krp (path_format f p) =
      Ret (Some (leaf_inst (attr_lookup ?am) (NestingAttributes ?am (dr_attributes krp)) krp,
        NestingAttributes ?am (dr_attributes krp)))"
    by (simp add: leaf_make_eq [OF assms(1)] m(1))
  have "path_format (attr_lookup ?am) p = path_format f p"
    using path_format_match(1) [OF p(2) gs] path_format_fill [OF found] by simp
  then have "satisfiable (leaf_inst (attr_lookup ?am) x krp) (path_format f p) val" for x
    using leaf_inst_keys [OF assms(1), of "attr_lookup ?am" x] p(1)
    by (auto simp: satisfiable_eq_keyMatch intro!: getKeys_keyMatch)
  with make show ?thesis by blast
qed

lemma compound_complete:
  assumes "\<And>r. r \<in> set rs \<Longrightarrow> wf_rule r" and "\<And>r. r \<in> set rs \<Longrightarrow> fresh_attributes r"
    and "\<And>r. r \<in> set rs \<Longrightarrow> uniform_in P r"
    and "r0 \<in> set rs" "makeStaticRule r0 key val = Ret (Some (sr0, a0))" "satisfiable sr0 key val"
  shows "\<exists>a. compound_makeStaticRule con rs (map (\<lambda>r. makeStaticRule r key val) rs) key val =
      Ret (Some (con (map (inst a) rs), a)) \<and> (\<exists>r \<in> set rs. satisfiable (inst a r) key val)"
proof -
  have ret: "\<And>r. r \<in> set rs \<Longrightarrow> \<exists>x. makeStaticRule r key val = Ret x"
    using make_Ret assms(1) by blast
  have wfa: "\<And>r sr a. r \<in> set rs \<Longrightarrow> makeStaticRule r key val = Ret (Some (sr, a)) \<Longrightarrow> attr_wf a"
    using make_attr_wf assms(1) by blast
  show ?thesis
  proof (cases rule: compound_make_eq [of rs key val con, case_names ret wfa wfr none some])
    case none
    then show ?thesis using assms(4-6) by blast
  next
    case (some r sr a)
    have "binds a P" using make_binds assms(1-3) some(1,2) by blast
    then have "binds a (\<Union>r \<in> set rs. rule_params r)"
      using uniform_params assms(3) by (fastforce simp: binds_def)
    moreover have "sr = inst a r" using make_inst assms(1,2) some(1,2) by blast
    ultimately show ?thesis using some by auto
  qed (use ret wfa assms(1) in blast)+
qed

lemma make_complete:
  assumes "wf_rule r" and "fresh_attributes r" and "uniform_in P r"
    and "krp \<in> set (leaves r)" and "p \<in> set (dr_patterns krp)"
    and "\<And>n. n \<in> P \<Longrightarrow> \<exists>v. f n = Some v \<and> attr_value_ok v"
  shows "\<exists>sr a. makeStaticRule r (path_format f p) val = Ret (Some (sr, a)) \<and>
    satisfiable sr (path_format f p) val"
  using assms(1-4)
proof (induction r)
  case (Leaf krp')
  obtain q where q: "dr_patterns krp = [q]" "distinct (params q)" "set (params q) = P"
    using Leaf.prems(3,4) by (auto elim: uniform_leaf)
  then have "\<exists>sr a. leaf_makeStaticRule krp (path_format f p) = Ret (Some (sr, a)) \<and>
    satisfiable sr (path_format f p) val"
    using Leaf.prems assms(5,6) by (intro leaf_make_complete) (auto simp: fresh_attributes_def)
  then show ?case using Leaf.prems(4) by simp
next
  case (AndDynamicRule rs ps fs)
  obtain r where r: "r \<in> set rs" "krp \<in> set (leaves r)" using AndDynamicRule.prems(4) by auto
  have wf: "\<And>r. r \<in> set rs \<Longrightarrow> wf_rule r" using AndDynamicRule.prems(1) by (simp add: list_all_id)
  note nested = wf fresh_nested(1) [OF AndDynamicRule.prems(2)] uniform_nested(1) [OF AndDynamicRule.prems(3)]
  show ?case
    using AndDynamicRule.IH [OF r(1) nested(1) [OF r(1)] nested(2) [OF r(1)] nested(3) [OF r(1)] r(2)]
      compound_complete [of rs P r "path_format f p" val _ _ AndStaticRule] nested r(1)
    by (fastforce simp: static_simps)
next
  case (OrDynamicRule rs ps fs)
  obtain r where r: "r \<in> set rs" "krp \<in> set (leaves r)" using OrDynamicRule.prems(4) by auto
  have wf: "\<And>r. r \<in> set rs \<Longrightarrow> wf_rule r" using OrDynamicRule.prems(1) by (simp add: list_all_id)
  note nested = wf fresh_nested(2) [OF OrDynamicRule.prems(2)] uniform_nested(2) [OF OrDynamicRule.prems(3)]
  show ?case
    using OrDynamicRule.IH [OF r(1) nested(1) [OF r(1)] nested(2) [OF r(1)] nested(3) [OF r(1)] r(2)]
      compound_complete [of rs P r "path_format f p" val _ _ OrStaticRule] nested r(1)
    by (fastforce simp: static_simps)
next
  case (NotDynamicRule r ps fs)
  obtain sr a where "makeStaticRule r (path_format f p) val = Ret (Some (sr, a))"
    "satisfiable sr (path_format f p) val"
    using NotDynamicRule.IH NotDynamicRule.prems fresh_nested(3) uniform_nested(3) by fastforce
  then show ?case by (simp add: satisfiable_eq_keyMatch)
qed

section \<open>Rules of the public constructors\<close>

inductive built :: "string range_order \<Rightarrow> dynamic_rule \<Rightarrow> bool" for ord where
  built_compare: "NewCompareLiteralRule p c t = Inr r \<Longrightarrow> built ord r"
| built_literal: "NewEqualsLiteralRule p v = Inr r \<Longrightarrow> built ord r"
| built_equals: "NewEqualsRule ps = Inr r \<Longrightarrow> built ord r"
| built_and: "(\<And>r. r \<in> set rs \<Longrightarrow> built ord r) \<Longrightarrow> built ord (NewAndRule ord rs)"
| built_or: "(\<And>r. r \<in> set rs \<Longrightarrow> built ord r) \<Longrightarrow> built ord (NewOrRule ord rs)"
| built_not: "built ord r \<Longrightarrow> built ord (NewNotRule ord r)"

lemma built_wf: "built ord r \<Longrightarrow> wf_rule r"
  by (induction rule: built.induct)
    (auto intro: wf_NewCompareLiteralRule wf_NewEqualsLiteralRule wf_NewEqualsRule wf_compound)

lemma newDynamicRule_fresh: "newDynamicRule fac ps rep [] = Inr krp \<Longrightarrow> fresh_leaf krp"
  by (auto simp: newDynamicRule_def fresh_leaf_def split: sum.splits)

lemma fresh_NewCompareLiteralRule: "NewCompareLiteralRule p c t = Inr r \<Longrightarrow> fresh_attributes r"
  by (auto simp: NewCompareLiteralRule_def map_sum_Inr fresh_attributes_def
      dest!: newDynamicRule_fresh split: option.splits)

lemma fresh_compound:
  "(\<And>r. r \<in> set rs \<Longrightarrow> fresh_attributes r) \<Longrightarrow> fresh_attributes (NewAndRule ord rs)"
  "(\<And>r. r \<in> set rs \<Longrightarrow> fresh_attributes r) \<Longrightarrow> fresh_attributes (NewOrRule ord rs)"
  "fresh_attributes r \<Longrightarrow> fresh_attributes (NewNotRule ord r)"
  by (auto simp: NewAndRule_def NewOrRule_def NewNotRule_def newCompoundDynamicRule_def
      fresh_attributes_def list_all_iff)

lemma built_fresh: "built ord r \<Longrightarrow> fresh_attributes r"
proof (induction rule: built.induct)
  case (built_literal p v r)
  then show ?case by (simp add: NewEqualsLiteralRule_def Let_def fresh_NewCompareLiteralRule)
next
  case (built_equals ps r)
  then show ?case
    by (auto simp: NewEqualsRule_def map_sum_Inr fresh_attributes_def dest: newDynamicRule_fresh)
qed (auto intro: fresh_NewCompareLiteralRule fresh_compound)

section \<open>Properties\<close>

text \<open>
  A rule built with the public constructors never panics while it is made for a key, whatever
  the key, and the attributes it returns answer every lookup without a panic; \<open>RuleSatisfied\<close>
  always returns.
\<close>

theorem makeStaticRule_never_panics:
  assumes "built ord r"
  shows "(\<exists>x. makeStaticRule r key v = Ret x \<and>
      (\<forall>sr a. x = Some (sr, a) \<longrightarrow> (\<forall>n. \<exists>y. FindAttribute a n = Ret y))) \<and>
    (\<exists>y. RuleSatisfied r key v kvs = Ret y)"
proof -
  obtain x where x: "makeStaticRule r key v = Ret x" "\<And>sr a. x = Some (sr, a) \<Longrightarrow> attr_wf a"
    using make_Ret [OF built_wf [OF assms]] by blast
  moreover from this have "\<exists>y. RuleSatisfied r key v kvs = Ret y"
    by (auto simp: RuleSatisfied_def split: option.splits)
  ultimately show ?thesis using attr_wf_find by blast
qed

theorem makeStaticRule_never_panics_witness:
  "\<exists>r y. NewEqualsRule [''/a/:x'', ''/b/:y''] = Inr r \<and>
     RuleSatisfied (NewNotRule insertion_order r) ''/b/7'' None [] = Ret y"
proof -
  let ?r = "projr (NewEqualsRule [''/a/:x'', ''/b/:y''])"
  have r: "NewEqualsRule [''/a/:x'', ''/b/:y''] = Inr ?r"
    by (rule Inr_projr) code_simp
  then have "built insertion_order (NewNotRule insertion_order ?r)"
    by (intro built_not built_equals)
  then show ?thesis using makeStaticRule_never_panics r by blast
qed

text \<open>
  C16. When an AND or OR rule (also a negated one) is made for a key, the static rule is exactly the
  one its attributes determine: every pattern parameter of every leaf is bound, and the key that
  triggered it is one the static rule reacts to.
\<close>

theorem makeStaticRule_sound:
  assumes "built ord r" and "compound r" and "makeStaticRule r key v = Ret (Some (sr, a))"
  shows "staticRuleFromAttributes r a = Ret (Some sr) \<and> satisfiable sr key v"
proof -
  note wf = built_wf [OF assms(1)] and fresh = built_fresh [OF assms(1)]
  show ?thesis
    using make_compound_trigger [OF wf fresh assms(2,3)] make_inst [OF wf fresh assms(3)]
      staticRuleFromAttributes_eq [OF make_attr_wf [OF wf assms(3)] wf] by simp
qed

theorem makeStaticRule_sound_witness:
  "\<exists>r1 r2 sr a. NewEqualsLiteralRule ''/a/:x'' None = Inr r1 \<and>
     NewEqualsLiteralRule ''/b/:x'' (Some ''1'') = Inr r2 \<and>
     makeStaticRule (NewAndRule insertion_order [r1, r2]) ''/b/7'' (Some ''1'') = Ret (Some (sr, a)) \<and>
     satisfiable sr ''/b/7'' (Some ''1'') \<and> getKeys sr = [''/a/7'', ''/b/7'']"
proof -
  let ?r1 = "projr (NewEqualsLiteralRule ''/a/:x'' None)"
  let ?r2 = "projr (NewEqualsLiteralRule ''/b/:x'' (Some ''1''))"
  let ?r = "NewAndRule insertion_order [?r1, ?r2]"
  let ?make = "makeStaticRule ?r ''/b/7'' (Some ''1'')"
  let ?x = "go_some ?make"
  have r1: "NewEqualsLiteralRule ''/a/:x'' None = Inr ?r1" by (rule Inr_projr) code_simp
  have r2: "NewEqualsLiteralRule ''/b/:x'' (Some ''1'') = Inr ?r2" by (rule Inr_projr) code_simp
  have "go_is_some ?make" by code_simp
  then have make: "?make = Ret (Some (fst ?x, snd ?x))" using go_some_eq by simp
  have b: "built insertion_order ?r"
    by (rule built_and) (use r1 r2 in \<open>auto intro: built_literal\<close>)
  have c: "compound ?r" by code_simp
  have "getKeys (fst ?x) = [''/a/7'', ''/b/7'']" by code_simp
  then show ?thesis using makeStaticRule_sound [OF b c make] r1 r2 make by blast
qed

text \<open>
  C17. For a rule of the constructors whose leaves have one pattern each, all with the same parameters,
  formatting any of its patterns with admissible attribute values (not empty, of the characters a
  parameter matches) gives a key for which the rule is made, and the key is among the keys of the static
  rule. A leaf with several patterns is different: it may take an earlier one
  (\<open>leaf_takes_unanchored_match\<close>).
\<close>

theorem makeStaticRule_complete:
  assumes "built ord r" and "uniform_in P r" and "p \<in> set (getPatterns r)"
    and "\<forall>n \<in> P. \<exists>v. gm_get values n = Some v \<and> attr_value_ok v"
  shows "\<exists>key sr a. FormatWithAttributes p (MapAttributes values) = Ret key \<and>
    makeStaticRule r key v = Ret (Some (sr, a)) \<and> satisfiable sr key v \<and> key \<in> set (getKeys sr)"
proof -
  let ?f = "attr_lookup (MapAttributes values)" and ?key = "path_format (attr_lookup (MapAttributes values)) p"
  note wf = built_wf [OF assms(1)] and fresh = built_fresh [OF assms(1)]
  obtain krp where krp: "krp \<in> set (leaves r)" "p \<in> set (dr_patterns krp)"
    using assms(3) getPatterns_leaves [OF wf] by auto
  have f: "\<And>n. n \<in> P \<Longrightarrow> \<exists>v. ?f n = Some v \<and> attr_value_ok v"
    using assms(4) by (simp add: attr_lookup_def)
  obtain sr a where make: "makeStaticRule r ?key v = Ret (Some (sr, a))" "satisfiable sr ?key v"
    using make_complete [OF wf fresh assms(2) krp, of ?f v] f by blast
  have "keys_nonempty sr"
    using make_inst [OF wf fresh make(1)] uniform_inst_keys [OF wf assms(2)] by simp
  then have "?key \<in> set (getKeys sr)"
    using make(2) keyMatch_iff_getKeys by (simp add: satisfiable_eq_keyMatch)
  moreover have "FormatWithAttributes p (MapAttributes values) = Ret ?key"
    by (rule FormatWithAttributes_attr) simp
  ultimately show ?thesis using make by blast
qed

theorem makeStaticRule_complete_witness:
  "\<exists>r1 r2 key sr a. NewEqualsLiteralRule ''/a/:x'' None = Inr r1 \<and>
     NewEqualsLiteralRule ''/b/:x/c'' (Some ''1'') = Inr r2 \<and>
     FormatWithAttributes ''/b/:x/c'' (MapAttributes [(''x'', ''7'')]) = Ret key \<and>
     makeStaticRule (NewOrRule insertion_order [r1, NewNotRule insertion_order r2]) key None = Ret (Some (sr, a)) \<and>
     key \<in> set (getKeys sr)"
proof -
  let ?r1 = "projr (NewEqualsLiteralRule ''/a/:x'' None)"
  let ?r2 = "projr (NewEqualsLiteralRule ''/b/:x/c'' (Some ''1''))"
  let ?r = "NewOrRule insertion_order [?r1, NewNotRule insertion_order ?r2]"
  have r1: "NewEqualsLiteralRule ''/a/:x'' None = Inr ?r1" by (rule Inr_projr) code_simp
  have r2: "NewEqualsLiteralRule ''/b/:x/c'' (Some ''1'') = Inr ?r2" by (rule Inr_projr) code_simp
  have b: "built insertion_order ?r"
    by (rule built_or) (use r1 r2 in \<open>auto intro: built_literal built_not\<close>)
  have u: "uniform_in {''x''} ?r" by code_simp
  have p: "''/b/:x/c'' \<in> set (getPatterns ?r)" by code_simp
  have v: "\<forall>n \<in> {''x''}. \<exists>v. gm_get [(''x'', ''7'')] n = Some v \<and> attr_value_ok v"
    by (simp add: gm_get_def attr_value_ok_def rx_class_def)
  show ?thesis using makeStaticRule_complete [OF b u p v] r1 r2 by blast
qed

text \<open>
  C37. \<open>getEssentialRepresentations\<close> returns exactly the leaf representations that are true
  under every truth assignment that makes the rule true.
\<close>

theorem getEssentialRepresentations_correct:
  "rep \<in> set (getEssentialRepresentations ord r) \<longleftrightarrow>
     rep \<in> set (getLeafRepresentations ord r) \<and>
     (\<forall>vals. evaluate r vals \<longrightarrow> gm_get vals rep = Some True)"
proof -
  have "(\<forall>vals. evaluate r vals \<longrightarrow> gm_get vals rep = Some True) \<longleftrightarrow> (\<forall>\<nu>. truth r \<nu> \<longrightarrow> \<nu> rep)"
    if rep: "rep \<in> set (getLeafRepresentations ord r)"
  proof (intro iffI allI impI)
    fix \<nu> assume all: "\<forall>vals. evaluate r vals \<longrightarrow> gm_get vals rep = Some True" and t: "truth r \<nu>"
    let ?vals = "map (\<lambda>rep. (rep, \<nu> rep)) (getLeafRepresentations ord r)"
    have get: "gm_get ?vals x = Some (\<nu> x)" if "x \<in> dr_rep ` set (leaves r)" for x
      using that by (simp add: gm_get_def map_of_map_restrict getLeafRepresentations_set)
    have "evaluate r ?vals"
      using t truth_cong [of r "\<lambda>rep. gm_get ?vals rep = Some True" \<nu>] get by (simp add: evaluate_truth)
    then show "\<nu> rep" using all get [of rep] rep by (auto simp: getLeafRepresentations_set)
  qed (auto simp: evaluate_truth)
  then show ?thesis by (auto simp: essential_iff getLeafRepresentations_set)
qed

theorem getEssentialRepresentations_correct_witness:
  "let leaf = (\<lambda>rep. Leaf \<lparr>dr_factory = EqualsRuleFactory, dr_matchers = [], dr_patterns = [],
       dr_prefixes = [], dr_attributes = [], dr_rep = rep\<rparr>);
       r = NewAndRule insertion_order [leaf ''a'', NewOrRule insertion_order [leaf ''a'', leaf ''b'']]
   in ''a'' \<in> set (getEssentialRepresentations insertion_order r) \<and>
      ''a'' \<in> set (getLeafRepresentations insertion_order r) \<and>
      (\<forall>vals. evaluate r vals \<longrightarrow> gm_get vals ''a'' = Some True)"
proof -
  let ?leaf = "\<lambda>rep. Leaf \<lparr>dr_factory = EqualsRuleFactory, dr_matchers = [], dr_patterns = [],
     dr_prefixes = [], dr_attributes = [], dr_rep = rep\<rparr>"
  let ?r = "NewAndRule insertion_order [?leaf ''a'', NewOrRule insertion_order [?leaf ''a'', ?leaf ''b'']]"
  have "''a'' \<in> set (getEssentialRepresentations insertion_order ?r)" by code_simp
  then show ?thesis
    using getEssentialRepresentations_correct [of "''a''" insertion_order ?r] unfolding Let_def by blast
qed

text \<open>
  The crawler skips a pattern only where it cannot find anything: if a rule's representations
  identify its leaves and \<open><nil>\<close> ends only the ones that test for an absent key, then in every
  store in which the rule is satisfied for some attributes, the key of a skipped pattern is absent.
\<close>

theorem getCrawlerPatterns_skips_absent_keys:
  assumes "wf_rule r" and "reps_faithful r" and "attr_wf a"
    and "staticRuleFromAttributes r a = Ret (Some sr)" and "satisfied sr (cacheReadAPI_get kvs) = Inr True"
    and "p \<in> set (getPatterns r)" and "p \<notin> set (getCrawlerPatterns ord r)"
  shows "\<exists>key. FormatWithAttributes p a = Ret key \<and> gm_get kvs key = None"
proof -
  have sr: "sr = inst a r"
    using staticRuleFromAttributes_eq [OF assms(3,1)] assms(4) by (auto split: if_splits)
  have "satisfied sr (cacheReadAPI_get kvs) = Inr (holds sr (gm_get kvs))"
    by (rule satisfied_holds) (simp add: cacheReadAPI_get_def split: option.splits)
  then have "gm_get kvs (path_format (attr_lookup a) p) = None"
    using skipped_pattern_nil [OF assms(1,2) _ assms(6,7)] assms(5) sr by simp
  then show ?thesis using FormatWithAttributes_attr [OF assms(3)] by blast
qed

theorem getCrawlerPatterns_skips_absent_keys_witness:
  "\<exists>r1 r2 key. NewEqualsLiteralRule ''/a/:x'' None = Inr r1 \<and>
     NewEqualsLiteralRule ''/b/:x'' (Some ''1'') = Inr r2 \<and>
     getCrawlerPatterns insertion_order (NewAndRule insertion_order [r1, r2]) = [''/b/:x''] \<and>
     FormatWithAttributes ''/a/:x'' (MapAttributes [(''x'', ''7'')]) = Ret key \<and>
     gm_get [(''/b/7'', ''1'')] key = None"
proof -
  let ?r1 = "projr (NewEqualsLiteralRule ''/a/:x'' None)"
  let ?r2 = "projr (NewEqualsLiteralRule ''/b/:x'' (Some ''1''))"
  let ?r = "NewAndRule insertion_order [?r1, ?r2]"
  let ?a = "MapAttributes [(''x'', ''7'')]"
  let ?sr = "go_some (staticRuleFromAttributes ?r ?a)"
  have r1: "NewEqualsLiteralRule ''/a/:x'' None = Inr ?r1" by (rule Inr_projr) code_simp
  have r2: "NewEqualsLiteralRule ''/b/:x'' (Some ''1'') = Inr ?r2" by (rule Inr_projr) code_simp
  have b: "built insertion_order ?r"
    by (rule built_and) (use r1 r2 in \<open>auto intro: built_literal\<close>)
  obtain k1 k2 where k: "?r1 = Leaf k1" "?r2 = Leaf k2"
    "\<exists>t. dr_factory k1 = CompareLiteralRuleFactory (newEqualsComparator None) t"
    using NewEqualsLiteralRule_leaf [OF r1] NewEqualsLiteralRule_leaf [OF r2] by blast
  then have leaves: "leaves ?r = [k1, k2]"
    by (simp add: NewAndRule_def newCompoundDynamicRule_def)
  have "list_all2 (\<lambda>k b. strings_HasSuffix (dr_rep k) ''<nil>'' = b) (leaves ?r) [True, False]"
    "distinct (map dr_rep (leaves ?r))" by code_simp+
  then have f: "reps_faithful ?r" using k(3) unfolding leaves reps_faithful_def by simp
  have "go_is_some (staticRuleFromAttributes ?r ?a)" by code_simp
  note sr = go_some_eq [OF this]
  have sat: "satisfied ?sr (cacheReadAPI_get [(''/b/7'', ''1'')]) = Inr True" by code_simp
  have c: "getCrawlerPatterns insertion_order ?r = [''/b/:x'']" by code_simp
  then have p: "''/a/:x'' \<notin> set (getCrawlerPatterns insertion_order ?r)" by simp
  have q: "''/a/:x'' \<in> set (getPatterns ?r)" by code_simp
  have wfa: "attr_wf ?a" by simp
  show ?thesis
    using getCrawlerPatterns_skips_absent_keys [OF built_wf [OF b] f wfa sr sat q p] r1 r2 c by blast
qed

text \<open>
  Without that assumption the crawler can skip keys that matter: a rule of
  \<open>NewCompareLiteralRule\<close> that tests for a present key, and says so in its template, loses its
  pattern because the text ends in \<open><nil>\<close>, although the rule is satisfied.
\<close>

theorem getCrawlerPatterns_skips_present_key:
  "\<exists>r sr a. NewCompareLiteralRule ''/a/:x'' (Some (\<lambda>v. v \<noteq> None)) ''%s != <nil>'' = Inr r \<and>
     makeStaticRule r ''/a/7'' (Some ''1'') = Ret (Some (sr, a)) \<and>
     satisfied sr (cacheReadAPI_get [(''/a/7'', ''1'')]) = Inr True \<and>
     getPatterns r = [''/a/:x''] \<and> getCrawlerPatterns ord r = []"
proof -
  let ?r = "projr (NewCompareLiteralRule ''/a/:x'' (Some (\<lambda>v. v \<noteq> None)) ''%s != <nil>'')"
  have r: "NewCompareLiteralRule ''/a/:x'' (Some (\<lambda>v. v \<noteq> None)) ''%s != <nil>'' = Inr ?r"
    by (rule Inr_projr) code_simp
  let ?m = "makeStaticRule ?r ''/a/7'' (Some ''1'')"
  have "go_is_some ?m" by code_simp
  then have m: "?m = Ret (Some (fst (go_some ?m), snd (go_some ?m)))"
    using go_some_eq by simp
  have s: "satisfied (fst (go_some ?m)) (cacheReadAPI_get [(''/a/7'', ''1'')]) = Inr True" by code_simp
  have p: "getPatterns ?r = [''/a/:x'']" by code_simp
  have c: "getCrawlerPatterns insertion_order ?r = []" by code_simp
  have "set (getCrawlerPatterns ord ?r) = set (getCrawlerPatterns insertion_order ?r)"
    unfolding getCrawlerPatterns_set ..
  then have "getCrawlerPatterns ord ?r = []" unfolding c by (simp only: list.set(1) set_empty)
  then show ?thesis using r m s p by blast
qed

text \<open>
  The comment of \<open>RuleSatisfied\<close> promises an error when the trigger key lacks a path
  variable of the rule. An equality rule over two patterns, triggered by a key of the first, has no
  value for \<open>:y\<close>, yet no error is returned: the rule is evaluated on the key
  \<open>/b/1/:y\<close> with the parameter left in place.
\<close>

theorem RuleSatisfied_missing_variable:
  "\<exists>r sr a. NewEqualsRule [''/a/:x'', ''/b/:x/:y''] = Inr r \<and>
     makeStaticRule r ''/a/1'' (Some ''v'') = Ret (Some (sr, a)) \<and>
     getKeys sr = [''/a/1'', ''/b/1/:y''] \<and> FindAttribute a ''y'' = Ret None \<and>
     RuleSatisfied r ''/a/1'' (Some ''v'') [(''/a/1'', ''v''), (''/b/1/2'', ''v'')] = Ret (Inr False)"
proof -
  let ?r = "projr (NewEqualsRule [''/a/:x'', ''/b/:x/:y''])"
  have r: "NewEqualsRule [''/a/:x'', ''/b/:x/:y''] = Inr ?r" by (rule Inr_projr) code_simp
  let ?m = "makeStaticRule ?r ''/a/1'' (Some ''v'')"
  have "go_is_some ?m" by code_simp
  then have m: "?m = Ret (Some (fst (go_some ?m), snd (go_some ?m)))"
    using go_some_eq by simp
  have k: "getKeys (fst (go_some ?m)) = [''/a/1'', ''/b/1/:y'']" by code_simp
  have f: "FindAttribute (snd (go_some ?m)) ''y'' = Ret None" by code_simp
  have s: "RuleSatisfied ?r ''/a/1'' (Some ''v'') [(''/a/1'', ''v''), (''/b/1/2'', ''v'')] = Ret (Inr False)"
    by code_simp
  show ?thesis using r m k f s by blast
qed

text \<open>
  Matching is not anchored, and a leaf takes the first pattern that matches anywhere in the
  key. An equality rule over \<open>/a/:x\<close> and \<open>/:y/a/:z\<close> is therefore made for the key
  \<open>/b/a/1\<close> with the attributes of the first pattern, although the key is an instance of the
  second one only, and the rule then rejects its own trigger key.
\<close>

theorem leaf_takes_unanchored_match:
  "\<exists>r sr a. NewEqualsRule [''/a/:x'', ''/:y/a/:z''] = Inr r \<and>
     FormatWithAttributes ''/:y/a/:z'' (MapAttributes [(''y'', ''b''), (''z'', ''1'')]) = Ret ''/b/a/1'' \<and>
     makeStaticRule r ''/b/a/1'' (Some ''v'') = Ret (Some (sr, a)) \<and>
     getKeys sr = [''/a/1'', ''/:y/a/:z''] \<and> \<not> satisfiable sr ''/b/a/1'' (Some ''v'')"
proof -
  let ?r = "projr (NewEqualsRule [''/a/:x'', ''/:y/a/:z''])"
  have r: "NewEqualsRule [''/a/:x'', ''/:y/a/:z''] = Inr ?r" by (rule Inr_projr) code_simp
  have f: "FormatWithAttributes ''/:y/a/:z'' (MapAttributes [(''y'', ''b''), (''z'', ''1'')]) = Ret ''/b/a/1''"
    by code_simp
  let ?m = "makeStaticRule ?r ''/b/a/1'' (Some ''v'')"
  have "go_is_some ?m" by code_simp
  then have m: "?m = Ret (Some (fst (go_some ?m), snd (go_some ?m)))"
    using go_some_eq by simp
  have k: "getKeys (fst (go_some ?m)) = [''/a/1'', ''/:y/a/:z'']" by code_simp
  have s: "\<not> satisfiable (fst (go_some ?m)) ''/b/a/1'' (Some ''v'')" by code_simp
  show ?thesis using r m k f s by blast
qed

end
