(* ===== verification/Expansion.thy ===== *)
theory Expansion
  imports DynamicRule
begin

text \<open>
  Rule expansion of \<open>rules/dynamic_rule.go\<close> (\<open>Expand\<close>, \<open>expand\<close>) and \<open>FormatRuleString\<close>.
  A rule is replaced by one rule for every choice of values for the parameters of a value map. The
  recursion of the code is on new rules and does not end for every value map, so \<open>Expand\<close> takes a
  budget of nested calls and is \<open>Diverge\<close> when it is used up; the budget that is enough for
  values without colons and slashes is the height of the rule plus the number of its parameters in
  the map plus one.
\<close>

section \<open>Definitions\<close>

type_synonym value_map = "(string, string list) gomap"
type_synonym expander = "dynamic_rule \<Rightarrow> value_map \<Rightarrow> (dynamic_rule list \<times> bool) go"

text \<open>The parameters of a leaf, as the keys of the map \<open>params\<close>.\<close>

definition expand_params :: "string range_order \<Rightarrow> dynamicRule \<Rightarrow> string list" where
  "expand_params ord krp =
     range_in ord (gm_keys (fold (\<lambda>pattern m.
       case parsePath pattern of (fieldsToParams, _) \<Rightarrow>
         fold (\<lambda>param m. gm_put m param ([] :: string)) (range_in ord (gm_keys fieldsToParams)) m) (dr_patterns krp) []))"

text \<open>
  The rules for one value of a parameter. A value that gives no valid pattern gives no rule. The
  model knows only patterns of plain characters as valid.
\<close>

definition expand_value :: "expander \<Rightarrow> dynamicRule \<Rightarrow> value_map \<Rightarrow> string \<Rightarrow> string \<Rightarrow> dynamic_rule list go" where
  "expand_value Exp krp valueMap param v =
     go_bind (go_collect (map (\<lambda>pattern. FormatWithAttributes pattern (MapAttributes [(param, v)])) (dr_patterns krp)))
       (\<lambda>newPatterns.
          let newAttributes = dr_attributes krp @ [\<lparr>attr_key = param, attr_value = v\<rparr>];
              rep = strings_ReplaceAll (dr_rep krp) (''/:'' @ param @ ''/'') (''/'' @ v @ ''/'')
          in case newDynamicRule (dr_factory krp) newPatterns rep newAttributes of
               Inl err \<Rightarrow> Ret []
             | Inr rule \<Rightarrow> go_bind (Exp (Leaf rule) valueMap) (\<lambda>(exp, _). Ret exp))"

text \<open>\<open>Expand\<close> of a leaf: the first parameter that is in the map; the others are left to the nested calls.\<close>

definition leaf_Expand ::
  "string range_order \<Rightarrow> expander \<Rightarrow> dynamicRule \<Rightarrow> value_map \<Rightarrow> (dynamic_rule list \<times> bool) go" where
  "leaf_Expand ord Exp krp valueMap =
     (case find (\<lambda>param. gm_get valueMap param \<noteq> None) (expand_params ord krp) of
        None \<Rightarrow> Ret ([Leaf krp], False)
      | Some param \<Rightarrow>
          go_bind (go_collect (map (expand_value Exp krp valueMap param)
              (case gm_get valueMap param of Some vs \<Rightarrow> vs | None \<Rightarrow> [])))
            (\<lambda>outs. Ret (concat outs, True)))"

text \<open>The inner loop of \<open>expand\<close>: the nested rules under one value; \<open>expandedRule[0]\<close> may not exist.\<close>

definition expand_nested ::
  "expander \<Rightarrow> dynamic_rule list \<Rightarrow> string \<Rightarrow> string \<Rightarrow> (dynamic_rule \<times> bool) list go" where
  "expand_nested Exp nested key v =
     go_collect (map (\<lambda>n. go_bind (Exp n [(key, [v])]) (\<lambda>(expandedRule, gotExpanded).
       case expandedRule of [] \<Rightarrow> Panic | r # _ \<Rightarrow> Ret (r, gotExpanded))) nested)"

primrec compound_expand ::
  "expander \<Rightarrow> (dynamic_rule list \<Rightarrow> dynamic_rule) \<Rightarrow> dynamic_rule list \<Rightarrow> dynamic_rule \<Rightarrow> value_map \<Rightarrow>
   string list \<Rightarrow> (dynamic_rule list \<times> bool) go" where
  "compound_expand Exp con nested dr valueMap [] = Ret ([dr], False)"
| "compound_expand Exp con nested dr valueMap (key # keys) =
     go_bind (go_collect (map (expand_nested Exp nested key)
         (case gm_get valueMap key of Some vs \<Rightarrow> vs | None \<Rightarrow> [])))
       (\<lambda>results.
          if list_ex (list_ex snd) results then
            go_bind (go_collect (map (\<lambda>res. Exp (con (map fst res)) valueMap) results))
              (\<lambda>outs. Ret (concat (map fst outs), True))
          else compound_expand Exp con nested dr valueMap keys)"

text \<open>\<open>newNotRule\<close>, as \<open>expand\<close> calls it with the one nested rule.\<close>

definition newNotRule :: "string range_order \<Rightarrow> dynamic_rule list \<Rightarrow> dynamic_rule" where
  "newNotRule ord rules = (case newCompoundDynamicRule ord rules of (ps, fs) \<Rightarrow> NotDynamicRule (hd rules) ps fs)"

primrec Expand :: "string range_order \<Rightarrow> nat \<Rightarrow> expander" where
  "Expand ord 0 = (\<lambda>r valueMap. Diverge)"
| "Expand ord (Suc n) = (\<lambda>r valueMap.
     case r of
       Leaf krp \<Rightarrow> leaf_Expand ord (Expand ord n) krp valueMap
     | AndDynamicRule rs ps fs \<Rightarrow>
         compound_expand (Expand ord n) (NewAndRule ord) rs r valueMap (range_in ord (gm_keys valueMap))
     | OrDynamicRule rs ps fs \<Rightarrow>
         compound_expand (Expand ord n) (NewOrRule ord) rs r valueMap (range_in ord (gm_keys valueMap))
     | NotDynamicRule r' ps fs \<Rightarrow>
         compound_expand (Expand ord n) (newNotRule ord) [r'] r valueMap (range_in ord (gm_keys valueMap)))"

text \<open>
  \<open>FormatRuleString\<close>; \<open>strings.Repeat\<close> panics when the count is negative. The text is read byte
  by byte: the code reads runes and writes them back unchanged, and only looks for parentheses.
\<close>

primrec formatRule_loop :: "string \<Rightarrow> string \<times> int \<Rightarrow> string go" where
  "formatRule_loop [] st = Ret (fst st)"
| "formatRule_loop (char # cs) st =
     (case st of (out, indent) \<Rightarrow>
        let indent1 = (if char = CHR '')'' then indent - 1 else indent)
        in if char = CHR '')'' \<and> indent1 < 0 then Panic
           else
             let out1 = (if char = CHR '')'' then out @ [CHR 0x0A] @ replicate (nat (indent1 * 4)) CHR '' '' else out);
                 out2 = out1 @ [char];
                 indent2 = (if char = CHR ''('' then indent1 + 1 else indent1);
                 out3 = (if char = CHR ''('' then out2 @ [CHR 0x0A] @ replicate (nat (indent2 * 4)) CHR '' '' else out2)
             in formatRule_loop cs (out3, indent2))"

definition FormatRuleString :: "string \<Rightarrow> string go" where
  "FormatRuleString s = formatRule_loop s ([], 0)"

section \<open>Substituting values for parameters\<close>

text \<open>The values of the map are single plain segments, and each parameter of the map has one.\<close>

definition value_ok :: "string \<Rightarrow> bool" where
  "value_ok v \<longleftrightarrow> attr_value_ok v \<and> list_all rx_plain v"

definition vm_ok :: "value_map \<Rightarrow> bool" where
  "vm_ok vm \<longleftrightarrow> list_all (\<lambda>(k, vs). vs \<noteq> [] \<and> list_all value_ok vs) vm"

definition subst_ok :: "(string \<Rightarrow> string option) \<Rightarrow> bool" where
  "subst_ok \<sigma> \<longleftrightarrow> (\<forall>n v. \<sigma> n = Some v \<longrightarrow> value_ok v)"

lemma subst_ok_single [simp]: "subst_ok [n \<mapsto> v] \<longleftrightarrow> value_ok v"
  by (simp add: subst_ok_def)

lemma strings_Split_slash_led:
  "slash \<notin> set s \<Longrightarrow> strings_Split (s @ slash # t) slash = s # strings_Split t slash"
  by (induction s) auto

lemma strings_Split_no_slash: "slash \<notin> set s \<Longrightarrow> strings_Split s slash = [s]"
  by (induction s) auto

lemma segments_concat:
  "(\<forall>s \<in> set ss. s \<noteq> [] \<and> slash \<notin> set s) \<Longrightarrow> segments (concat (map ((#) slash) ss)) = ss"
proof -
  have "strings_Split (concat (map ((#) slash) ss)) slash = [] # ss"
    if "\<forall>s \<in> set ss. slash \<notin> set s" for ss
    using that
  proof (induction ss)
    case (Cons s ss)
    show ?case
    proof (cases ss)
      case Nil
      then show ?thesis using Cons.prems by (simp add: strings_Split_no_slash)
    next
      case (Cons s' ss')
      have "strings_Split (s @ concat (map ((#) slash) ss)) slash = s # ss"
        using Cons.IH Cons.prems strings_Split_slash_led [of s] by (simp add: Cons)
      then show ?thesis by simp
    qed
  qed simp
  then show "(\<forall>s \<in> set ss. s \<noteq> [] \<and> slash \<notin> set s) \<Longrightarrow> segments (concat (map ((#) slash) ss)) = ss"
    by (simp add: segments_def)
qed

text \<open>The segment a segment becomes.\<close>

definition seg_subst :: "(string \<Rightarrow> string option) \<Rightarrow> string \<Rightarrow> string" where
  "seg_subst f s = (if is_param s then (case f (tl s) of Some v \<Rightarrow> v | None \<Rightarrow> s) else s)"

lemma path_format_subst: "path_format f p = concat (map ((#) slash) (map (seg_subst f) (segments p)))"
proof -
  have "seg_format f = (\<lambda>s. slash # seg_subst f s)" by (rule ext) (simp add: seg_format_def seg_subst_def)
  then show ?thesis by (simp add: path_format_def comp_def)
qed

lemma value_ok_simps:
  assumes "value_ok v"
  shows "v \<noteq> []" and "slash \<notin> set v" and "\<not> is_param v" and "list_all rx_plain v"
proof -
  have "rx_class c" if "c \<in> set v" for c
    using assms that by (simp add: value_ok_def attr_value_ok_def list_all_iff)
  from this [of slash] this [of colon] have "slash \<notin> set v" "colon \<notin> set v" by (auto simp: rx_class_def)
  then show "slash \<notin> set v" "\<not> is_param v" by (auto simp: is_param_iff)
qed (use assms in \<open>simp_all add: value_ok_def attr_value_ok_def\<close>)

lemma seg_subst_ok:
  assumes "subst_ok \<sigma>" and "s \<in> set (segments p)"
  shows "seg_subst \<sigma> s \<noteq> []" and "slash \<notin> set (seg_subst \<sigma> s)"
  using assms segments_nonempty segments_no_slash value_ok_simps
  by (auto simp: seg_subst_def subst_ok_def split: option.splits)

lemma segments_path_format: "subst_ok \<sigma> \<Longrightarrow> segments (path_format \<sigma> p) = map (seg_subst \<sigma>) (segments p)"
  unfolding path_format_subst by (rule segments_concat) (auto simp: seg_subst_ok)

lemma normal_path_format: "subst_ok \<sigma> \<Longrightarrow> normal_path (path_format \<sigma> p)"
  by (simp only: normal_path_def segments_path_format) (simp add: path_format_subst)

lemma seg_subst_param:
  "subst_ok \<sigma> \<Longrightarrow> is_param (seg_subst \<sigma> s) \<longleftrightarrow> is_param s \<and> \<sigma> (tl s) = None"
  using value_ok_simps(3) by (auto simp: seg_subst_def subst_ok_def split: option.splits)

lemma params_path_format: "subst_ok \<sigma> \<Longrightarrow> params (path_format \<sigma> p) = filter (\<lambda>n. \<sigma> n = None) (params p)"
proof -
  assume ok: "subst_ok \<sigma>"
  have "map tl (filter is_param (map (seg_subst \<sigma>) ss)) = filter (\<lambda>n. \<sigma> n = None) (map tl (filter is_param ss))" for ss
    by (induction ss) (auto simp: seg_subst_param [OF ok], auto simp: seg_subst_def)
  then show ?thesis by (simp add: params_def segments_path_format [OF ok])
qed

lemma plain_path_format: "subst_ok \<sigma> \<Longrightarrow> plain_pattern p \<Longrightarrow> plain_pattern (path_format \<sigma> p)"
  using value_ok_simps(4)
  by (auto simp: plain_pattern_def segments_path_format seg_subst_def subst_ok_def split: option.splits)

lemma path_format_comp: "subst_ok \<sigma> \<Longrightarrow> path_format \<tau> (path_format \<sigma> p) = path_format (\<tau> ++ \<sigma>) p"
proof -
  assume ok: "subst_ok \<sigma>"
  have "seg_subst \<tau> (seg_subst \<sigma> s) = seg_subst (\<tau> ++ \<sigma>) s" for s
    using ok value_ok_simps(3) by (auto simp: seg_subst_def subst_ok_def map_add_def split: option.splits)
  then show ?thesis
    by (simp only: path_format_subst [of _ "path_format \<sigma> p"] segments_path_format [OF ok])
      (simp add: path_format_subst comp_def)
qed

lemma path_format_unchanged:
  assumes "normal_path p" and "\<And>n. n \<in> set (params p) \<Longrightarrow> f n = None"
  shows "path_format f p = p"
proof -
  have "seg_subst f s = s" if "s \<in> set (segments p)" for s
    using assms(2) that by (auto simp: seg_subst_def params_def split: option.splits)
  then have "map (seg_subst f) (segments p) = segments p" by (simp add: map_idI)
  then show ?thesis using assms(1) by (simp add: path_format_subst normal_path_def)
qed

section \<open>The rules an expansion stands for\<close>

text \<open>
  \<open>expands \<sigma> r r'\<close>: the rule \<open>r'\<close> is \<open>r\<close> with the parameters of \<open>\<sigma>\<close> replaced in every
  pattern, and each leaf remembers the values of its own parameters as attributes.
\<close>

definition leaf_expands :: "(string \<Rightarrow> string option) \<Rightarrow> dynamicRule \<Rightarrow> dynamicRule \<Rightarrow> bool" where
  "leaf_expands \<sigma> krp krp' \<longleftrightarrow>
     wf_leaf krp' \<and> fresh_leaf krp' \<and> dr_factory krp' = dr_factory krp \<and>
     dr_patterns krp' = map (path_format \<sigma>) (dr_patterns krp) \<and>
     (\<forall>n. nesting_find (dr_attributes krp') n =
        (case nesting_find (dr_attributes krp) n of Some v \<Rightarrow> Some v
         | None \<Rightarrow> if n \<in> leaf_params krp then \<sigma> n else None))"

inductive expands :: "(string \<Rightarrow> string option) \<Rightarrow> dynamic_rule \<Rightarrow> dynamic_rule \<Rightarrow> bool" for \<sigma> where
  expands_leaf: "leaf_expands \<sigma> krp krp' \<Longrightarrow> expands \<sigma> (Leaf krp) (Leaf krp')"
| expands_and: "list_all2 (expands \<sigma>) rs rs' \<Longrightarrow> wf_rule (AndDynamicRule rs' ps' fs') \<Longrightarrow>
    expands \<sigma> (AndDynamicRule rs ps fs) (AndDynamicRule rs' ps' fs')"
| expands_or: "list_all2 (expands \<sigma>) rs rs' \<Longrightarrow> wf_rule (OrDynamicRule rs' ps' fs') \<Longrightarrow>
    expands \<sigma> (OrDynamicRule rs ps fs) (OrDynamicRule rs' ps' fs')"
| expands_not: "expands \<sigma> r r' \<Longrightarrow> expands \<sigma> (NotDynamicRule r ps fs) (NotDynamicRule r' ps' fs')"

inductive_cases expands_LeafE: "expands \<sigma> (Leaf krp) r'"
inductive_cases expands_AndE: "expands \<sigma> (AndDynamicRule rs ps fs) r'"
inductive_cases expands_OrE: "expands \<sigma> (OrDynamicRule rs ps fs) r'"
inductive_cases expands_NotE: "expands \<sigma> (NotDynamicRule r ps fs) r'"

lemmas expands_cases = expands_LeafE expands_AndE expands_OrE expands_NotE

primrec rule_height :: "dynamic_rule \<Rightarrow> nat" where
  "rule_height (Leaf krp) = 0"
| "rule_height (AndDynamicRule rs ps fs) = Suc (foldr max (map rule_height rs) 0)"
| "rule_height (OrDynamicRule rs ps fs) = Suc (foldr max (map rule_height rs) 0)"
| "rule_height (NotDynamicRule r ps fs) = Suc (rule_height r)"

lemma foldr_max_mem: "x \<in> set xs \<Longrightarrow> x \<le> foldr max xs (0 :: nat)"
  by (induction xs) auto

lemma list_all2_leaves:
  "list_all2 (\<lambda>r r'. list_all2 P (leaves r) (leaves r')) rs rs' \<Longrightarrow>
     list_all2 P (concat (map leaves rs)) (concat (map leaves rs'))"
  by (induction rule: list_all2_induct) (auto intro: list_all2_appendI)

text \<open>Whether a rule is an expansion of another is decided at the leaves.\<close>

lemma expands_leaves: "expands \<sigma> r r' \<Longrightarrow> list_all2 (leaf_expands \<sigma>) (leaves r) (leaves r')"
proof (induction rule: expands.induct)
  case (expands_and rs rs' ps' fs' ps fs)
  then have "list_all2 (\<lambda>r r'. list_all2 (leaf_expands \<sigma>) (leaves r) (leaves r')) rs rs'"
    by (auto elim: list_all2_mono)
  then show ?case using list_all2_leaves by auto
next
  case (expands_or rs rs' ps' fs' ps fs)
  then have "list_all2 (\<lambda>r r'. list_all2 (leaf_expands \<sigma>) (leaves r) (leaves r')) rs rs'"
    by (auto elim: list_all2_mono)
  then show ?case using list_all2_leaves by auto
qed auto

lemma expands_wf: "expands \<sigma> r r' \<Longrightarrow> wf_rule r'"
  by (induction rule: expands.induct) (auto simp: leaf_expands_def)

lemma expands_fresh: "expands \<sigma> r r' \<Longrightarrow> fresh_attributes r'"
  using expands_leaves [of \<sigma> r r']
  by (auto simp: fresh_attributes_def list_all_length list_all2_conv_all_nth leaf_expands_def)

lemma list_all2_eq_map: "list_all2 (\<lambda>x y. f x = g y) xs ys \<Longrightarrow> map f xs = map g ys"
  by (induction rule: list_all2_induct) auto

lemma expands_height: "expands \<sigma> r r' \<Longrightarrow> rule_height r' = rule_height r"
proof (induction rule: expands.induct)
  case (expands_and rs rs' ps' fs' ps fs)
  then have "list_all2 (\<lambda>r r'. rule_height r = rule_height r') rs rs'" by (auto elim: list_all2_mono)
  from list_all2_eq_map [OF this] show ?case by simp
next
  case (expands_or rs rs' ps' fs' ps fs)
  then have "list_all2 (\<lambda>r r'. rule_height r = rule_height r') rs rs'" by (auto elim: list_all2_mono)
  from list_all2_eq_map [OF this] show ?case by simp
qed auto

lemma leaf_expands_params:
  assumes "subst_ok \<sigma>" and "leaf_expands \<sigma> krp krp'"
  shows "leaf_params krp' = {n \<in> leaf_params krp. \<sigma> n = None}"
  using assms by (auto simp: leaf_params_def leaf_expands_def params_path_format)

lemma expands_params:
  assumes "subst_ok \<sigma>" and "expands \<sigma> r r'"
  shows "rule_params r' = {n \<in> rule_params r. \<sigma> n = None}"
proof -
  have "map (\<lambda>k. {n \<in> leaf_params k. \<sigma> n = None}) (leaves r) = map leaf_params (leaves r')"
    using expands_leaves [OF assms(2)]
    by (intro list_all2_eq_map) (auto elim!: list_all2_mono dest: leaf_expands_params [OF assms(1)])
  from arg_cong [OF this, of "\<lambda>xs. \<Union> (set xs)"]
  have "(\<Union>k \<in> set (leaves r'). leaf_params k) = (\<Union>k \<in> set (leaves r). {n \<in> leaf_params k. \<sigma> n = None})" by simp
  then show ?thesis by (auto simp: rule_params_def)
qed

text \<open>Rules whose patterns are normal.\<close>

definition normal_rule :: "dynamic_rule \<Rightarrow> bool" where
  "normal_rule r \<longleftrightarrow> list_all (\<lambda>krp. list_all normal_path (dr_patterns krp)) (leaves r)"

lemma expands_normal: "subst_ok \<sigma> \<Longrightarrow> expands \<sigma> r r' \<Longrightarrow> normal_rule r'"
  using expands_leaves [of \<sigma> r r'] normal_path_format
  by (fastforce simp: normal_rule_def list_all_length list_all2_conv_all_nth leaf_expands_def)

lemma leaf_expands_cong:
  assumes "leaf_expands \<sigma> krp krp'" and "\<And>n. n \<in> leaf_params krp \<Longrightarrow> \<sigma> n = \<tau> n"
  shows "leaf_expands \<tau> krp krp'"
proof -
  have "map (path_format \<sigma>) (dr_patterns krp) = map (path_format \<tau>) (dr_patterns krp)"
    using assms(2) by (auto simp: leaf_params_def intro!: path_format_cong)
  then show ?thesis using assms by (simp add: leaf_expands_def split: option.split)
qed

lemma leaf_expands_refl:
  assumes "wf_leaf krp" and "fresh_leaf krp" and "list_all normal_path (dr_patterns krp)"
    and "\<And>n. n \<in> leaf_params krp \<Longrightarrow> \<sigma> n = None"
  shows "leaf_expands \<sigma> krp krp"
proof -
  have "map (path_format \<sigma>) (dr_patterns krp) = dr_patterns krp"
    using assms(3,4) by (auto simp: list_all_iff leaf_params_def intro!: map_idI path_format_unchanged)
  then show ?thesis using assms by (auto simp: leaf_expands_def split: option.splits)
qed

lemma leaf_expands_trans:
  assumes "subst_ok \<sigma>" and "leaf_expands \<sigma> k k1" and "leaf_expands \<tau> k1 k2"
  shows "leaf_expands (\<tau> ++ \<sigma>) k k2"
proof -
  have "nesting_find (dr_attributes k2) n =
      (case nesting_find (dr_attributes k) n of Some v \<Rightarrow> Some v
       | None \<Rightarrow> if n \<in> leaf_params k then (\<tau> ++ \<sigma>) n else None)" for n
    using assms(2,3) leaf_expands_params [OF assms(1,2)]
    by (auto simp: leaf_expands_def map_add_def split: option.splits if_splits)
  then show ?thesis
    using assms path_format_comp [OF assms(1)] by (simp add: leaf_expands_def)
qed

lemma list_all2_trans_on:
  "list_all2 P xs ys \<Longrightarrow> list_all2 Q ys zs \<Longrightarrow> (\<And>x y z. x \<in> set xs \<Longrightarrow> P x y \<Longrightarrow> Q y z \<Longrightarrow> R x z) \<Longrightarrow> list_all2 R xs zs"
proof (induction arbitrary: zs rule: list_all2_induct)
  case (Cons x xs y ys)
  then show ?case by (auto simp: list_all2_Cons1)
qed simp

lemma rule_params_nested:
  "r \<in> set rs \<Longrightarrow> n \<in> rule_params r \<Longrightarrow> n \<in> rule_params (AndDynamicRule rs ps fs)"
  "r \<in> set rs \<Longrightarrow> n \<in> rule_params r \<Longrightarrow> n \<in> rule_params (OrDynamicRule rs ps fs)"
  "n \<in> rule_params r \<Longrightarrow> n \<in> rule_params (NotDynamicRule r ps fs)"
  by (auto simp: rule_params_def)

lemma expands_cong:
  "expands \<sigma> r r' \<Longrightarrow> (\<And>n. n \<in> rule_params r \<Longrightarrow> \<sigma> n = \<tau> n) \<Longrightarrow> expands \<tau> r r'"
proof (induction r arbitrary: r')
  case (Leaf krp)
  then show ?case
    by (auto elim!: expands_LeafE intro!: expands_leaf leaf_expands_cong [of \<sigma> krp _ \<tau>] simp: rule_params_def)
next
  case (AndDynamicRule rs ps fs)
  obtain rs' ps' fs' where r': "r' = AndDynamicRule rs' ps' fs'" "list_all2 (expands \<sigma>) rs rs'"
    using AndDynamicRule.prems(1) by (rule expands_AndE)
  have "list_all2 (expands \<tau>) rs rs'"
    by (rule list.rel_mono_strong [OF r'(2)]) (use AndDynamicRule.IH AndDynamicRule.prems(2) rule_params_nested(1) in blast)
  then show ?case using expands_wf [OF AndDynamicRule.prems(1)] r'(1) by (auto intro: expands_and)
next
  case (OrDynamicRule rs ps fs)
  obtain rs' ps' fs' where r': "r' = OrDynamicRule rs' ps' fs'" "list_all2 (expands \<sigma>) rs rs'"
    using OrDynamicRule.prems(1) by (rule expands_OrE)
  have "list_all2 (expands \<tau>) rs rs'"
    by (rule list.rel_mono_strong [OF r'(2)]) (use OrDynamicRule.IH OrDynamicRule.prems(2) rule_params_nested(2) in blast)
  then show ?case using expands_wf [OF OrDynamicRule.prems(1)] r'(1) by (auto intro: expands_or)
next
  case (NotDynamicRule r ps fs)
  from NotDynamicRule.prems(1) show ?case
    by (rule expands_NotE) (use NotDynamicRule.IH NotDynamicRule.prems(2) rule_params_nested(3) in \<open>auto intro: expands_not\<close>)
qed

lemma expands_refl:
  "wf_rule r \<Longrightarrow> fresh_attributes r \<Longrightarrow> normal_rule r \<Longrightarrow> (\<And>n. n \<in> rule_params r \<Longrightarrow> \<sigma> n = None) \<Longrightarrow> expands \<sigma> r r"
proof (induction r)
  case (Leaf krp)
  then show ?case
    by (auto intro!: expands_leaf leaf_expands_refl simp: fresh_attributes_def normal_rule_def rule_params_def)
next
  case (AndDynamicRule rs ps fs)
  have "expands \<sigma> r r" if "r \<in> set rs" for r
    using AndDynamicRule.IH [OF that] AndDynamicRule.prems that rule_params_nested(1) [OF that]
    by (auto simp: fresh_attributes_def normal_rule_def list_all_iff)
  then show ?case using AndDynamicRule.prems(1) by (auto intro!: expands_and list_all2_all_nthI)
next
  case (OrDynamicRule rs ps fs)
  have "expands \<sigma> r r" if "r \<in> set rs" for r
    using OrDynamicRule.IH [OF that] OrDynamicRule.prems that rule_params_nested(2) [OF that]
    by (auto simp: fresh_attributes_def normal_rule_def list_all_iff)
  then show ?case using OrDynamicRule.prems(1) by (auto intro!: expands_or list_all2_all_nthI)
next
  case (NotDynamicRule r ps fs)
  then show ?case by (auto intro!: expands_not simp: fresh_attributes_def normal_rule_def rule_params_def)
qed

lemma expands_trans:
  assumes ok: "subst_ok \<sigma>"
  shows "expands \<sigma> r r1 \<Longrightarrow> expands \<tau> r1 r2 \<Longrightarrow> expands (\<tau> ++ \<sigma>) r r2"
proof (induction r arbitrary: r1 r2)
  case (Leaf krp)
  then show ?case by (auto elim!: expands_LeafE intro!: expands_leaf leaf_expands_trans [OF ok])
next
  case (AndDynamicRule rs ps fs)
  obtain rs1 ps1 fs1 where r1: "r1 = AndDynamicRule rs1 ps1 fs1" "list_all2 (expands \<sigma>) rs rs1"
    using AndDynamicRule.prems(1) by (rule expands_AndE)
  obtain rs2 ps2 fs2 where r2: "r2 = AndDynamicRule rs2 ps2 fs2" "list_all2 (expands \<tau>) rs1 rs2"
    using AndDynamicRule.prems(2) unfolding r1(1) by (rule expands_AndE)
  show ?case
    using list_all2_trans_on [OF r1(2) r2(2) AndDynamicRule.IH] expands_wf [OF AndDynamicRule.prems(2)]
    unfolding r2(1) by (auto intro: expands_and)
next
  case (OrDynamicRule rs ps fs)
  obtain rs1 ps1 fs1 where r1: "r1 = OrDynamicRule rs1 ps1 fs1" "list_all2 (expands \<sigma>) rs rs1"
    using OrDynamicRule.prems(1) by (rule expands_OrE)
  obtain rs2 ps2 fs2 where r2: "r2 = OrDynamicRule rs2 ps2 fs2" "list_all2 (expands \<tau>) rs1 rs2"
    using OrDynamicRule.prems(2) unfolding r1(1) by (rule expands_OrE)
  show ?case
    using list_all2_trans_on [OF r1(2) r2(2) OrDynamicRule.IH] expands_wf [OF OrDynamicRule.prems(2)]
    unfolding r2(1) by (auto intro: expands_or)
next
  case (NotDynamicRule r ps fs)
  then show ?case by (auto elim!: expands_NotE intro!: expands_not)
qed

section \<open>Choices of values\<close>

text \<open>The parameters of \<open>P\<close> that the map has, each with one of its values.\<close>

definition choices :: "string set \<Rightarrow> value_map \<Rightarrow> (string \<Rightarrow> string option) set" where
  "choices P vm = {\<sigma>. \<forall>n. case \<sigma> n of
     None \<Rightarrow> n \<notin> P \<or> gm_get vm n = None
   | Some v \<Rightarrow> n \<in> P \<and> (\<exists>vs. gm_get vm n = Some vs \<and> v \<in> set vs)}"

definition vm_keys :: "value_map \<Rightarrow> string set" where
  "vm_keys vm = set (gm_keys vm)"

lemma vm_keys_get: "n \<in> vm_keys vm \<longleftrightarrow> gm_get vm n \<noteq> None"
  using gm_get_None_iff [of vm n] by (auto simp: vm_keys_def)

lemma vm_ok_get: "vm_ok vm \<Longrightarrow> gm_get vm n = Some vs \<Longrightarrow> vs \<noteq> [] \<and> (\<forall>v \<in> set vs. value_ok v)"
  by (auto simp: vm_ok_def gm_get_def list_all_iff dest: map_of_SomeD)

lemma choicesD:
  assumes "\<sigma> \<in> choices P vm"
  shows "\<sigma> n = None \<Longrightarrow> n \<notin> P \<or> gm_get vm n = None"
    and "\<sigma> n = Some v \<Longrightarrow> n \<in> P \<and> (\<exists>vs. gm_get vm n = Some vs \<and> v \<in> set vs)"
proof -
  have "case \<sigma> n of None \<Rightarrow> n \<notin> P \<or> gm_get vm n = None
      | Some v \<Rightarrow> n \<in> P \<and> (\<exists>vs. gm_get vm n = Some vs \<and> v \<in> set vs)"
    using assms by (simp add: choices_def)
  then show "\<sigma> n = None \<Longrightarrow> n \<notin> P \<or> gm_get vm n = None"
    "\<sigma> n = Some v \<Longrightarrow> n \<in> P \<and> (\<exists>vs. gm_get vm n = Some vs \<and> v \<in> set vs)" by auto
qed

lemma choicesI:
  assumes "\<And>n. \<sigma> n = None \<Longrightarrow> n \<notin> P \<or> gm_get vm n = None"
    and "\<And>n v. \<sigma> n = Some v \<Longrightarrow> n \<in> P \<and> (\<exists>vs. gm_get vm n = Some vs \<and> v \<in> set vs)"
  shows "\<sigma> \<in> choices P vm"
  using assms by (auto simp: choices_def split: option.splits)

lemma choices_ok: "vm_ok vm \<Longrightarrow> \<sigma> \<in> choices P vm \<Longrightarrow> subst_ok \<sigma>"
  unfolding subst_ok_def using choicesD(2) vm_ok_get by blast

lemma choices_none: "P \<inter> vm_keys vm = {} \<Longrightarrow> \<sigma> \<in> choices P vm \<longleftrightarrow> \<sigma> = Map.empty"
proof
  assume none: "P \<inter> vm_keys vm = {}" and \<sigma>: "\<sigma> \<in> choices P vm"
  show "\<sigma> = Map.empty"
  proof
    fix n show "\<sigma> n = None"
      using choicesD(2) [OF \<sigma>, of n] none vm_keys_get [of n vm] by (cases "\<sigma> n") auto
  qed
qed (auto intro!: choicesI simp: vm_keys_get)

lemma choices_single:
  assumes "\<sigma> \<in> choices P [(key, [v])]" and "n \<in> P"
  shows "\<sigma> n = [key \<mapsto> v] n"
  using choicesD [OF assms(1), of n] assms(2) by (cases "\<sigma> n") (auto simp: gm_get_def split: if_splits)

text \<open>A choice is a value of one parameter and a choice for the others.\<close>

lemma choices_insert:
  assumes "key \<in> P" and "gm_get vm key = Some vs" and "v \<in> set vs" and "\<tau> \<in> choices (P - {key}) vm"
  shows "\<tau> ++ [key \<mapsto> v] \<in> choices P vm"
proof (rule choicesI)
  fix n assume "(\<tau> ++ [key \<mapsto> v]) n = None"
  then show "n \<notin> P \<or> gm_get vm n = None" using choicesD(1) [OF assms(4), of n] by (auto split: if_splits)
next
  fix n w assume "(\<tau> ++ [key \<mapsto> v]) n = Some w"
  then show "n \<in> P \<and> (\<exists>vs. gm_get vm n = Some vs \<and> w \<in> set vs)"
    using choicesD(2) [OF assms(4), of n w] assms(1-3) by (auto split: if_splits)
qed

lemma choices_split:
  assumes "key \<in> P" and "gm_get vm key = Some vs" and "\<sigma> \<in> choices P vm"
  obtains v \<tau> where "v \<in> set vs" and "\<tau> \<in> choices (P - {key}) vm" and "\<sigma> = \<tau> ++ [key \<mapsto> v]"
proof -
  obtain v where v: "\<sigma> key = Some v" using choicesD(1) [OF assms(3), of key] assms(1,2) by auto
  then have "v \<in> set vs" using choicesD(2) [OF assms(3) v] assms(2) by auto
  moreover have "\<sigma>(key := None) \<in> choices (P - {key}) vm"
    by (rule choicesI) (use choicesD [OF assms(3)] in \<open>auto split: if_splits\<close>)
  moreover have "\<sigma> = (\<sigma>(key := None)) ++ [key \<mapsto> v]" using v by (intro ext) simp
  ultimately show thesis using that by blast
qed

section \<open>Expansion is exact\<close>

text \<open>
  The list has one rule for every choice, in some order, and no other rules: the choices can be listed
  along the rules, and no choice comes twice when no parameter has a value twice.
\<close>

definition distinct_values :: "value_map \<Rightarrow> bool" where
  "distinct_values vm \<longleftrightarrow> list_all (\<lambda>(k, vs). distinct vs) vm"

definition expansion_of :: "dynamic_rule \<Rightarrow> value_map \<Rightarrow> dynamic_rule list \<Rightarrow> bool" where
  "expansion_of r vm rules \<longleftrightarrow>
     (\<exists>\<sigma>s. list_all2 (\<lambda>\<sigma>. expands \<sigma> r) \<sigma>s rules \<and> set \<sigma>s = choices (rule_params r) vm \<and>
        (distinct_values vm \<longrightarrow> distinct \<sigma>s))"

lemma list_all2_right_mem: "list_all2 P xs ys \<Longrightarrow> y \<in> set ys \<Longrightarrow> \<exists>x \<in> set xs. P x y"
  by (induction rule: list_all2_induct) auto

lemma expansion_of_mem:
  "expansion_of r vm rules \<Longrightarrow> r' \<in> set rules \<Longrightarrow> \<exists>\<sigma> \<in> choices (rule_params r) vm. expands \<sigma> r r'"
  unfolding expansion_of_def using list_all2_right_mem by metis

lemma expansion_of_none:
  assumes "wf_rule r" and "fresh_attributes r" and "normal_rule r" and "rule_params r \<inter> vm_keys vm = {}"
  shows "expansion_of r vm [r]"
proof -
  have "expands Map.empty r r" using expands_refl [OF assms(1-3)] by simp
  then show ?thesis
    unfolding expansion_of_def using choices_none [OF assms(4)] by (intro exI [of _ "[Map.empty]"]) auto
qed

text \<open>The choices of which one parameter has a given value.\<close>

lemma choices_union:
  assumes "key \<in> P" and "gm_get vm key = Some vs"
  shows "choices P vm = (\<Union>v \<in> set vs. (\<lambda>\<tau>. \<tau> ++ [key \<mapsto> v]) ` choices (P - {key}) vm)"
proof (rule equalityI; rule subsetI)
  fix \<sigma> assume "\<sigma> \<in> choices P vm"
  then show "\<sigma> \<in> (\<Union>v \<in> set vs. (\<lambda>\<tau>. \<tau> ++ [key \<mapsto> v]) ` choices (P - {key}) vm)"
    by (rule choices_split [OF assms]) blast
qed (use choices_insert [OF assms] in blast)

lemma map_add_single_inj:
  assumes "\<tau> key = None" and "\<tau>' key = None" and "\<tau> ++ [key \<mapsto> v] = \<tau>' ++ [key \<mapsto> v']"
  shows "v = v'" and "\<tau> = \<tau>'"
proof -
  show "v = v'" using fun_cong [OF assms(3), of key] by simp
  show "\<tau> = \<tau>'"
  proof
    fix n show "\<tau> n = \<tau>' n" using fun_cong [OF assms(3), of n] assms(1,2) by (cases "n = key") (auto simp: map_add_def)
  qed
qed

lemma distinct_concat_map:
  assumes "distinct vs" and "\<And>v. v \<in> set vs \<Longrightarrow> distinct (f v)"
    and "\<And>v w x. v \<in> set vs \<Longrightarrow> w \<in> set vs \<Longrightarrow> x \<in> set (f v) \<Longrightarrow> x \<in> set (f w) \<Longrightarrow> v = w"
  shows "distinct (concat (map f vs))"
  using assms
proof (induction vs)
  case Nil
  then show ?case by simp
next
  case (Cons v vs)
  have "x \<notin> set (f w)" if "x \<in> set (f v)" "w \<in> set vs" for x w
  proof
    assume "x \<in> set (f w)"
    then have "v = w" using Cons.prems(3) [of v w x] that by simp
    with that(2) Cons.prems(1) show False by simp
  qed
  then have "set (f v) \<inter> set (concat (map f vs)) = {}" by auto
  moreover have "distinct (concat (map f vs))"
  proof (rule Cons.IH)
    show "distinct vs" using Cons.prems(1) by simp
    show "distinct (f w)" if "w \<in> set vs" for w using Cons.prems(2) that by simp
    show "u = w" if "u \<in> set vs" "w \<in> set vs" "x \<in> set (f u)" "x \<in> set (f w)" for u w x
      using Cons.prems(3) [of u w x] that by simp
  qed
  moreover have "distinct (f v)" using Cons.prems(2) by simp
  ultimately show ?case by simp
qed

lemma distinct_choices:
  assumes "distinct vs" and "\<And>v. v \<in> set vs \<Longrightarrow> distinct (S v)"
    and "\<And>v \<tau>. v \<in> set vs \<Longrightarrow> \<tau> \<in> set (S v) \<Longrightarrow> \<tau> key = None"
  shows "distinct (concat (map (\<lambda>v. map (\<lambda>\<tau>. \<tau> ++ [key \<mapsto> v]) (S v)) vs))"
proof (rule distinct_concat_map [OF assms(1)])
  fix v assume v: "v \<in> set vs"
  have "inj_on (\<lambda>\<tau>. \<tau> ++ [key \<mapsto> v]) (set (S v))"
    by (rule inj_onI) (use map_add_single_inj(2) assms(3) [OF v] in metis)
  then show "distinct (map (\<lambda>\<tau>. \<tau> ++ [key \<mapsto> v]) (S v))" using assms(2) [OF v] by (simp only: distinct_map)
next
  fix v w \<sigma> assume vw: "v \<in> set vs" "w \<in> set vs"
    and "\<sigma> \<in> set (map (\<lambda>\<tau>. \<tau> ++ [key \<mapsto> v]) (S v))" "\<sigma> \<in> set (map (\<lambda>\<tau>. \<tau> ++ [key \<mapsto> w]) (S w))"
  then obtain \<tau> \<tau>' where t: "\<tau> \<in> set (S v)" "\<tau>' \<in> set (S w)" "\<tau> ++ [key \<mapsto> v] = \<tau>' ++ [key \<mapsto> w]"
    unfolding set_map by blast
  show "v = w" using map_add_single_inj(1) [OF assms(3) [OF vw(1) t(1)] assms(3) [OF vw(2) t(2)] t(3)] .
qed

lemma list_all2_concat_map:
  "(\<And>x. x \<in> set xs \<Longrightarrow> list_all2 P (f x) (g x)) \<Longrightarrow> list_all2 P (concat (map f xs)) (concat (map g xs))"
  by (induction xs) (auto intro: list_all2_appendI)

lemma expansion_of_step:
  assumes "vm_ok vm" and "key \<in> rule_params r" and "gm_get vm key = Some vs"
    and "\<And>v. v \<in> set vs \<Longrightarrow> expands [key \<mapsto> v] r (R v)"
    and "\<And>v. v \<in> set vs \<Longrightarrow> expansion_of (R v) vm (out v)"
  shows "expansion_of r vm (concat (map out vs))"
proof -
  have ok: "subst_ok [key \<mapsto> v]" if "v \<in> set vs" for v using vm_ok_get [OF assms(1,3)] that by simp
  have params: "rule_params (R v) = rule_params r - {key}" if "v \<in> set vs" for v
    using expands_params [OF ok [OF that] assms(4) [OF that]] by auto
  obtain S where S: "\<And>v. v \<in> set vs \<Longrightarrow> list_all2 (\<lambda>\<tau>. expands \<tau> (R v)) (S v) (out v)"
    "\<And>v. v \<in> set vs \<Longrightarrow> set (S v) = choices (rule_params r - {key}) vm"
    "\<And>v. v \<in> set vs \<Longrightarrow> distinct_values vm \<Longrightarrow> distinct (S v)"
    using assms(5) params unfolding expansion_of_def by metis
  let ?\<sigma>s = "concat (map (\<lambda>v. map (\<lambda>\<tau>. \<tau> ++ [key \<mapsto> v]) (S v)) vs)"
  have "list_all2 (\<lambda>\<sigma>. expands \<sigma> r) ?\<sigma>s (concat (map out vs))"
  proof (rule list_all2_concat_map)
    fix v assume v: "v \<in> set vs"
    show "list_all2 (\<lambda>\<sigma>. expands \<sigma> r) (map (\<lambda>\<tau>. \<tau> ++ [key \<mapsto> v]) (S v)) (out v)"
      unfolding list_all2_map1
      by (rule list_all2_mono [OF S(1) [OF v]]) (rule expands_trans [OF ok [OF v] assms(4) [OF v]])
  qed
  moreover have "set ?\<sigma>s = choices (rule_params r) vm"
    unfolding choices_union [OF assms(2,3)] using S(2) by (simp del: map_add_upd)
  moreover have "distinct ?\<sigma>s" if d: "distinct_values vm"
  proof (rule distinct_choices)
    show "distinct vs" using d assms(3) by (auto simp: distinct_values_def gm_get_def list_all_iff dest: map_of_SomeD)
    show "distinct (S v)" if "v \<in> set vs" for v using S(3) [OF that d] .
    show "\<tau> key = None" if "v \<in> set vs" "\<tau> \<in> set (S v)" for v \<tau>
      using choicesD(2) [of \<tau> "rule_params r - {key}" vm key] S(2) that by (cases "\<tau> key") auto
  qed
  ultimately show ?thesis unfolding expansion_of_def by blast
qed

lemma choices_nonempty: "vm_ok vm \<Longrightarrow> choices P vm \<noteq> {}"
proof -
  assume ok: "vm_ok vm"
  have "(\<lambda>n. if n \<in> P then map_option hd (gm_get vm n) else None) \<in> choices P vm"
    using vm_ok_get [OF ok] by (intro choicesI) (auto split: if_splits)
  then show ?thesis by blast
qed

lemma expansion_of_not_Nil: "vm_ok vm \<Longrightarrow> expansion_of r vm rules \<Longrightarrow> rules \<noteq> []"
  using choices_nonempty [of vm "rule_params r"] by (auto simp: expansion_of_def)

lemma nesting_find_append:
  "nesting_find (as @ bs) n = (case nesting_find as n of Some v \<Rightarrow> Some v | None \<Rightarrow> nesting_find bs n)"
  by (induction as) auto

lemma set_expand_params: "set (expand_params ord krp) = leaf_params krp"
proof -
  have inner: "set (gm_keys (fold (\<lambda>param m. gm_put m param ([] :: string)) xs m)) = set (gm_keys m) \<union> set xs" for xs m
    by (rule keys_fold_put)
  have "set (gm_keys (fold (\<lambda>pattern m. case parsePath pattern of (fieldsToParams, _) \<Rightarrow>
       fold (\<lambda>param m. gm_put m param ([] :: string)) (range_in ord (gm_keys fieldsToParams)) m) ps m)) =
     set (gm_keys m) \<union> (\<Union>p \<in> set ps. set (params p))" for ps m
    by (induction ps arbitrary: m) (auto simp: parsePath_eq inner gm_keys_put_fields)
  from this [of "dr_patterns krp" "[]"] show ?thesis by (simp add: expand_params_def leaf_params_def)
qed

lemma new_matchers_plain: "list_all plain_pattern ps \<Longrightarrow> \<exists>ms. new_matchers ps = Inr ms"
  by (induction ps) (auto simp: newRegexKeyMatcher_plain)

lemma wf_leaf_plain: "wf_leaf krp \<Longrightarrow> p \<in> set (dr_patterns krp) \<Longrightarrow> plain_pattern p"
  using wf_leaf_matchers(3) newRegexKeyMatcher_Inr(1) by blast

text \<open>One value of one parameter of a leaf.\<close>

lemma expand_value_step:
  assumes "wf_leaf krp" and "fresh_leaf krp" and "value_ok v" and "param \<in> leaf_params krp"
  shows "\<exists>k1. leaf_expands [param \<mapsto> v] krp k1 \<and>
    (\<forall>Exp vm. expand_value Exp krp vm param v = go_bind (Exp (Leaf k1) vm) (\<lambda>(exp, _). Ret exp))"
proof -
  let ?ps = "map (path_format [param \<mapsto> v]) (dr_patterns krp)"
  let ?as = "dr_attributes krp @ [\<lparr>attr_key = param, attr_value = v\<rparr>]"
  let ?rep = "strings_ReplaceAll (dr_rep krp) (''/:'' @ param @ ''/'') (''/'' @ v @ ''/'')"
  have ok: "subst_ok [param \<mapsto> v]" using assms(3) by simp
  have lookup: "attr_lookup (MapAttributes [(param, v)]) = [param \<mapsto> v]"
    by (rule ext) (simp add: attr_lookup_def gm_get_def)
  have "go_collect (map (\<lambda>p. FormatWithAttributes p (MapAttributes [(param, v)])) (dr_patterns krp)) = Ret ?ps"
    by (rule go_collect_cong_Ret) (simp add: FormatWithAttributes_attr lookup)
  moreover have "list_all plain_pattern ?ps"
    using wf_leaf_plain [OF assms(1)] plain_path_format [OF ok] by (auto simp: list_all_iff)
  then obtain ms where "new_matchers ?ps = Inr ms" using new_matchers_plain by blast
  then obtain k1 where k1: "newDynamicRule (dr_factory krp) ?ps ?rep ?as = Inr k1" by (simp add: newDynamicRule_def)
  ultimately have step: "expand_value Exp krp vm param v = go_bind (Exp (Leaf k1) vm) (\<lambda>(exp, _). Ret exp)" for Exp vm
    by (simp add: expand_value_def)
  have "dr_factory krp = EqualsRuleFactory \<or> length ?ps = 1" using assms(1) by (auto simp: wf_leaf_def)
  note new = newDynamicRule_Inr [OF k1 this]
  have "leaf_params k1 = leaf_params krp - {param}"
    using params_path_format [OF ok] by (auto simp: leaf_params_def new(2))
  then have "fresh_leaf k1" using assms(2) by (auto simp: fresh_leaf_def new(4) list_all_iff)
  moreover have "nesting_find (dr_attributes k1) n = (case nesting_find (dr_attributes krp) n of Some v \<Rightarrow> Some v
      | None \<Rightarrow> if n \<in> leaf_params krp then [param \<mapsto> v] n else None)" for n
    using assms(4) by (auto simp: new(4) nesting_find_append split: option.splits)
  ultimately have "leaf_expands [param \<mapsto> v] krp k1" using new by (simp add: leaf_expands_def)
  then show ?thesis using step by blast
qed

text \<open>What a call with enough budget returns.\<close>

definition expands_all :: "string range_order \<Rightarrow> nat \<Rightarrow> dynamic_rule \<Rightarrow> value_map \<Rightarrow> bool" where
  "expands_all ord n r vm \<longleftrightarrow>
     (\<exists>rules. Expand ord n r vm = Ret (rules, rule_params r \<inter> vm_keys vm \<noteq> {}) \<and> expansion_of r vm rules)"

text \<open>The rules for which the expansion is described.\<close>

definition expandable :: "dynamic_rule \<Rightarrow> bool" where
  "expandable r \<longleftrightarrow> wf_rule r \<and> fresh_attributes r \<and> normal_rule r"

lemma expandable_expands: "subst_ok \<sigma> \<Longrightarrow> expands \<sigma> r r' \<Longrightarrow> expandable r'"
  by (simp add: expandable_def expands_wf expands_fresh expands_normal)

lemma go_collect_outs:
  assumes "\<And>x. x \<in> set xs \<Longrightarrow> \<exists>out. f x = Ret out \<and> P x out"
  shows "\<exists>g. go_collect (map f xs) = Ret (map g xs) \<and> (\<forall>x \<in> set xs. P x (g x))"
proof -
  obtain g where "\<And>x. x \<in> set xs \<Longrightarrow> f x = Ret (g x) \<and> P x (g x)" using assms by metis
  then show ?thesis using go_collect_cong_Ret [of xs f g] by blast
qed

lemma rule_params_card_less:
  assumes "subst_ok [key \<mapsto> v]" and "expands [key \<mapsto> v] r r1" and "key \<in> rule_params r" and "key \<in> vm_keys vm"
  shows "card (rule_params r1 \<inter> vm_keys vm) < card (rule_params r \<inter> vm_keys vm)"
proof (rule psubset_card_mono)
  show "rule_params r1 \<inter> vm_keys vm \<subset> rule_params r \<inter> vm_keys vm"
    using expands_params [OF assms(1,2)] assms(3,4) by auto
qed (simp add: vm_keys_def)

lemma leaf_Expand_all:
  assumes IH: "\<And>r vm. expandable r \<Longrightarrow> vm_ok vm \<Longrightarrow>
      rule_height r + card (rule_params r \<inter> vm_keys vm) < n \<Longrightarrow> expands_all ord n r vm"
    and "expandable (Leaf krp)" and "vm_ok vm" and "card (leaf_params krp \<inter> vm_keys vm) < Suc n"
  shows "expands_all ord (Suc n) (Leaf krp) vm"
proof (cases "find (\<lambda>param. gm_get vm param \<noteq> None) (expand_params ord krp)")
  case None
  then have "rule_params (Leaf krp) \<inter> vm_keys vm = {}"
    using set_expand_params [of ord krp] by (auto simp: find_None_iff vm_keys_get rule_params_def)
  then show ?thesis
    using None expansion_of_none [of "Leaf krp" vm] assms(2)
    by (auto simp: expands_all_def leaf_Expand_def expandable_def)
next
  case (Some param)
  then have p: "param \<in> leaf_params krp" "gm_get vm param \<noteq> None"
    using set_expand_params [of ord krp] by (auto simp: find_Some_iff dest: nth_mem)
  then obtain vs where vs: "gm_get vm param = Some vs" by auto
  have key: "param \<in> rule_params (Leaf krp)" "param \<in> vm_keys vm" using p by (auto simp: rule_params_def vm_keys_get)
  have wf: "wf_leaf krp" "fresh_leaf krp" using assms(2) by (simp_all add: expandable_def fresh_attributes_def)
  have "\<exists>out. expand_value (Expand ord n) krp vm param v = Ret out \<and>
      (\<exists>r1. expands [param \<mapsto> v] (Leaf krp) r1 \<and> expansion_of r1 vm out)" if v: "v \<in> set vs" for v
  proof -
    have vok: "value_ok v" using vm_ok_get [OF assms(3) vs] v by blast
    obtain k1 where k1: "leaf_expands [param \<mapsto> v] krp k1"
      "expand_value (Expand ord n) krp vm param v = go_bind (Expand ord n (Leaf k1) vm) (\<lambda>(exp, _). Ret exp)"
      using expand_value_step [OF wf vok p(1)] by blast
    have e: "expands [param \<mapsto> v] (Leaf krp) (Leaf k1)" using k1(1) by (rule expands_leaf)
    have "rule_height (Leaf k1) + card (rule_params (Leaf k1) \<inter> vm_keys vm) < n"
      using rule_params_card_less [OF _ e key] vok assms(4) by (simp add: rule_params_def)
    then have "expands_all ord n (Leaf k1) vm"
      using IH [OF expandable_expands [OF _ e] assms(3)] vok by simp
    then show ?thesis using k1(2) e by (auto simp: expands_all_def)
  qed
  from go_collect_outs [of vs "expand_value (Expand ord n) krp vm param", OF this]
  obtain out where out: "go_collect (map (expand_value (Expand ord n) krp vm param) vs) = Ret (map out vs)"
    "\<forall>v \<in> set vs. \<exists>r1. expands [param \<mapsto> v] (Leaf krp) r1 \<and> expansion_of r1 vm (out v)" by blast
  then obtain R where "\<And>v. v \<in> set vs \<Longrightarrow> expands [param \<mapsto> v] (Leaf krp) (R v)"
    "\<And>v. v \<in> set vs \<Longrightarrow> expansion_of (R v) vm (out v)" by metis
  from expansion_of_step [OF assms(3) key(1) vs this]
  have "expansion_of (Leaf krp) vm (concat (map out vs))" .
  then show ?thesis
    using Some vs out(1) key by (auto simp: expands_all_def leaf_Expand_def)
qed

lemma list_all2_map2: "list_all2 P xs (map g xs) \<longleftrightarrow> (\<forall>x \<in> set xs. P x (g x))"
  by (induction xs) auto

text \<open>The nested rules under one value.\<close>

lemma expand_nested_step:
  assumes "\<And>r. r \<in> set rs \<Longrightarrow> expands_all ord n r [(key, [v])]" and "value_ok v"
  shows "\<exists>res. expand_nested (Expand ord n) rs key v = Ret res \<and>
    list_all2 (expands [key \<mapsto> v]) rs (map fst res) \<and> (list_ex snd res \<longleftrightarrow> (\<exists>r \<in> set rs. key \<in> rule_params r))"
proof -
  have keys: "vm_keys [(key, [v])] = {key}" by (simp add: vm_keys_def gm_keys_def)
  have ok: "vm_ok [(key, [v])]" using assms(2) by (simp add: vm_ok_def)
  let ?f = "\<lambda>r. go_bind (Expand ord n r [(key, [v])]) (\<lambda>(expandedRule, gotExpanded).
       case expandedRule of [] \<Rightarrow> Panic | r # _ \<Rightarrow> Ret (r, gotExpanded))"
  have "\<exists>out. ?f r = Ret out \<and> (expands [key \<mapsto> v] r (fst out) \<and> (snd out \<longleftrightarrow> key \<in> rule_params r))"
    if r: "r \<in> set rs" for r
  proof -
    obtain rules where rules: "Expand ord n r [(key, [v])] = Ret (rules, rule_params r \<inter> {key} \<noteq> {})"
      "expansion_of r [(key, [v])] rules"
      using assms(1) [OF r] keys by (auto simp: expands_all_def)
    obtain r1 rest where r1: "rules = r1 # rest"
      using expansion_of_not_Nil [OF ok rules(2)] by (cases rules) auto
    then obtain \<sigma> where "\<sigma> \<in> choices (rule_params r) [(key, [v])]" "expands \<sigma> r r1"
      using expansion_of_mem [OF rules(2)] by auto
    then have "expands [key \<mapsto> v] r r1" using choices_single by (blast intro: expands_cong)
    then show ?thesis using rules(1) r1 by auto
  qed
  from go_collect_outs [of rs ?f, OF this] obtain g where "expand_nested (Expand ord n) rs key v = Ret (map g rs)"
    "\<forall>r \<in> set rs. expands [key \<mapsto> v] r (fst (g r)) \<and> (snd (g r) \<longleftrightarrow> key \<in> rule_params r)"
    unfolding expand_nested_def by blast
  then show ?thesis by (auto simp: list_all2_map2 list_ex_iff)
qed

text \<open>The loop over the keys of the map, for any of the three compound rules.\<close>

lemma compound_expand_all:
  assumes IH: "\<And>r vm. expandable r \<Longrightarrow> vm_ok vm \<Longrightarrow>
      rule_height r + card (rule_params r \<inter> vm_keys vm) < n \<Longrightarrow> expands_all ord n r vm"
    and con: "\<And>\<sigma> rs'. list_all2 (expands \<sigma>) rs rs' \<Longrightarrow> expands \<sigma> dr (con rs')"
    and dr: "rule_params dr = (\<Union>r \<in> set rs. rule_params r)"
      "\<And>r. r \<in> set rs \<Longrightarrow> expandable r" "\<And>r. r \<in> set rs \<Longrightarrow> rule_height r < rule_height dr"
    and vm: "vm_ok vm" "rule_height dr + card (rule_params dr \<inter> vm_keys vm) < Suc n"
  shows "set keys \<subseteq> vm_keys vm \<Longrightarrow>
    \<exists>rules. compound_expand (Expand ord n) con rs dr vm keys = Ret (rules, set keys \<inter> rule_params dr \<noteq> {}) \<and>
      (if set keys \<inter> rule_params dr = {} then rules = [dr] else expansion_of dr vm rules)"
proof (induction keys)
  case (Cons key keys)
  then obtain vs where vs: "gm_get vm key = Some vs" by (auto simp: vm_keys_get)
  note vals = vm_ok_get [OF vm(1) vs]
  have key: "key \<in> vm_keys vm" using Cons.prems by simp
  have single: "vm_keys [(key, [v])] = {key}" "value_ok v \<Longrightarrow> vm_ok [(key, [v])]" for v
    by (simp_all add: vm_keys_def gm_keys_def vm_ok_def)
  have nested: "expands_all ord n r [(key, [v])]" if r: "r \<in> set rs" and v: "value_ok v" for r v
  proof (rule IH [OF dr(2) [OF r] single(2) [OF v]])
    have "card (rule_params r \<inter> {key}) \<le> card (rule_params dr \<inter> vm_keys vm)"
      by (rule card_mono) (use r dr(1) key in \<open>auto simp: vm_keys_def\<close>)
    then show "rule_height r + card (rule_params r \<inter> vm_keys [(key, [v])]) < n"
      using dr(3) [OF r] vm(2) single(1) by simp
  qed
  have "\<exists>res. expand_nested (Expand ord n) rs key v = Ret res \<and>
      (list_all2 (expands [key \<mapsto> v]) rs (map fst res) \<and> (list_ex snd res \<longleftrightarrow> key \<in> rule_params dr))"
    if "v \<in> set vs" for v
    using expand_nested_step [OF nested] vals that dr(1) by auto
  from go_collect_outs [of vs "expand_nested (Expand ord n) rs key", OF this]
  obtain res where res: "go_collect (map (expand_nested (Expand ord n) rs key) vs) = Ret (map res vs)"
    and all: "\<forall>v \<in> set vs. list_all2 (expands [key \<mapsto> v]) rs (map fst (res v)) \<and>
      (list_ex snd (res v) \<longleftrightarrow> key \<in> rule_params dr)" by blast
  have ex: "list_ex (list_ex snd) (map res vs) \<longleftrightarrow> key \<in> rule_params dr"
    using all vals by (cases vs) (auto simp: list_ex_iff)
  show ?case
  proof (cases "key \<in> rule_params dr")
    case False
    then show ?thesis using Cons ex res vs by (auto simp: Int_insert_left)
  next
    case True
    define R where "R v = con (map fst (res v))" for v
    have R: "expands [key \<mapsto> v] dr (R v)" if "v \<in> set vs" for v using con all that by (auto simp: R_def)
    have "\<exists>out. Expand ord n (R v) vm = Ret out \<and> expansion_of (R v) vm (fst out)" if v: "v \<in> set vs" for v
    proof -
      have ok: "subst_ok [key \<mapsto> v]" using vals v by simp
      have "rule_height (R v) + card (rule_params (R v) \<inter> vm_keys vm) < n"
        using rule_params_card_less [OF ok R [OF v] True key] expands_height [OF R [OF v]] vm(2) by simp
      then show ?thesis
        using IH [OF expandable_expands [OF ok R [OF v]] vm(1)] by (auto simp: expands_all_def)
    qed
    from go_collect_outs [of vs "\<lambda>v. Expand ord n (R v) vm", OF this]
    obtain out where out: "go_collect (map (\<lambda>v. Expand ord n (R v) vm) vs) = Ret (map out vs)"
      "\<And>v. v \<in> set vs \<Longrightarrow> expansion_of (R v) vm (fst (out v))" by blast
    have "expansion_of dr vm (concat (map (\<lambda>v. fst (out v)) vs))"
      by (rule expansion_of_step [OF vm(1) True vs R out(2)])
    moreover have "compound_expand (Expand ord n) con rs dr vm (key # keys) = Ret (concat (map (\<lambda>v. fst (out v)) vs), True)"
      using res out(1) ex True vs by (simp add: R_def comp_def)
    ultimately show ?thesis using True by auto
  qed
qed simp

lemma expandable_nested:
  "expandable (AndDynamicRule rs ps fs) \<Longrightarrow> r \<in> set rs \<Longrightarrow> expandable r"
  "expandable (OrDynamicRule rs ps fs) \<Longrightarrow> r \<in> set rs \<Longrightarrow> expandable r"
  "expandable (NotDynamicRule r ps fs) \<Longrightarrow> expandable r"
  by (auto simp: expandable_def fresh_attributes_def normal_rule_def list_all_iff)

lemma rule_height_nested:
  "r \<in> set rs \<Longrightarrow> rule_height r < rule_height (AndDynamicRule rs ps fs)"
  "r \<in> set rs \<Longrightarrow> rule_height r < rule_height (OrDynamicRule rs ps fs)"
  by (simp_all add: less_Suc_eq_le foldr_max_mem)

lemma compound_expands_all:
  assumes "expandable dr" and "\<exists>rules. c = Ret (rules, vm_keys vm \<inter> rule_params dr \<noteq> {}) \<and>
      (if vm_keys vm \<inter> rule_params dr = {} then rules = [dr] else expansion_of dr vm rules)"
  shows "\<exists>rules. c = Ret (rules, rule_params dr \<inter> vm_keys vm \<noteq> {}) \<and> expansion_of dr vm rules"
  using assms expansion_of_none [of dr vm] by (auto simp: expandable_def Int_commute split: if_splits)

lemma expands_constructors:
  "list_all2 (expands \<sigma>) rs rs' \<Longrightarrow> expands \<sigma> (AndDynamicRule rs ps fs) (NewAndRule ord rs')"
  "list_all2 (expands \<sigma>) rs rs' \<Longrightarrow> expands \<sigma> (OrDynamicRule rs ps fs) (NewOrRule ord rs')"
  "list_all2 (expands \<sigma>) [r] rs' \<Longrightarrow> expands \<sigma> (NotDynamicRule r ps fs) (newNotRule ord rs')"
proof -
  have wf: "list_all wf_rule rs'" if "list_all2 (expands \<sigma>) rs rs'" for rs'
    using that by (induction rule: list_all2_induct) (auto dest: expands_wf)
  show "list_all2 (expands \<sigma>) rs rs' \<Longrightarrow> expands \<sigma> (AndDynamicRule rs ps fs) (NewAndRule ord rs')"
    using wf by (auto simp: NewAndRule_def newCompoundDynamicRule_def list_all_iff intro!: expands_and)
  show "list_all2 (expands \<sigma>) rs rs' \<Longrightarrow> expands \<sigma> (OrDynamicRule rs ps fs) (NewOrRule ord rs')"
    using wf by (auto simp: NewOrRule_def newCompoundDynamicRule_def list_all_iff intro!: expands_or)
  show "list_all2 (expands \<sigma>) [r] rs' \<Longrightarrow> expands \<sigma> (NotDynamicRule r ps fs) (newNotRule ord rs')"
    by (auto simp: newNotRule_def newCompoundDynamicRule_def list_all2_Cons1 intro!: expands_not)
qed

lemma Expand_all:
  "expandable r \<Longrightarrow> vm_ok vm \<Longrightarrow> rule_height r + card (rule_params r \<inter> vm_keys vm) < n \<Longrightarrow> expands_all ord n r vm"
proof (induction n arbitrary: r vm)
  case (Suc n)
  have keys: "set (range_in ord (gm_keys vm)) = vm_keys vm" by (simp add: vm_keys_def)
  show ?case
  proof (cases r)
    case (Leaf krp)
    then show ?thesis
      using leaf_Expand_all [OF Suc.IH] Suc.prems by (auto simp: rule_params_def)
  next
    case (AndDynamicRule rs ps fs)
    have "\<exists>rules. compound_expand (Expand ord n) (NewAndRule ord) rs r vm (range_in ord (gm_keys vm)) =
        Ret (rules, vm_keys vm \<inter> rule_params r \<noteq> {}) \<and>
      (if vm_keys vm \<inter> rule_params r = {} then rules = [r] else expansion_of r vm rules)"
      using compound_expand_all [of n ord rs r "NewAndRule ord" vm "range_in ord (gm_keys vm)"] Suc keys
        expands_constructors(1) expandable_nested(1) rule_height_nested(1) unfolding AndDynamicRule
      by (auto simp: rule_params_simps simp del: rule_height.simps)
    from compound_expands_all [OF Suc.prems(1) this] show ?thesis
      by (simp add: expands_all_def AndDynamicRule)
  next
    case (OrDynamicRule rs ps fs)
    have "\<exists>rules. compound_expand (Expand ord n) (NewOrRule ord) rs r vm (range_in ord (gm_keys vm)) =
        Ret (rules, vm_keys vm \<inter> rule_params r \<noteq> {}) \<and>
      (if vm_keys vm \<inter> rule_params r = {} then rules = [r] else expansion_of r vm rules)"
      using compound_expand_all [of n ord rs r "NewOrRule ord" vm "range_in ord (gm_keys vm)"] Suc keys
        expands_constructors(2) expandable_nested(2) rule_height_nested(2) unfolding OrDynamicRule
      by (auto simp: rule_params_simps simp del: rule_height.simps)
    from compound_expands_all [OF Suc.prems(1) this] show ?thesis
      by (simp add: expands_all_def OrDynamicRule)
  next
    case (NotDynamicRule r1 ps fs)
    have "\<exists>rules. compound_expand (Expand ord n) (newNotRule ord) [r1] r vm (range_in ord (gm_keys vm)) =
        Ret (rules, vm_keys vm \<inter> rule_params r \<noteq> {}) \<and>
      (if vm_keys vm \<inter> rule_params r = {} then rules = [r] else expansion_of r vm rules)"
      using compound_expand_all [of n ord "[r1]" r "newNotRule ord" vm "range_in ord (gm_keys vm)"] Suc keys
        expands_constructors(3) expandable_nested(3) unfolding NotDynamicRule
      by (auto simp: rule_params_simps)
    from compound_expands_all [OF Suc.prems(1) this] show ?thesis
      by (simp add: expands_all_def NotDynamicRule)
  qed
qed simp

section \<open>Rules made from an expanded rule\<close>

lemma expands_inst:
  assumes ok: "subst_ok \<sigma>"
  shows "expands \<sigma> r r' \<Longrightarrow> wf_rule r \<Longrightarrow> (\<And>n v. n \<in> rule_params r \<Longrightarrow> \<sigma> n = Some v \<Longrightarrow> attr_lookup a n = Some v) \<Longrightarrow>
    inst a r' = inst a r"
proof (induction r arbitrary: r')
  case (Leaf krp)
  obtain k' where k': "r' = Leaf k'" "leaf_expands \<sigma> krp k'" using Leaf.prems(1) by (rule expands_LeafE)
  have "path_format (attr_lookup a) (path_format \<sigma> p) = path_format (attr_lookup a) p"
    if "p \<in> set (dr_patterns krp)" for p
    unfolding path_format_comp [OF ok]
  proof (rule path_format_cong)
    fix n assume "n \<in> set (params p)"
    then have "n \<in> rule_params (Leaf krp)" using that by (auto simp: rule_params_def leaf_params_def)
    then show "(attr_lookup a ++ \<sigma>) n = attr_lookup a n"
      using Leaf.prems(3) [of n] by (cases "\<sigma> n") (simp_all add: map_add_def)
  qed
  moreover have "dr_patterns krp \<noteq> []" if "dr_factory krp \<noteq> EqualsRuleFactory"
    using that Leaf.prems(2) by (auto simp: wf_leaf_def)
  ultimately show ?case
    using k'(2) by (auto simp: k'(1) leaf_inst_def leaf_expands_def hd_map split: ruleFactory.splits)
next
  case (AndDynamicRule rs ps fs)
  obtain rs' ps' fs' where r': "r' = AndDynamicRule rs' ps' fs'" "list_all2 (expands \<sigma>) rs rs'"
    using AndDynamicRule.prems(1) by (rule expands_AndE)
  have "list_all2 (\<lambda>r r'. inst a r = inst a r') rs rs'"
    by (rule list.rel_mono_strong [OF r'(2)])
      (use AndDynamicRule.IH AndDynamicRule.prems(2,3) rule_params_nested(1) in \<open>auto simp: list_all_iff\<close>)
  from list_all2_eq_map [OF this] show ?case by (simp add: r'(1))
next
  case (OrDynamicRule rs ps fs)
  obtain rs' ps' fs' where r': "r' = OrDynamicRule rs' ps' fs'" "list_all2 (expands \<sigma>) rs rs'"
    using OrDynamicRule.prems(1) by (rule expands_OrE)
  have "list_all2 (\<lambda>r r'. inst a r = inst a r') rs rs'"
    by (rule list.rel_mono_strong [OF r'(2)])
      (use OrDynamicRule.IH OrDynamicRule.prems(2,3) rule_params_nested(2) in \<open>auto simp: list_all_iff\<close>)
  from list_all2_eq_map [OF this] show ?case by (simp add: r'(1))
next
  case (NotDynamicRule r ps fs)
  then show ?case by (auto elim!: expands_NotE simp: rule_params_def)
qed

lemma make_from_leaf:
  "wf_rule r \<Longrightarrow> makeStaticRule r key val = Ret (Some (sr, a)) \<Longrightarrow>
     \<exists>krp \<in> set (leaves r). \<exists>am. a = NestingAttributes am (dr_attributes krp)"
proof (induction r arbitrary: sr)
  case (Leaf krp)
  then show ?case using leaf_make_attr [of krp key sr a] by auto
next
  case (AndDynamicRule rs ps fs)
  then have wf: "\<And>r. r \<in> set rs \<Longrightarrow> wf_rule r" by (simp add: list_all_id)
  have c: "compound_makeStaticRule AndStaticRule rs (map (\<lambda>r. makeStaticRule r key val) rs) key val = Ret (Some (sr, a))"
    using AndDynamicRule.prems(2) by simp
  obtain r sr' where "r \<in> set rs" "makeStaticRule r key val = Ret (Some (sr', a))"
    using make_compound_cases [OF wf c] by blast
  then show ?case using AndDynamicRule.IH wf by fastforce
next
  case (OrDynamicRule rs ps fs)
  then have wf: "\<And>r. r \<in> set rs \<Longrightarrow> wf_rule r" by (simp add: list_all_id)
  have c: "compound_makeStaticRule OrStaticRule rs (map (\<lambda>r. makeStaticRule r key val) rs) key val = Ret (Some (sr, a))"
    using OrDynamicRule.prems(2) by simp
  obtain r sr' where "r \<in> set rs" "makeStaticRule r key val = Ret (Some (sr', a))"
    using make_compound_cases [OF wf c] by blast
  then show ?case using OrDynamicRule.IH wf by fastforce
next
  case (NotDynamicRule r ps fs)
  then show ?case by (auto simp: go_simps split: option.splits)
qed

lemma expanded_lookup:
  assumes "uniform_in P r" and "fresh_attributes r" and "expands \<sigma> r r'" and "krp' \<in> set (leaves r')"
    and "n \<in> P" and "\<sigma> n = Some v"
  shows "attr_lookup (NestingAttributes am (dr_attributes krp')) n = Some v"
proof -
  obtain krp where krp: "krp \<in> set (leaves r)" "leaf_expands \<sigma> krp krp'"
    using list_all2_right_mem [OF expands_leaves [OF assms(3)] assms(4)] by blast
  then have p: "n \<in> leaf_params krp" using uniform_leaves [OF assms(1)] assms(5) by simp
  have "fresh_leaf krp" using assms(2) krp(1) by (simp add: fresh_attributes_def list_all_iff)
  then have "nesting_find (dr_attributes krp) n = None"
    using p by (intro nesting_find_None) (auto simp: fresh_leaf_def list_all_iff)
  then show ?thesis using krp(2) p assms(6) by (simp add: leaf_expands_def attr_lookup_nesting)
qed

lemma expanded_make:
  assumes "uniform_in P r" and "expandable r" and "subst_ok \<sigma>" and "expands \<sigma> r r'"
    and "makeStaticRule r' key val = Ret (Some (sr, a))"
  shows "sr = inst a r" and "n \<in> P \<Longrightarrow> \<sigma> n = Some v \<Longrightarrow> attr_lookup a n = Some v" and "attr_wf a"
proof -
  have wf': "wf_rule r'" and fresh': "fresh_attributes r'" using assms(4) by (simp_all add: expands_wf expands_fresh)
  obtain krp' am where a: "krp' \<in> set (leaves r')" "a = NestingAttributes am (dr_attributes krp')"
    using make_from_leaf [OF wf' assms(5)] by blast
  have fresh: "fresh_attributes r" and wf: "wf_rule r" using assms(2) by (simp_all add: expandable_def)
  show look: "n \<in> P \<Longrightarrow> \<sigma> n = Some v \<Longrightarrow> attr_lookup a n = Some v" for n v
    using expanded_lookup [OF assms(1) fresh assms(4) a(1)] a(2) by simp
  have "inst a r' = inst a r"
    by (rule expands_inst [OF assms(3,4) wf]) (use look uniform_params [OF assms(1)] in blast)
  then show "sr = inst a r" using make_inst [OF wf' fresh' assms(5)] by simp
  show "attr_wf a" using make_attr_wf [OF wf' assms(5)] .
qed

section \<open>Indented rule texts\<close>

text \<open>No prefix of the text closes more parentheses than it opens.\<close>

definition paren_depth :: "string \<Rightarrow> int" where
  "paren_depth s = int (count_list s CHR ''('') - int (count_list s CHR '')'')"

lemma paren_depth_Cons:
  "paren_depth (c # s) = (if c = CHR ''('' then 1 else if c = CHR '')'' then - 1 else 0) + paren_depth s"
  by (simp add: paren_depth_def)

lemma formatRule_loop_Ret:
  assumes "0 \<le> i"
  shows "((\<exists>t. formatRule_loop s (out, i) = Ret t) \<longleftrightarrow> (\<forall>n. 0 \<le> i + paren_depth (take n s))) \<and>
    (formatRule_loop s (out, i) = Panic \<or> (\<exists>t. formatRule_loop s (out, i) = Ret t))"
  using assms
proof (induction s arbitrary: out i)
  case Nil
  then show ?case by (simp add: paren_depth_def)
next
  case (Cons c s)
  let ?d = "if c = CHR ''('' then 1 else if c = CHR '')'' then - 1 else 0 :: int"
  have all: "(\<forall>n. 0 \<le> i + paren_depth (take n (c # s))) \<longleftrightarrow> 0 \<le> i \<and> (\<forall>n. 0 \<le> i + ?d + paren_depth (take n s))"
  proof
    assume a: "\<forall>n. 0 \<le> i + paren_depth (take n (c # s))"
    have "0 \<le> i + ?d + paren_depth (take n s)" for n
      using a [THEN spec, of "Suc n"] by (simp add: paren_depth_Cons algebra_simps)
    moreover have "0 \<le> i" using a [THEN spec, of 0] by (simp add: paren_depth_def)
    ultimately show "0 \<le> i \<and> (\<forall>n. 0 \<le> i + ?d + paren_depth (take n s))" by blast
  next
    assume a: "0 \<le> i \<and> (\<forall>n. 0 \<le> i + ?d + paren_depth (take n s))"
    show "\<forall>n. 0 \<le> i + paren_depth (take n (c # s))"
    proof
      fix n show "0 \<le> i + paren_depth (take n (c # s))"
      proof (cases n)
        case 0
        then show ?thesis using a by (simp add: paren_depth_def)
      next
        case (Suc m)
        then show ?thesis using conjunct2 [OF a, THEN spec, of m] by (simp add: paren_depth_Cons algebra_simps)
      qed
    qed
  qed
  have neg: "0 \<le> i + ?d" if "\<forall>n. 0 \<le> i + ?d + paren_depth (take n s)"
    using that [THEN spec, of 0] by (simp add: paren_depth_def)
  have step: "formatRule_loop (c # s) (out, i) = Panic \<and> i + ?d < 0 \<or>
      0 \<le> i + ?d \<and> (\<exists>out'. formatRule_loop (c # s) (out, i) = formatRule_loop s (out', i + ?d))"
    using Cons.prems by (auto simp: Let_def)
  show ?case
  proof (cases "0 \<le> i + ?d")
    case True
    then obtain out' where out': "formatRule_loop (c # s) (out, i) = formatRule_loop s (out', i + ?d)"
      using step by auto
    show ?thesis unfolding out' all using Cons.IH [OF True] Cons.prems by blast
  next
    case False
    then have "formatRule_loop (c # s) (out, i) = Panic" using step by auto
    moreover from this have "\<not> (\<exists>t. formatRule_loop (c # s) (out, i) = Ret t)" by simp
    ultimately show ?thesis unfolding all using neg False by blast
  qed
qed

section \<open>Properties\<close>

lemma built_expandable: "built ord r \<Longrightarrow> normal_rule r \<Longrightarrow> expandable r"
  by (simp add: expandable_def built_wf built_fresh)

text \<open>
  C18. Expansion terminates and is exact: for a rule of the constructors with normal patterns and a
  map whose values are single plain segments, the height of the rule plus the number of its
  parameters in the map bound the nested calls. The rules of the result can be matched one by one with
  the choices of values for those parameters: each is the rule in which the parameters have been
  replaced by its choice, every choice has its rule, and if no parameter lists a value twice, no choice
  has two rules. The flag says whether there was anything to replace.
\<close>

theorem Expand_terminates_exact:
  assumes "built ord r" and "normal_rule r" and "vm_ok vm"
    and "rule_height r + card (rule_params r \<inter> vm_keys vm) < n"
  shows "\<exists>rules \<sigma>s. Expand ord n r vm = Ret (rules, rule_params r \<inter> vm_keys vm \<noteq> {}) \<and>
    list_all2 (\<lambda>\<sigma>. expands \<sigma> r) \<sigma>s rules \<and> set \<sigma>s = choices (rule_params r) vm \<and>
    (distinct_values vm \<longrightarrow> distinct \<sigma>s)"
  using Expand_all [OF built_expandable [OF assms(1,2)] assms(3,4)] unfolding expands_all_def expansion_of_def by blast

theorem Expand_terminates_exact_witness:
  "\<exists>r rules \<sigma>s. NewEqualsLiteralRule ''/:geo/:id'' None = Inr r \<and>
     Expand insertion_order 3 r [(''geo'', [''na'', ''eu''])] = Ret (rules, True) \<and>
     list_all2 (\<lambda>\<sigma>. expands \<sigma> r) \<sigma>s rules \<and> distinct \<sigma>s \<and> set \<sigma>s = {[''geo'' \<mapsto> ''na''], [''geo'' \<mapsto> ''eu'']} \<and>
     length rules = 2"
proof -
  let ?r = "projr (NewEqualsLiteralRule ''/:geo/:id'' None)"
  let ?vm = "[(''geo'', [''na'', ''eu''])]"
  have r: "NewEqualsLiteralRule ''/:geo/:id'' None = Inr ?r" by (rule Inr_projr) code_simp
  have b: "built insertion_order ?r" using r by (rule built_literal)
  have n: "normal_rule ?r" by code_simp
  have v: "vm_ok ?vm" by code_simp
  have d: "distinct_values ?vm" by (simp add: distinct_values_def)
  have h: "rule_height ?r = 0" by code_simp
  have keys: "vm_keys ?vm = {''geo''}" by (simp add: vm_keys_def gm_keys_def)
  have g: "''geo'' \<in> rule_params ?r" by code_simp
  then have inter: "rule_params ?r \<inter> vm_keys ?vm = {''geo''}" unfolding keys by blast
  have get: "gm_get ?vm ''geo'' = Some [''na'', ''eu'']" by (simp add: gm_get_def)
  have "(rule_params ?r - {''geo''}) \<inter> vm_keys ?vm = {}" unfolding keys by blast
  then have "choices (rule_params ?r - {''geo''}) ?vm = {Map.empty}" using choices_none by blast
  then have c: "choices (rule_params ?r) ?vm = {[''geo'' \<mapsto> ''na''], [''geo'' \<mapsto> ''eu'']}"
    unfolding choices_union [OF g get] by auto
  have bound: "rule_height ?r + card (rule_params ?r \<inter> vm_keys ?vm) < 3" unfolding h inter by simp
  obtain rules \<sigma>s where e: "Expand insertion_order 3 ?r ?vm = Ret (rules, True)"
    "list_all2 (\<lambda>\<sigma>. expands \<sigma> ?r) \<sigma>s rules" "set \<sigma>s = {[''geo'' \<mapsto> ''na''], [''geo'' \<mapsto> ''eu'']}" "distinct \<sigma>s"
    using Expand_terminates_exact [OF b n v bound] d unfolding inter c by auto
  have "[''geo'' \<mapsto> ''na''] \<noteq> [''geo'' \<mapsto> ''eu'']" by (simp add: fun_eq_iff)
  then have "card (set \<sigma>s) = 2" unfolding e(3) by (simp add: card_insert_if)
  then have "length rules = 2" using distinct_card [OF e(4)] list_all2_lengthD [OF e(2)] by simp
  then show ?thesis using r e by blast
qed


definition is_single :: "(dynamic_rule list \<times> bool) go \<Rightarrow> bool" where
  "is_single m = (case m of Ret ([_], True) \<Rightarrow> True | _ \<Rightarrow> False)"

lemma is_single_eq: "is_single m \<Longrightarrow> m = Ret ([hd (fst (case m of Ret x \<Rightarrow> x))], True)"
  by (auto simp: is_single_def split: go.splits prod.splits list.splits bool.splits)


lemma Expand_loops:
  "dr_patterns krp = [''/:a/x''] \<Longrightarrow> Expand ord n (Leaf krp) [(''a'', ['':a''])] = Diverge"
proof (induction n arbitrary: krp)
  case (Suc n)
  have "fst (parsePath ''/:a/x'') = [(''a'', 1)]" by code_simp
  then have ps: "expand_params ord krp = [''a'']"
    using Suc.prems by (simp add: expand_params_def split_def gm_keys_def gm_put_def)
  have fmt: "FormatWithAttributes ''/:a/x'' (MapAttributes [(''a'', '':a'')]) = Ret ''/:a/x''" by code_simp
  have "\<not> isl (newRegexKeyMatcher ''/:a/x'')" by code_simp
  then obtain m where "newRegexKeyMatcher ''/:a/x'' = Inr m" using Inr_projr by blast
  then have "\<exists>k1. newDynamicRule fac [''/:a/x''] rep as = Inr k1 \<and> dr_patterns k1 = [''/:a/x'']" for fac rep as
    by (simp add: newDynamicRule_def)
  then obtain k1 where k1: "newDynamicRule (dr_factory krp) [''/:a/x'']
      (strings_ReplaceAll (dr_rep krp) (''/:'' @ ''a'' @ ''/'') (''/'' @ '':a'' @ ''/''))
      (dr_attributes krp @ [\<lparr>attr_key = ''a'', attr_value = '':a''\<rparr>]) = Inr k1" "dr_patterns k1 = [''/:a/x'']"
    by blast
  have "expand_value (Expand ord n) krp [(''a'', ['':a''])] ''a'' '':a'' = Diverge"
    using k1 Suc.IH [OF k1(2)] fmt Suc.prems by (simp add: expand_value_def Let_def)
  then show ?case using ps by (simp add: leaf_Expand_def gm_get_def)
qed simp

text \<open>
  C40. Expansion does not terminate for every map: a value that brings its own parameter back makes
  \<open>Expand\<close> call itself with the same patterns forever; no budget is enough. Nothing checks the
  values of the \<open>KeyExpansion\<close> option.
\<close>

theorem Expand_may_not_terminate:
  "\<exists>r. NewEqualsLiteralRule ''/:a/x'' None = Inr r \<and> (\<forall>n. Expand ord n r [(''a'', ['':a''])] = Diverge)"
proof -
  have "\<not> isl (NewEqualsLiteralRule ''/:a/x'' None)" by code_simp
  then obtain r where r: "NewEqualsLiteralRule ''/:a/x'' None = Inr r" using Inr_projr by blast
  then obtain krp where "r = Leaf krp" "dr_patterns krp = [''/:a/x'']"
    by (auto simp: NewEqualsLiteralRule_def NewCompareLiteralRule_def newDynamicRule_def Let_def split: option.splits sum.splits)
  then show ?thesis using r Expand_loops by blast
qed

text \<open>
  The indented form of a rule text exists if and only if no prefix of the text closes more
  parentheses than it opens; otherwise the code panics on a negative repeat count. The text of a
  comparison with a literal that has a closing parenthesis is such a text.
\<close>

theorem FormatRuleString_returns_iff:
  "((\<exists>t. FormatRuleString s = Ret t) \<longleftrightarrow> (\<forall>n. 0 \<le> paren_depth (take n s))) \<and>
   (\<exists>r. NewEqualsLiteralRule ''/a'' (Some '')'') = Inr r \<and> FormatRuleString (rule_String r) = Panic)"
proof -
  let ?r = "projr (NewEqualsLiteralRule ''/a'' (Some '')''))"
  have r: "NewEqualsLiteralRule ''/a'' (Some '')'') = Inr ?r" by (rule Inr_projr) code_simp
  have "FormatRuleString (rule_String ?r) = Panic" by code_simp
  then show ?thesis using r formatRule_loop_Ret [of 0 s "[]"] by (auto simp: FormatRuleString_def)
qed

end
