(* ===== verification/RuleManager.thy ===== *)
theory RuleManager
  imports DynamicRule
begin

text \<open>
  \<open>rules/rule_manager.go\<close>: the index of the registered rules by the number of slashes of their
  patterns, the watch prefixes, and the rules a changed key selects. A \<open>DynamicRule\<close> is a
  pointer in the code and maps are keyed by it, so rules are addresses here and a \<open>rule_heap\<close>
  says which rule an address holds; rules are not changed after their construction.
\<close>

named_theorems rm_simps "fields of a rule manager after an operation"

section \<open>Definitions\<close>

type_synonym rule_ptr = nat

type_synonym rule_heap = "rule_ptr \<Rightarrow> dynamic_rule"

record ruleManager =
  rm_constraints :: "(string, constraint) gomap"
  rm_currentIndex :: nat
  rm_rulesBySlashCount :: "(nat, (rule_ptr, nat) gomap) gomap"
  rm_prefixes :: "(string, string) gomap"
  rm_rules :: "rule_ptr list"
  rm_enhancedRuleFilter :: bool

definition newRuleManager :: "(string, constraint) gomap \<Rightarrow> bool \<Rightarrow> ruleManager" where
  "newRuleManager constraints enhancedRuleFilter =
     \<lparr>rm_constraints = constraints, rm_currentIndex = 0, rm_rulesBySlashCount = [], rm_prefixes = [],
      rm_rules = [], rm_enhancedRuleFilter = enhancedRuleFilter\<rparr>"

text \<open>
  The body of the loop of \<open>getStaticRules\<close>. The result is a map from static rules to indices;
  every static rule is a new object, so the map is the list of its entries.
\<close>

definition static_entry ::
  "bool \<Rightarrow> string \<Rightarrow> string option \<Rightarrow> dynamic_rule \<Rightarrow> nat \<Rightarrow> (static_rule \<times> nat) list go" where
  "static_entry enhanced key value rule index =
     go_bind (makeStaticRule rule key value)
       (\<lambda>m. case m of
            None \<Rightarrow> Ret []
          | Some (sRule, _) \<Rightarrow>
              if enhanced then
                (let qSat = qSatisfiable sRule key value
                 in if qSat = qTrue \<or> qSat = qMaybe then Ret [(sRule, index)] else Ret [])
              else if satisfiable sRule key value then Ret [(sRule, index)] else Ret [])"

definition getStaticRules ::
  "rule_ptr range_order \<Rightarrow> rule_heap \<Rightarrow> ruleManager \<Rightarrow> string \<Rightarrow> string option \<Rightarrow>
   (static_rule \<times> nat) list go" where
  "getStaticRules ord heap rm key value =
     (case gm_get (rm_rulesBySlashCount rm) (strings_Count key slash) of
        None \<Rightarrow> Ret []
      | Some rules \<Rightarrow>
          go_bind (go_collect (map (\<lambda>rule.
              static_entry (rm_enhancedRuleFilter rm) key value (heap rule) (the (gm_get rules rule)))
              (range_in ord (gm_keys rules))))
            (\<lambda>entries. Ret (concat entries)))"

text \<open>
  The inner loop of the insertion sort. The argument is \<open>j + 1\<close> of the code; the slot
  \<open>out[j+1]\<close> is free.
\<close>

primrec sort_inner :: "string list \<Rightarrow> string \<Rightarrow> nat \<Rightarrow> string list" where
  "sort_inner out x 0 = out[0 := x]"
| "sort_inner out x (Suc j) =
     (if length (out ! j) > length x then sort_inner (out[Suc j := out ! j]) x j else out[Suc j := x])"

definition sortPrefixesByLength :: "string range_order \<Rightarrow> (string, string) gomap \<Rightarrow> string list" where
  "sortPrefixesByLength ord pfxs =
     (let out = range_in ord (gm_keys pfxs)
      in fold (\<lambda>i out. sort_inner out (out ! i) i) [1..<length out] out)"

definition reducePrefixes ::
  "string range_order \<Rightarrow> (string, string) gomap \<Rightarrow> (string, string) gomap" where
  "reducePrefixes ord pfxs =
     fold (\<lambda>pfx out.
        let add = fold (\<lambda>addedPrefix add. if strings_HasPrefix pfx addedPrefix then False else add)
                    (range_in ord (gm_keys out)) True
        in if add then gm_put out pfx [] else out)
       (sortPrefixesByLength ord pfxs) []"

text \<open>The loop of \<open>addRule\<close> over the patterns of the rule.\<close>

definition index_pattern ::
  "rule_ptr \<Rightarrow> nat \<Rightarrow> string \<Rightarrow> (nat, (rule_ptr, nat) gomap) gomap \<Rightarrow> (nat, (rule_ptr, nat) gomap) gomap" where
  "index_pattern rule currentIndex p bySlash =
     (let slashCount = strings_Count p slash;
          rules = (case gm_get bySlash slashCount of Some rules \<Rightarrow> rules | None \<Rightarrow> [])
      in gm_put bySlash slashCount (gm_put rules rule currentIndex))"

definition addRule ::
  "string range_order \<Rightarrow> rule_heap \<Rightarrow> ruleManager \<Rightarrow> rule_ptr \<Rightarrow> (ruleManager \<times> nat) go" where
  "addRule ord heap rm rule =
     (let rm1 = rm\<lparr>rm_rules := rm_rules rm @ [rule],
                  rm_rulesBySlashCount := fold (index_pattern rule (rm_currentIndex rm))
                    (getPatterns (heap rule)) (rm_rulesBySlashCount rm)\<rparr>
      in go_bind (rule_getPrefixesWithConstraints (heap rule) (rm_constraints rm1))
           (\<lambda>pfxs.
             let rm2 = rm1\<lparr>rm_prefixes := reducePrefixes ord
                   (fold (\<lambda>pfx m. gm_put m pfx []) pfxs (rm_prefixes rm1))\<rparr>;
                 lastIndex = rm_currentIndex rm2
             in Ret (rm2\<lparr>rm_currentIndex := rm_currentIndex rm2 + 1\<rparr>, lastIndex)))"

definition combineRuleData ::
  "string range_order \<Rightarrow> dynamic_rule list \<Rightarrow> (dynamic_rule \<Rightarrow> string list) \<Rightarrow> string list" where
  "combineRuleData ord rules source = removeDuplicates ord (concat (map source rules))"

section \<open>Sorting\<close>

text \<open>The insertion of the inner loop, seen from the right end of the sorted part.\<close>

primrec insert_by_length :: "string \<Rightarrow> string list \<Rightarrow> string list" where
  "insert_by_length x [] = [x]"
| "insert_by_length x (y # ys) = (if length y > length x then y # insert_by_length x ys else x # y # ys)"

lemma sort_inner_eq:
  "sort_inner (rev ys @ z # rest) x (length ys) = rev (insert_by_length x ys) @ rest"
proof (induction ys arbitrary: z rest)
  case (Cons y ys)
  show ?case
  proof (cases "length y > length x")
    case True
    then show ?thesis using Cons.IH [of y "y # rest"]
      by (simp add: nth_append list_update_append)
  next
    case False
    then show ?thesis by (simp add: nth_append list_update_append)
  qed
qed simp

lemma mset_insert_by_length [simp]: "mset (insert_by_length x ys) = add_mset x (mset ys)"
  by (induction ys) auto

lemma length_insert_by_length [simp]: "length (insert_by_length x ys) = Suc (length ys)"
  by (induction ys) auto

lemma set_insert_by_length [simp]: "set (insert_by_length x ys) = insert x (set ys)"
  by (induction ys) auto

lemma sorted_insert_by_length:
  "sorted_wrt (\<lambda>a b. length b \<le> length a) ys \<Longrightarrow>
     sorted_wrt (\<lambda>a b. length b \<le> length a) (insert_by_length x ys)"
  by (induction ys) (auto intro: order_trans)

lemma sort_outer:
  assumes "i \<le> length out" and "0 < i" and "sorted_wrt (\<lambda>a b. length b \<le> length a) (rev (take i out))"
  shows "sorted_wrt (\<lambda>a b. length b \<le> length a)
      (rev (fold (\<lambda>i out. sort_inner out (out ! i) i) [i..<length out] out)) \<and>
    mset (fold (\<lambda>i out. sort_inner out (out ! i) i) [i..<length out] out) = mset out"
  using assms
proof (induction "length out - i" arbitrary: i out)
  case (Suc d)
  then have i: "i < length out" by simp
  let ?ys = "rev (take i out)"
  let ?out = "rev (insert_by_length (out ! i) ?ys) @ drop (Suc i) out"
  have split: "out = rev ?ys @ out ! i # drop (Suc i) out"
    using i by (simp add: id_take_nth_drop [symmetric])
  have "length ?ys = i" using i by simp
  then have step: "sort_inner out (out ! i) i = ?out"
    using sort_inner_eq [of ?ys "out ! i" "drop (Suc i) out" "out ! i"] split by simp
  have len: "length ?out = length out" using i by simp
  have srt: "sorted_wrt (\<lambda>a b. length b \<le> length a) (rev (take (Suc i) ?out))"
    using sorted_insert_by_length [OF Suc.prems(3)] i by simp
  have d: "d = length ?out - Suc i" using Suc.hyps(2) len by simp
  have le: "Suc i \<le> length ?out" using i len by simp
  have "mset out = mset (rev ?ys @ out ! i # drop (Suc i) out)"
    by (rule arg_cong [OF split])
  then have ms: "mset ?out = mset out" by simp
  show ?case
    using Suc.hyps(1) [OF d le zero_less_Suc srt]
    unfolding len ms upt_conv_Cons [OF i] fold_simps step .
qed simp

lemma sortPrefixesByLength_sorted:
  "sorted_wrt (\<lambda>a b. length a \<le> length b) (sortPrefixesByLength ord pfxs)"
  and sortPrefixesByLength_mset: "mset (sortPrefixesByLength ord pfxs) = mset (gm_keys pfxs)"
proof -
  let ?out = "range_in ord (gm_keys pfxs)"
  have "sorted_wrt (\<lambda>a b. length a \<le> length b) (sortPrefixesByLength ord pfxs) \<and>
      mset (sortPrefixesByLength ord pfxs) = mset (gm_keys pfxs)"
  proof (cases ?out)
    case Nil
    then show ?thesis using mset_range_in [of ord "gm_keys pfxs"] by (simp add: sortPrefixesByLength_def)
  next
    case (Cons x xs)
    then have "sorted_wrt (\<lambda>a b. length b \<le> length a) (rev (take 1 ?out))" by simp
    moreover have "mset (x # xs) = mset (gm_keys pfxs)"
      using mset_range_in [of ord "gm_keys pfxs"] unfolding Cons .
    ultimately show ?thesis
      using sort_outer [of 1 ?out] Cons
      by (simp add: sortPrefixesByLength_def Let_def sorted_wrt_rev [of "\<lambda>a b. length b \<le> length a"]
          del: upt_Suc length_range_in)
  qed
  then show "sorted_wrt (\<lambda>a b. length a \<le> length b) (sortPrefixesByLength ord pfxs)"
    "mset (sortPrefixesByLength ord pfxs) = mset (gm_keys pfxs)" by auto
qed

section \<open>Watch prefixes\<close>

definition antichain :: "string set \<Rightarrow> bool" where
  "antichain K \<longleftrightarrow> (\<forall>a \<in> K. \<forall>b \<in> K. prefix a b \<longrightarrow> a = b)"

lemma fold_add_flag:
  "fold (\<lambda>q add. if P q then False else add) qs b \<longleftrightarrow> b \<and> \<not> list_ex P qs"
  by (induction qs arbitrary: b) auto

definition add_prefix :: "string \<Rightarrow> (string, string) gomap \<Rightarrow> (string, string) gomap" where
  "add_prefix p out = (if \<exists>q \<in> set (gm_keys out). prefix q p then out else gm_put out p [])"

lemma reducePrefixes_eq: "reducePrefixes ord pfxs = fold add_prefix (sortPrefixesByLength ord pfxs) []"
proof -
  have "(\<lambda>pfx out.
        let add = fold (\<lambda>addedPrefix add. if strings_HasPrefix pfx addedPrefix then False else add)
                    (range_in ord (gm_keys out)) True
        in if add then gm_put out pfx [] else out) = add_prefix"
    by (intro ext) (simp add: add_prefix_def fold_add_flag list_ex_iff strings_HasPrefix_iff)
  then show ?thesis by (simp add: reducePrefixes_def)
qed

lemma antichain_add:
  assumes "antichain (set (gm_keys out))" and "\<forall>q \<in> set (gm_keys out). length q \<le> length p"
  shows "antichain (set (gm_keys (add_prefix p out)))"
proof -
  have "prefix p q \<Longrightarrow> q \<in> set (gm_keys out) \<Longrightarrow> q = p" for q
    using assms(2) by (fastforce simp: prefix_def)
  then show ?thesis
    using assms(1) unfolding antichain_def add_prefix_def by (auto simp: gomap_simps)
qed

lemma add_prefix_keys:
  fixes p :: string and out :: "(string, string) gomap"
  shows "set (gm_keys out) \<subseteq> set (gm_keys (add_prefix p out))"
  "set (gm_keys (add_prefix p out)) \<subseteq> insert p (set (gm_keys out))"
  "\<exists>q \<in> set (gm_keys (add_prefix p out)). prefix q p"
  by (auto simp: add_prefix_def gomap_simps)

lemma reduce_fold:
  assumes "sorted_wrt (\<lambda>a b. length a \<le> length b) ps" and "antichain (set (gm_keys out))"
    and "\<forall>q \<in> set (gm_keys out). \<forall>p \<in> set ps. length q \<le> length p"
  shows "antichain (set (gm_keys (fold add_prefix ps out))) \<and>
    set (gm_keys out) \<subseteq> set (gm_keys (fold add_prefix ps out)) \<and>
    set (gm_keys (fold add_prefix ps out)) \<subseteq> set (gm_keys out) \<union> set ps \<and>
    (\<forall>p \<in> set ps. \<exists>q \<in> set (gm_keys (fold add_prefix ps out)). prefix q p)"
  using assms
proof (induction ps arbitrary: out)
  case (Cons p ps)
  let ?out = "add_prefix p out"
  have anti: "antichain (set (gm_keys ?out))"
    using antichain_add [OF Cons.prems(2)] Cons.prems(3) by simp
  have len: "\<forall>q \<in> set (gm_keys ?out). \<forall>p \<in> set ps. length q \<le> length p"
    using add_prefix_keys(2) [of p out] Cons.prems(1,3) by auto
  have srt: "sorted_wrt (\<lambda>a b. length a \<le> length b) ps" using Cons.prems(1) by simp
  note IH = Cons.IH [OF srt anti len]
  show ?case
    unfolding fold_simps
    using IH add_prefix_keys(1) [of out p] add_prefix_keys(2) [of p out] add_prefix_keys(3) [of p out]
    by auto
qed simp

lemma reducePrefixes_spec:
  shows "antichain (set (gm_keys (reducePrefixes ord m)))"
    and "set (gm_keys (reducePrefixes ord m)) \<subseteq> set (gm_keys m)"
    and "p \<in> set (gm_keys m) \<Longrightarrow> \<exists>q \<in> set (gm_keys (reducePrefixes ord m)). prefix q p"
proof -
  have set: "set (sortPrefixesByLength ord m) = set (gm_keys m)"
    by (rule mset_eq_setD) (rule sortPrefixesByLength_mset)
  have "antichain (set (gm_keys []))" by (simp add: antichain_def)
  note fold = reduce_fold [OF sortPrefixesByLength_sorted this, of ord m]
  show "antichain (set (gm_keys (reducePrefixes ord m)))"
    "set (gm_keys (reducePrefixes ord m)) \<subseteq> set (gm_keys m)"
    "p \<in> set (gm_keys m) \<Longrightarrow> \<exists>q \<in> set (gm_keys (reducePrefixes ord m)). prefix q p"
    using fold by (simp_all add: reducePrefixes_eq set)
qed

lemma antichain_unique:
  "antichain K \<Longrightarrow> a \<in> K \<Longrightarrow> b \<in> K \<Longrightarrow> prefix a k \<Longrightarrow> prefix b k \<Longrightarrow> a = b"
  unfolding antichain_def by (metis prefix_same_cases)

section \<open>The rule index\<close>

definition in_index :: "(nat, (rule_ptr, nat) gomap) gomap \<Rightarrow> nat \<Rightarrow> rule_ptr \<Rightarrow> nat option" where
  "in_index m n rule = (case gm_get m n of Some rules \<Rightarrow> gm_get rules rule | None \<Rightarrow> None)"

definition index_of :: "ruleManager \<Rightarrow> nat \<Rightarrow> rule_ptr \<Rightarrow> nat option" where
  "index_of rm = in_index (rm_rulesBySlashCount rm)"

definition has_slashes :: "dynamic_rule \<Rightarrow> nat \<Rightarrow> bool" where
  "has_slashes r n \<longleftrightarrow> list_ex (\<lambda>p. strings_Count p slash = n) (getPatterns r)"

definition selected :: "bool \<Rightarrow> static_rule \<Rightarrow> string \<Rightarrow> string option \<Rightarrow> bool" where
  "selected enhanced sr key v \<longleftrightarrow>
     (if enhanced then qSatisfiable sr key v \<in> {qTrue, qMaybe} else satisfiable sr key v)"

lemma in_index_pattern:
  "in_index (index_pattern rule i p m) n r =
     (if r = rule \<and> strings_Count p slash = n then Some i else in_index m n r)"
  by (auto simp: in_index_def index_pattern_def Let_def gm_get_put split: option.splits)

lemma in_index_patterns:
  "in_index (fold (index_pattern rule i) ps m) n r =
     (if r = rule \<and> list_ex (\<lambda>p. strings_Count p slash = n) ps then Some i else in_index m n r)"
  by (induction ps arbitrary: m) (auto simp: in_index_pattern)

lemma addRule_Ret:
  assumes "addRule ord heap rm rule = Ret (rm', i)"
  obtains pfxs where "rule_getPrefixesWithConstraints (heap rule) (rm_constraints rm) = Ret pfxs"
    and "rm_rules rm' = rm_rules rm @ [rule]" and "rm_currentIndex rm' = rm_currentIndex rm + 1"
    and "i = rm_currentIndex rm" and "rm_constraints rm' = rm_constraints rm"
    and "rm_enhancedRuleFilter rm' = rm_enhancedRuleFilter rm"
    and "rm_prefixes rm' = reducePrefixes ord (fold (\<lambda>pfx m. gm_put m pfx []) pfxs (rm_prefixes rm))"
    and "\<And>n r. index_of rm' n r =
      (if r = rule \<and> has_slashes (heap rule) n then Some (rm_currentIndex rm) else index_of rm n r)"
  using assms
  by (auto simp: addRule_def Let_def go_simps index_of_def in_index_patterns
      has_slashes_def)

text \<open>The rule managers that a sequence of \<open>addRule\<close> calls produces.\<close>

inductive managed ::
  "string range_order \<Rightarrow> rule_heap \<Rightarrow> (string, constraint) gomap \<Rightarrow> bool \<Rightarrow> ruleManager \<Rightarrow> bool"
  for ord heap cs enhanced where
  managed_new: "managed ord heap cs enhanced (newRuleManager cs enhanced)"
| managed_add: "managed ord heap cs enhanced rm \<Longrightarrow> addRule ord heap rm rule = Ret (rm', i) \<Longrightarrow>
    managed ord heap cs enhanced rm'"

definition last_index :: "rule_ptr list \<Rightarrow> rule_ptr \<Rightarrow> nat \<Rightarrow> bool" where
  "last_index rules r i \<longleftrightarrow> i < length rules \<and> rules ! i = r \<and> (\<forall>j. i < j \<longrightarrow> j < length rules \<longrightarrow> rules ! j \<noteq> r)"

definition rm_inv :: "rule_heap \<Rightarrow> ruleManager \<Rightarrow> bool" where
  "rm_inv heap rm \<longleftrightarrow>
     rm_currentIndex rm = length (rm_rules rm) \<and>
     (\<forall>n r i. index_of rm n r = Some i \<longleftrightarrow> last_index (rm_rules rm) r i \<and> has_slashes (heap r) n) \<and>
     antichain (set (gm_keys (rm_prefixes rm))) \<and>
     (\<forall>r \<in> set (rm_rules rm). \<exists>pfxs. rule_getPrefixesWithConstraints (heap r) (rm_constraints rm) = Ret pfxs \<and>
        (\<forall>pfx \<in> set pfxs. \<exists>q \<in> set (gm_keys (rm_prefixes rm)). prefix q pfx))"

lemma last_index_append:
  "last_index (rules @ [rule]) r i \<longleftrightarrow>
     (if r = rule then i = length rules else last_index rules r i)"
  by (auto simp: last_index_def nth_append less_Suc_eq split: if_splits)

lemma addRule_prefixes:
  assumes "rm_prefixes rm' = reducePrefixes ord (fold (\<lambda>pfx m. gm_put m pfx []) pfxs (rm_prefixes rm))"
    and "pfx \<in> set pfxs \<or> (\<exists>q \<in> set (gm_keys (rm_prefixes rm)). prefix q pfx)"
  shows "\<exists>q \<in> set (gm_keys (rm_prefixes rm')). prefix q pfx"
proof -
  let ?m = "fold (\<lambda>pfx m. gm_put m pfx []) pfxs (rm_prefixes rm)"
  have "\<exists>p \<in> set (gm_keys ?m). prefix p pfx"
    using assms(2) by (auto simp: keys_fold_put)
  then obtain p where p: "p \<in> set (gm_keys ?m)" "prefix p pfx" by blast
  then show ?thesis
    using reducePrefixes_spec(3) [OF p(1), of ord] assms(1) by (metis prefix_order.trans)
qed

lemma rm_inv_add:
  assumes "rm_inv heap rm" and "addRule ord heap rm rule = Ret (rm', i)"
  shows "rm_inv heap rm'"
proof -
  obtain pfxs where pf: "rule_getPrefixesWithConstraints (heap rule) (rm_constraints rm) = Ret pfxs"
    and rm': "rm_rules rm' = rm_rules rm @ [rule]" "rm_currentIndex rm' = rm_currentIndex rm + 1"
      "rm_constraints rm' = rm_constraints rm"
      "rm_prefixes rm' = reducePrefixes ord (fold (\<lambda>pfx m. gm_put m pfx []) pfxs (rm_prefixes rm))"
    and ix: "\<And>n r. index_of rm' n r =
      (if r = rule \<and> has_slashes (heap rule) n then Some (rm_currentIndex rm) else index_of rm n r)"
    using addRule_Ret [OF assms(2)] by metis
  note cov = addRule_prefixes [OF rm'(4)]
  have "\<exists>ps. rule_getPrefixesWithConstraints (heap r) (rm_constraints rm') = Ret ps \<and>
      (\<forall>pfx \<in> set ps. \<exists>q \<in> set (gm_keys (rm_prefixes rm')). prefix q pfx)" if "r \<in> set (rm_rules rm')" for r
  proof (cases "r = rule")
    case True
    then show ?thesis using pf rm'(3) cov by auto
  next
    case False
    then have "r \<in> set (rm_rules rm)" using that rm'(1) by simp
    then show ?thesis using assms(1) cov rm'(3) unfolding rm_inv_def by metis
  qed
  moreover have "antichain (set (gm_keys (rm_prefixes rm')))"
    unfolding rm'(4) by (rule reducePrefixes_spec(1))
  moreover have "index_of rm' n r = Some j \<longleftrightarrow> last_index (rm_rules rm') r j \<and> has_slashes (heap r) n" for n r j
    using assms(1) unfolding rm_inv_def ix rm'(1) last_index_append by (auto simp: last_index_def)
  moreover have "rm_currentIndex rm' = length (rm_rules rm')"
    using assms(1) rm' by (simp add: rm_inv_def)
  ultimately show ?thesis unfolding rm_inv_def by blast
qed

lemma managed_inv: "managed ord heap cs enhanced rm \<Longrightarrow> rm_inv heap rm"
proof (induction rule: managed.induct)
  case managed_new
  then show ?case
    by (simp add: rm_inv_def newRuleManager_def index_of_def in_index_def last_index_def antichain_def)
qed (auto intro: rm_inv_add)

lemma managed_config:
  "managed ord heap cs enhanced rm \<Longrightarrow> rm_constraints rm = cs \<and> rm_enhancedRuleFilter rm = enhanced"
  by (induction rule: managed.induct) (auto simp: newRuleManager_def elim: addRule_Ret)

lemma static_entry_Ret:
  assumes "wf_rule r"
  shows "\<exists>es. static_entry enhanced key v r i = Ret es \<and>
    (\<forall>sr j. (sr, j) \<in> set es \<longleftrightarrow>
      j = i \<and> (\<exists>a. makeStaticRule r key v = Ret (Some (sr, a))) \<and> selected enhanced sr key v)"
proof -
  obtain x where "makeStaticRule r key v = Ret x" using make_Ret [OF assms] by blast
  then show ?thesis
    by (cases x) (auto simp: static_entry_def selected_def Let_def)
qed

lemma go_collect_Ret_ex:
  assumes "\<And>x. x \<in> set xs \<Longrightarrow> \<exists>y. f x = Ret y \<and> P x y"
  shows "\<exists>ys. go_collect (map f xs) = Ret ys \<and> list_all2 P xs ys"
proof -
  obtain g where "\<And>x. x \<in> set xs \<Longrightarrow> f x = Ret (g x) \<and> P x (g x)"
    using assms by metis
  then have "go_collect (map f xs) = Ret (map g xs) \<and> list_all2 P xs (map g xs)"
    by (auto intro: go_collect_cong_Ret simp: list_all2_conv_all_nth)
  then show ?thesis by blast
qed

lemma list_all2_concat_mem:
  "list_all2 P xs ys \<Longrightarrow> (\<And>x y z. x \<in> set xs \<Longrightarrow> P x y \<Longrightarrow> z \<in> set y \<longleftrightarrow> Q x z) \<Longrightarrow>
     z \<in> set (concat ys) \<longleftrightarrow> (\<exists>x \<in> set xs. Q x z)"
  by (induction rule: list_all2_induct) auto

lemma getStaticRules_iff:
  assumes "rm_inv heap rm" and "\<forall>r \<in> set (rm_rules rm). wf_rule (heap r)"
  shows "\<exists>out. getStaticRules ord heap rm key v = Ret out \<and>
    (\<forall>sr i. (sr, i) \<in> set out \<longleftrightarrow>
      (\<exists>r a. last_index (rm_rules rm) r i \<and> has_slashes (heap r) (strings_Count key slash) \<and>
        makeStaticRule (heap r) key v = Ret (Some (sr, a)) \<and> selected (rm_enhancedRuleFilter rm) sr key v))"
proof -
  let ?n = "strings_Count key slash"
  have ix: "index_of rm ?n r = Some i \<longleftrightarrow> last_index (rm_rules rm) r i \<and> has_slashes (heap r) ?n" for r i
    using assms(1) by (simp add: rm_inv_def)
  show ?thesis
  proof (cases "gm_get (rm_rulesBySlashCount rm) ?n")
    case None
    then have "index_of rm ?n r = None" for r by (simp add: index_of_def in_index_def)
    then show ?thesis using None ix by (auto simp: getStaticRules_def)
  next
    case (Some rules)
    then have get: "gm_get rules r = index_of rm ?n r" for r by (simp add: index_of_def in_index_def)
    let ?rs = "range_in ord (gm_keys rules)"
    let ?f = "\<lambda>r. static_entry (rm_enhancedRuleFilter rm) key v (heap r) (the (gm_get rules r))"
    let ?P = "\<lambda>r es. \<forall>sr j. (sr, j) \<in> set es \<longleftrightarrow> j = the (gm_get rules r) \<and>
      (\<exists>a. makeStaticRule (heap r) key v = Ret (Some (sr, a))) \<and> selected (rm_enhancedRuleFilter rm) sr key v"
    have "wf_rule (heap r)" if mem: "r \<in> set (gm_keys rules)" for r
    proof -
      obtain i where "gm_get rules r = Some i" using mem gm_get_None_iff [of rules r] by auto
      then have "last_index (rm_rules rm) r i" using ix by (simp add: get)
      then show ?thesis using assms(2) by (auto simp: last_index_def)
    qed
    then have "r \<in> set ?rs \<Longrightarrow> \<exists>es. ?f r = Ret es \<and> ?P r es" for r
      using static_entry_Ret by simp
    then have "\<exists>ess. go_collect (map ?f ?rs) = Ret ess \<and> list_all2 ?P ?rs ess"
      by (rule go_collect_Ret_ex)
    then obtain ess where ess: "go_collect (map ?f ?rs) = Ret ess" and all: "list_all2 ?P ?rs ess"
      by blast
    have "z \<in> set (concat ess) \<longleftrightarrow> (\<exists>r \<in> set ?rs.
        snd z = the (gm_get rules r) \<and> (\<exists>a. makeStaticRule (heap r) key v = Ret (Some (fst z, a))) \<and>
        selected (rm_enhancedRuleFilter rm) (fst z) key v)" for z
      by (rule list_all2_concat_mem [OF all]) (metis prod.collapse)
    moreover have "r \<in> set (gm_keys rules) \<longleftrightarrow> (\<exists>i. gm_get rules r = Some i)" for r
      using gm_get_None_iff [of rules r] by auto
    ultimately have "(sr, i) \<in> set (concat ess) \<longleftrightarrow> (\<exists>r a. index_of rm ?n r = Some i \<and>
        makeStaticRule (heap r) key v = Ret (Some (sr, a)) \<and> selected (rm_enhancedRuleFilter rm) sr key v)" for sr i
      by (auto simp: get intro!: bexI)
    then show ?thesis
      using ess Some by (auto simp: getStaticRules_def ix)
  qed
qed

section \<open>Watch coverage\<close>

lemma go_collect_mem: "go_collect ms = Ret xs \<Longrightarrow> m \<in> set ms \<Longrightarrow> \<exists>x \<in> set xs. m = Ret x"
  by (induction ms arbitrary: xs) (auto simp: go_simps)

lemma rule_prefixes_leaf:
  "rule_getPrefixesWithConstraints r cs = Ret pfxs \<Longrightarrow> krp \<in> set (leaves r) \<Longrightarrow>
     \<exists>ps. leaf_getPrefixesWithConstraints krp cs = Ret ps \<and> set ps \<subseteq> set pfxs"
proof (induction r arbitrary: pfxs)
  case (AndDynamicRule rs ps fs)
  obtain r where r: "r \<in> set rs" "krp \<in> set (leaves r)" using AndDynamicRule.prems(2) by auto
  obtain pss where pss: "go_collect (map (\<lambda>r. rule_getPrefixesWithConstraints r cs) rs) = Ret pss"
    "pfxs = concat pss" using AndDynamicRule.prems(1) by (auto simp: go_simps)
  then obtain qs where "qs \<in> set pss" "rule_getPrefixesWithConstraints r cs = Ret qs"
    using go_collect_mem [OF pss(1)] r(1) by fastforce
  then show ?case using AndDynamicRule.IH [OF r(1) _ r(2)] pss(2) by fastforce
next
  case (OrDynamicRule rs ps fs)
  obtain r where r: "r \<in> set rs" "krp \<in> set (leaves r)" using OrDynamicRule.prems(2) by auto
  obtain pss where pss: "go_collect (map (\<lambda>r. rule_getPrefixesWithConstraints r cs) rs) = Ret pss"
    "pfxs = concat pss" using OrDynamicRule.prems(1) by (auto simp: go_simps)
  then obtain qs where "qs \<in> set pss" "rule_getPrefixesWithConstraints r cs = Ret qs"
    using go_collect_mem [OF pss(1)] r(1) by fastforce
  then show ?case using OrDynamicRule.IH [OF r(1) _ r(2)] pss(2) by fastforce
qed (auto simp: go_simps)

lemma leaf_prefixes_pattern:
  assumes "wf_leaf krp" and "leaf_getPrefixesWithConstraints krp cs = Ret pfxs" and "p \<in> set (dr_patterns krp)"
  obtains m ps where "newRegexKeyMatcher p = Inr m" "getPrefixesWithConstraints m cs = Ret ps" "set ps \<subseteq> set pfxs"
proof -
  obtain m where m: "m \<in> set (dr_matchers krp)" "newRegexKeyMatcher p = Inr m"
    using wf_leaf_matchers(3) [OF assms(1,3)] by blast
  obtain pss where pss: "go_collect (map (\<lambda>km. getPrefixesWithConstraints km cs) (dr_matchers krp)) = Ret pss"
    "pfxs = concat pss" using assms(2) by (auto simp: leaf_getPrefixesWithConstraints_def go_simps)
  obtain ps where "ps \<in> set pss" "getPrefixesWithConstraints m cs = Ret ps"
    using go_collect_mem [OF pss(1)] m(1) by fastforce
  then show thesis using that m(2) pss(2) by auto
qed

text \<open>
  A value the constraints allow for the first parameter of a pattern: there is no constraint for
  it, or the value is one the constraint lists.
\<close>

definition first_param_allowed :: "(string, constraint) gomap \<Rightarrow> (string \<Rightarrow> string option) \<Rightarrow> string \<Rightarrow> bool" where
  "first_param_allowed cs f p \<longleftrightarrow>
     (case params p of [] \<Rightarrow> True
      | n # _ \<Rightarrow> (case gm_get cs n of None \<Rightarrow> True
          | Some c \<Rightarrow> (case f n of Some v \<Rightarrow> constraint_allows c v | None \<Rightarrow> False)))"

lemma pattern_prefix_covers:
  assumes "normal_path p" and "literal_segments_no_colon p" and "newRegexKeyMatcher p = Inr m"
    and "getPrefixesWithConstraints m cs = Ret ps" and "first_param_allowed cs f p"
  shows "\<exists>q \<in> set ps. prefix q (path_format f p)"
proof -
  have m: "rkm_pattern m = p" using newRegexKeyMatcher_Inr(2) [OF assms(3)] .
  show ?thesis
  proof (cases "params p = [] \<or> gm_get cs (hd (params p)) = None")
    case True
    then show ?thesis
      using unconstrained_prefix [OF assms(1,2) m True] assms(4) getPrefix_format [of m f] m assms(1) by simp
  next
    case False
    then obtain n ns c where n: "params p = n # ns" "gm_get cs n = Some c" by (cases "params p") auto
    obtain v where v: "f n = Some v" "constraint_allows c v"
      using assms(5) n by (auto simp: first_param_allowed_def split: option.splits)
    have chars: "chars c \<noteq> []"
      using getPrefixesWithConstraints_first [OF assms(1,2) n(1) m, of cs] n(2) assms(4) by auto
    show ?thesis
      using constrained_prefix_covers [of p n ns m cs c f v, OF assms(1,2) n(1) m n(2) chars v] assms(4)
      by (metis go.inject)
  qed
qed

lemma registered_pattern_covered:
  assumes "rm_inv heap rm" and "r \<in> set (rm_rules rm)" and "wf_rule (heap r)"
    and "p \<in> set (getPatterns (heap r))" and "normal_path p" and "literal_segments_no_colon p"
    and "first_param_allowed (rm_constraints rm) f p"
  shows "\<exists>q \<in> set (gm_keys (rm_prefixes rm)). prefix q (path_format f p)"
proof -
  obtain pfxs where pfxs: "rule_getPrefixesWithConstraints (heap r) (rm_constraints rm) = Ret pfxs"
    "\<forall>pfx \<in> set pfxs. \<exists>q \<in> set (gm_keys (rm_prefixes rm)). prefix q pfx"
    using assms(1,2) unfolding rm_inv_def by blast
  obtain krp where krp: "krp \<in> set (leaves (heap r))" "p \<in> set (dr_patterns krp)"
    using assms(4) getPatterns_leaves [OF assms(3)] by auto
  obtain qs where qs: "leaf_getPrefixesWithConstraints krp (rm_constraints rm) = Ret qs" "set qs \<subseteq> set pfxs"
    using rule_prefixes_leaf [OF pfxs(1) krp(1)] by blast
  obtain m ps where m: "newRegexKeyMatcher p = Inr m" "getPrefixesWithConstraints m (rm_constraints rm) = Ret ps"
    "set ps \<subseteq> set qs"
    using leaf_prefixes_pattern [OF wf_rule_leaves [OF assms(3) krp(1)] qs(1) krp(2)] by blast
  obtain q where "q \<in> set ps" "prefix q (path_format f p)"
    using pattern_prefix_covers [OF assms(5,6) m(1,2), of f] assms(7) by auto
  then show ?thesis
    using pfxs(2) qs(2) m(3) by (meson prefix_order.trans subsetD)
qed

lemma path_format_slashes:
  assumes "normal_path p" and f: "\<And>n. n \<in> set (params p) \<Longrightarrow> \<exists>v. f n = Some v \<and> attr_value_ok v"
  shows "strings_Count (path_format f p) slash = strings_Count p slash"
proof -
  have "path_found f p" "\<forall>v \<in> set (map (\<lambda>n. the (f n)) (params p)). slash \<notin> set v"
    using f attr_value_ok_no_slash by (fastforce simp: path_found_iff)+
  then show ?thesis
    using strings_Count_fill [of "segments p"] segments_no_slash path_format_fill [of f p]
      strings_Count_segments [OF assms(1)] by metis
qed

section \<open>Properties\<close>

text \<open>
  \<open>sortPrefixesByLength\<close> returns the keys of the map, each as often as it occurs, ordered
  from the shortest to the longest, for every order in which the map is visited.
\<close>

theorem sortPrefixesByLength_sorts:
  "sorted (map length (sortPrefixesByLength ord pfxs)) \<and>
   mset (sortPrefixesByLength ord pfxs) = mset (gm_keys pfxs)"
  using sortPrefixesByLength_sorted [of ord pfxs] sortPrefixesByLength_mset [of ord pfxs]
  by (simp add: sorted_map)

text \<open>
  \<open>reducePrefixes\<close> keeps only prefixes it was given, and every key below one of those is
  below exactly one prefix that is kept: one watcher sees it, and no second one.
\<close>

theorem reducePrefixes_covers_once:
  assumes "p \<in> set (gm_keys pfxs)" and "prefix p key"
  shows "set (gm_keys (reducePrefixes ord pfxs)) \<subseteq> set (gm_keys pfxs) \<and>
    (\<exists>!q. q \<in> set (gm_keys (reducePrefixes ord pfxs)) \<and> prefix q key)"
proof -
  obtain q where "q \<in> set (gm_keys (reducePrefixes ord pfxs))" "prefix q p"
    using reducePrefixes_spec(3) [OF assms(1)] by blast
  then show ?thesis
    using reducePrefixes_spec(1,2) [of ord pfxs] antichain_unique assms(2) by (blast intro: prefix_order.trans)
qed

theorem reducePrefixes_covers_once_witness:
  "\<exists>!q. q \<in> set (gm_keys (reducePrefixes reverse_order [(''/a/b/'', []), (''/c'', []), (''/a/'', [])])) \<and>
     prefix q ''/a/b/7''"
proof -
  let ?m = "[(''/a/b/'', []), (''/c'', []), (''/a/'', [])]"
  have "''/a/b/'' \<in> set (gm_keys ?m)" "prefix ''/a/b/'' ''/a/b/7''" by code_simp+
  then show ?thesis using reducePrefixes_covers_once [of "''/a/b/''" ?m "''/a/b/7''" reverse_order] by blast
qed

text \<open>
  C21. In every rule manager that a sequence of \<open>addRule\<close> calls produces, a key selects exactly the
  rules that have a pattern with as many slashes, can be made for the key, and pass the configured
  filter, each with the index under which it was registered last; the lookup never panics.
\<close>

theorem getStaticRules_exact:
  assumes "managed ord heap cs enhanced rm" and "\<forall>r \<in> set (rm_rules rm). wf_rule (heap r)"
  shows "\<exists>out. getStaticRules ord' heap rm key v = Ret out \<and>
    (\<forall>sr i. (sr, i) \<in> set out \<longleftrightarrow>
      (\<exists>r a. last_index (rm_rules rm) r i \<and> has_slashes (heap r) (strings_Count key slash) \<and>
        makeStaticRule (heap r) key v = Ret (Some (sr, a)) \<and> selected enhanced sr key v))"
  using getStaticRules_iff [OF managed_inv [OF assms(1)] assms(2)] managed_config [OF assms(1)] by simp

theorem getStaticRules_exact_witness:
  "\<exists>r rm sr out. NewEqualsLiteralRule ''/a/:x'' None = Inr r \<and>
     addRule insertion_order (\<lambda>_. r) (newRuleManager [] True) 5 = Ret (rm, 0) \<and>
     getStaticRules insertion_order (\<lambda>_. r) rm ''/a/7'' None = Ret out \<and> (sr, 0) \<in> set out"
proof -
  let ?r = "projr (NewEqualsLiteralRule ''/a/:x'' None)"
  have r: "NewEqualsLiteralRule ''/a/:x'' None = Inr ?r" by (rule Inr_projr) code_simp
  let ?add = "addRule insertion_order (\<lambda>_. ?r) (newRuleManager [] True) 5"
  let ?rm = "fst (case ?add of Ret x \<Rightarrow> x)"
  have add: "?add = Ret (?rm, 0)" by code_simp
  have m: "managed insertion_order (\<lambda>_. ?r) [] True ?rm"
    by (rule managed_add [OF managed_new add])
  have wf: "\<forall>r \<in> set (rm_rules ?rm). wf_rule ?r" using wf_NewEqualsLiteralRule [OF r] by simp
  let ?m = "makeStaticRule ?r ''/a/7'' None"
  have "go_is_some ?m" by code_simp
  then have mk: "?m = Ret (Some (fst (go_some ?m), snd (go_some ?m)))" using go_some_eq by simp
  have "rm_rules ?rm = [5]" by code_simp
  then have li: "last_index (rm_rules ?rm) 5 0" by (simp add: last_index_def)
  have hs: "has_slashes ?r (strings_Count ''/a/7'' slash)" by code_simp
  have sel: "selected True (fst (go_some ?m)) ''/a/7'' None" by code_simp
  show ?thesis
    using getStaticRules_exact [OF m wf, of insertion_order "''/a/7''" None] r add li hs mk sel by blast
qed

text \<open>
  C22. Every key a rule is about is watched, exactly once: for each pattern of a registered rule and
  each choice of attribute values that the constraints allow, the formatted key lies below exactly
  one of the manager's prefixes.
\<close>

theorem managed_prefixes_cover_once:
  assumes "managed ord heap cs enhanced rm" and "r \<in> set (rm_rules rm)" and "wf_rule (heap r)"
    and "p \<in> set (getPatterns (heap r))" and "normal_path p" and "literal_segments_no_colon p"
    and "first_param_allowed cs (gm_get values) p"
  shows "\<exists>key. FormatWithAttributes p (MapAttributes values) = Ret key \<and>
    (\<exists>!q. q \<in> set (gm_keys (rm_prefixes rm)) \<and> prefix q key)"
proof -
  let ?f = "attr_lookup (MapAttributes values)"
  have f: "?f = gm_get values" by (rule ext) (simp add: attr_lookup_def)
  note inv = managed_inv [OF assms(1)]
  have cs: "rm_constraints rm = cs" using managed_config [OF assms(1)] by simp
  have "\<exists>q \<in> set (gm_keys (rm_prefixes rm)). prefix q (path_format ?f p)"
    using registered_pattern_covered [OF inv assms(2-6)] assms(7) cs f by simp
  moreover have "antichain (set (gm_keys (rm_prefixes rm)))" using inv by (simp add: rm_inv_def)
  ultimately have "\<exists>!q. q \<in> set (gm_keys (rm_prefixes rm)) \<and> prefix q (path_format ?f p)"
    using antichain_unique by blast
  then show ?thesis using FormatWithAttributes_attr [of "MapAttributes values" p] by simp
qed

theorem managed_prefixes_cover_once_witness:
  "\<exists>r rm i key. NewEqualsRule [''/a/:x/b'', ''/a/:x/:y''] = Inr r \<and>
     addRule reverse_order (\<lambda>_. r)
       (newRuleManager [(''x'', \<lparr>constr_prefix = ''id-'', chars = [[97, 98], [48, 49]]\<rparr>)] False) 3 = Ret (rm, i) \<and>
     FormatWithAttributes ''/a/:x/:y'' (MapAttributes [(''x'', ''id-b1-zz''), (''y'', ''v'')]) = Ret key \<and>
     (\<exists>!q. q \<in> set (gm_keys (rm_prefixes rm)) \<and> prefix q key)"
proof -
  let ?r = "projr (NewEqualsRule [''/a/:x/b'', ''/a/:x/:y''])"
  let ?cs = "[(''x'', \<lparr>constr_prefix = ''id-'', chars = [[97, 98], [48, 49]]\<rparr>)]"
  have r: "NewEqualsRule [''/a/:x/b'', ''/a/:x/:y''] = Inr ?r" by (rule Inr_projr) code_simp
  let ?add = "addRule reverse_order (\<lambda>_. ?r) (newRuleManager ?cs False) 3"
  let ?rm = "fst (case ?add of Ret x \<Rightarrow> x)"
  have add: "?add = Ret (?rm, 0)" by code_simp
  have m: "managed reverse_order (\<lambda>_. ?r) ?cs False ?rm"
    by (rule managed_add [OF managed_new add])
  have in_rules: "3 \<in> set (rm_rules ?rm)" by code_simp
  have p: "''/a/:x/:y'' \<in> set (getPatterns ?r)" by code_simp
  have n: "normal_path ''/a/:x/:y''" by code_simp
  have l: "literal_segments_no_colon ''/a/:x/:y''" by code_simp
  have c: "first_param_allowed ?cs (gm_get [(''x'', ''id-b1-zz''), (''y'', ''v'')]) ''/a/:x/:y''" by code_simp
  show ?thesis
    using managed_prefixes_cover_once [OF m in_rules wf_NewEqualsRule [OF r] p n l c] r add by blast
qed

text \<open>
  With the basic filter no registered rule is missed for its keys: formatting a pattern of a
  rule whose leaves have one normal pattern each, with the same parameters, gives a key for which
  the rule is selected under its index, and the key is one the selected rule reads.
\<close>

theorem getStaticRules_complete:
  assumes "managed ord heap cs False rm" and "\<forall>r \<in> set (rm_rules rm). built ord (heap r)"
    and "last_index (rm_rules rm) r i" and "uniform_in P (heap r)"
    and "p \<in> set (getPatterns (heap r))" and "normal_path p"
    and "\<forall>n \<in> P. \<exists>v. gm_get values n = Some v \<and> attr_value_ok v"
  shows "\<exists>key out sr. FormatWithAttributes p (MapAttributes values) = Ret key \<and>
    getStaticRules ord' heap rm key v = Ret out \<and> (sr, i) \<in> set out \<and> key \<in> set (getKeys sr)"
proof -
  let ?f = "attr_lookup (MapAttributes values)" and ?key = "path_format (attr_lookup (MapAttributes values)) p"
  have b: "built ord (heap r)" using assms(2,3) by (auto simp: last_index_def)
  note wf = built_wf [OF b] and fresh = built_fresh [OF b]
  obtain krp where krp: "krp \<in> set (leaves (heap r))" "p \<in> set (dr_patterns krp)"
    using assms(5) getPatterns_leaves [OF wf] by auto
  have f: "\<And>n. n \<in> P \<Longrightarrow> \<exists>v. ?f n = Some v \<and> attr_value_ok v"
    using assms(7) by (simp add: attr_lookup_def)
  obtain sr a where make: "makeStaticRule (heap r) ?key v = Ret (Some (sr, a))" "satisfiable sr ?key v"
    using make_complete [OF wf fresh assms(4) krp, of ?f v] f by blast
  have "set (params p) \<subseteq> P"
    using uniform_leaves [OF assms(4) krp(1)] krp(2) by (auto simp: leaf_params_def)
  then have "strings_Count ?key slash = strings_Count p slash"
    using path_format_slashes [OF assms(6)] f by blast
  then have "has_slashes (heap r) (strings_Count ?key slash)"
    using assms(5) by (auto simp: has_slashes_def list_ex_iff)
  moreover have "\<forall>r \<in> set (rm_rules rm). wf_rule (heap r)" using assms(2) built_wf by blast
  moreover have "?key \<in> set (getKeys sr)"
    using make keyMatch_iff_getKeys make_inst [OF wf fresh make(1)] uniform_inst_keys [OF wf assms(4), of a]
    by (simp add: satisfiable_eq_keyMatch)
  moreover have "FormatWithAttributes p (MapAttributes values) = Ret ?key"
    by (rule FormatWithAttributes_attr) simp
  moreover have "selected (rm_enhancedRuleFilter rm) sr ?key v"
    using managed_config [OF assms(1)] make(2) by (simp add: selected_def)
  ultimately show ?thesis
    using getStaticRules_iff [OF managed_inv [OF assms(1)], of ord' ?key v] assms(3) make(1) by blast
qed

theorem getStaticRules_complete_witness:
  "\<exists>r rm i key out sr. NewEqualsLiteralRule ''/a/:x/b'' (Some ''1'') = Inr r \<and>
     addRule insertion_order (\<lambda>_. r) (newRuleManager [] False) 4 = Ret (rm, i) \<and>
     FormatWithAttributes ''/a/:x/b'' (MapAttributes [(''x'', ''7'')]) = Ret key \<and>
     getStaticRules reverse_order (\<lambda>_. r) rm key (Some ''0'') = Ret out \<and> (sr, i) \<in> set out \<and>
     key \<in> set (getKeys sr)"
proof -
  let ?r = "projr (NewEqualsLiteralRule ''/a/:x/b'' (Some ''1''))"
  have r: "NewEqualsLiteralRule ''/a/:x/b'' (Some ''1'') = Inr ?r" by (rule Inr_projr) code_simp
  let ?add = "addRule insertion_order (\<lambda>_. ?r) (newRuleManager [] False) 4"
  let ?rm = "fst (case ?add of Ret x \<Rightarrow> x)"
  have add: "?add = Ret (?rm, 0)" by code_simp
  have m: "managed insertion_order (\<lambda>_. ?r) [] False ?rm"
    by (rule managed_add [OF managed_new add])
  have b: "\<forall>r \<in> set (rm_rules ?rm). built insertion_order ?r" using r by (simp add: built_literal)
  have "rm_rules ?rm = [4]" by code_simp
  then have li: "last_index (rm_rules ?rm) 4 0" by (simp add: last_index_def)
  have u: "uniform_in {''x''} ?r" by code_simp
  have p: "''/a/:x/b'' \<in> set (getPatterns ?r)" by code_simp
  have n: "normal_path ''/a/:x/b''" by code_simp
  have v: "\<forall>n \<in> {''x''}. \<exists>v. gm_get [(''x'', ''7'')] n = Some v \<and> attr_value_ok v"
    by (simp add: gm_get_def attr_value_ok_def rx_class_def)
  show ?thesis
    using getStaticRules_complete [OF m b li u p n v, of reverse_order "Some ''0''"] r add by blast
qed

text \<open>
  A rule object that is registered twice is selected only under the second index: whatever was
  attached to the first index is not reached any more.
\<close>

theorem addRule_twice_overwrites_index:
  "\<exists>r rm1 rm2 sr. NewEqualsLiteralRule ''/a/:x'' None = Inr r \<and>
     addRule insertion_order (\<lambda>_. r) (newRuleManager [] False) 5 = Ret (rm1, 0) \<and>
     addRule insertion_order (\<lambda>_. r) rm1 5 = Ret (rm2, 1) \<and>
     getStaticRules insertion_order (\<lambda>_. r) rm2 ''/a/7'' None = Ret [(sr, 1)]"
proof -
  let ?r = "projr (NewEqualsLiteralRule ''/a/:x'' None)"
  have r: "NewEqualsLiteralRule ''/a/:x'' None = Inr ?r" by (rule Inr_projr) code_simp
  let ?rm1 = "fst (case addRule insertion_order (\<lambda>_. ?r) (newRuleManager [] False) 5 of Ret x \<Rightarrow> x)"
  let ?rm2 = "fst (case addRule insertion_order (\<lambda>_. ?r) ?rm1 5 of Ret x \<Rightarrow> x)"
  let ?out = "case getStaticRules insertion_order (\<lambda>_. ?r) ?rm2 ''/a/7'' None of Ret out \<Rightarrow> out"
  have rm1: "addRule insertion_order (\<lambda>_. ?r) (newRuleManager [] False) 5 = Ret (?rm1, 0)" by code_simp
  have rm2: "addRule insertion_order (\<lambda>_. ?r) ?rm1 5 = Ret (?rm2, 1)" by code_simp
  have "(case getStaticRules insertion_order (\<lambda>_. ?r) ?rm2 ''/a/7'' None of
      Ret out \<Rightarrow> map snd out = [1] | _ \<Rightarrow> False)" by code_simp
  then obtain sr where "getStaticRules insertion_order (\<lambda>_. ?r) ?rm2 ''/a/7'' None = Ret [(sr, 1)]"
    by (auto split: go.splits)
  then show ?thesis using r rm1 rm2 by blast
qed

end
