(* ===== verification/KeyProcessor.thy ===== *)
theory KeyProcessor
  imports RuleManager
begin

text \<open>
  \<open>rules/key_processor.go\<close> and the work items of \<open>rules/task.go\<close>: a key and its value select
  rules, the selected rules are evaluated against one batch of reads, and a work item is queued for
  every rule that is satisfied. Callbacks and context providers are the engine's users' functions;
  the model passes them around as numbers. The channels are queues; a send that has to wait for
  room in the buffer is a send.
\<close>

named_theorems kp_simps "fields of a key processor after an operation"

section \<open>Definitions\<close>

type_synonym callback = nat
type_synonym contextProvider = nat

record v3KeyProcessor =
  kp_contextProviders :: "(nat, contextProvider) gomap"
  kp_lockKeyPatterns :: "(nat, string) gomap"
  kp_ruleIDs :: "(nat, string) gomap"
  kp_rm :: ruleManager
  kp_callbacks :: "(nat, callback) gomap"

text \<open>A work item; the task's logger, context and start times are left out.\<close>

record v3RuleWork =
  w_rule :: static_rule
  w_ruleID :: string
  w_attr :: attributes
  w_metadata :: "(string, string) gomap"
  w_ruleTaskCallback :: "callback option"
  w_ruleIndex :: nat
  w_lockKey :: string
  w_keyPattern :: string
  w_contextProvider :: "contextProvider option"

record keyTask =
  kt_key :: string
  kt_value :: "string option"
  kt_metadata :: "(string, string) gomap"

definition newV3KeyProcessor :: "ruleManager \<Rightarrow> v3KeyProcessor" where
  "newV3KeyProcessor rm =
     \<lparr>kp_contextProviders = [], kp_lockKeyPatterns = [], kp_ruleIDs = [], kp_rm = rm, kp_callbacks = []\<rparr>"

definition setLockKeyPattern :: "v3KeyProcessor \<Rightarrow> nat \<Rightarrow> string \<Rightarrow> v3KeyProcessor" where
  "setLockKeyPattern kp index pattern = kp\<lparr>kp_lockKeyPatterns := gm_put (kp_lockKeyPatterns kp) index pattern\<rparr>"

definition setRuleID :: "v3KeyProcessor \<Rightarrow> nat \<Rightarrow> string \<Rightarrow> v3KeyProcessor" where
  "setRuleID kp index ruleID = kp\<lparr>kp_ruleIDs := gm_put (kp_ruleIDs kp) index ruleID\<rparr>"

definition setContextProvider :: "v3KeyProcessor \<Rightarrow> nat \<Rightarrow> contextProvider \<Rightarrow> v3KeyProcessor" where
  "setContextProvider kp index cp = kp\<lparr>kp_contextProviders := gm_put (kp_contextProviders kp) index cp\<rparr>"

definition setCallback :: "v3KeyProcessor \<Rightarrow> nat \<Rightarrow> callback \<Rightarrow> v3KeyProcessor" where
  "setCallback kp index cb = kp\<lparr>kp_callbacks := gm_put (kp_callbacks kp) index cb\<rparr>"

text \<open>
  \<open>dispatchWork\<close>: the work item that is sent; reading an absent map entry gives nil. After the
  send the method calls the item's context provider, through \<open>getMethodNameFromProvider\<close>, to label
  the time the send took: without a provider this is a call of a nil function. The panic is in the
  goroutine of the key worker, where nothing recovers it, so the process ends; a worker that took the
  item in the meantime calls the same provider before it does anything else. The result is therefore
  the item or the panic.
\<close>

definition dispatchWork ::
  "v3KeyProcessor \<Rightarrow> nat \<Rightarrow> static_rule \<Rightarrow> string \<Rightarrow> (string, string) gomap \<Rightarrow> string \<Rightarrow> v3RuleWork go" where
  "dispatchWork kp index rule keyPattern metadata ruleID =
     go_bind (getAttributes rule) (\<lambda>attr.
     go_bind (FormatWithAttributes keyPattern attr) (\<lambda>lockKey.
       let work = \<lparr>w_rule = rule, w_ruleID = ruleID, w_attr = attr, w_metadata = metadata,
            w_ruleTaskCallback = gm_get (kp_callbacks kp) index, w_ruleIndex = index, w_lockKey = lockKey,
            w_keyPattern = keyPattern, w_contextProvider = gm_get (kp_contextProviders kp) index\<rparr>
       in case w_contextProvider work of None \<Rightarrow> Panic | Some cp \<Rightarrow> Ret work))"

text \<open>
  The second loop of \<open>processKey\<close>: the rule IDs handed to \<open>timesEvaluated\<close> and the work
  items sent. An error of \<open>satisfied\<close> is ignored, the rule then counts as not satisfied.
\<close>

primrec dispatch_rules ::
  "v3KeyProcessor \<Rightarrow> read_get \<Rightarrow> (string, string) gomap \<Rightarrow> (static_rule \<times> nat) list \<Rightarrow>
   (string list \<times> v3RuleWork list) go" where
  "dispatch_rules kp get metadata [] = Ret ([], [])"
| "dispatch_rules kp get metadata (entry # entries) =
     (case entry of (rule, index) \<Rightarrow>
        let ruleID = (case gm_get (kp_ruleIDs kp) index of Some i \<Rightarrow> i | None \<Rightarrow> []);
            sat = (case satisfied rule get of Inr b \<Rightarrow> b | Inl _ \<Rightarrow> False)
        in go_bind
             (if sat then
                (case gm_get (kp_lockKeyPatterns kp) index of
                   None \<Rightarrow> Ret []
                 | Some keyPattern \<Rightarrow>
                     go_bind (dispatchWork kp index rule keyPattern metadata ruleID) (\<lambda>w. Ret [w]))
              else Ret [])
             (\<lambda>ws. go_bind (dispatch_rules kp get metadata entries)
               (\<lambda>(ids, ws'). Ret (ruleID # ids, ws @ ws'))))"

text \<open>
  \<open>processKey\<close>. \<open>getCachedAPI\<close> is the batch read of the API it is given; when it fails,
  nothing is dispatched. The selected rules are a map, visited in any order.
\<close>

definition processKey ::
  "rule_ptr range_order \<Rightarrow> (static_rule \<times> nat) range_order \<Rightarrow> rule_heap \<Rightarrow> v3KeyProcessor \<Rightarrow>
   (string list \<Rightarrow> string + read_get) \<Rightarrow> string \<Rightarrow> string option \<Rightarrow> (string, string) gomap \<Rightarrow>
   (string list \<times> v3RuleWork list) go" where
  "processKey ord ord' heap kp getCachedAPI key value metadata =
     go_bind (getStaticRules ord heap (kp_rm kp) key value) (\<lambda>rules.
       let keys = concat (map (\<lambda>(rule, index). getKeys rule) (range_in ord' rules))
       in case getCachedAPI keys of
            Inl err \<Rightarrow> Ret ([], [])
          | Inr api \<Rightarrow> dispatch_rules kp api metadata (range_in ord' rules))"

text \<open>
  The \<open>processKey\<close> that watchers and the crawler call: it only puts the task into the channel of
  the key workers. The API, the logger and the counter of a task are parameters of the key worker.
\<close>

definition v3_processKey ::
  "string \<Rightarrow> string option \<Rightarrow> (string, string) gomap \<Rightarrow> keyTask list \<Rightarrow> keyTask list" where
  "v3_processKey key value metadata kpChannel =
     kpChannel @ [\<lparr>kt_key = key, kt_value = value, kt_metadata = metadata\<rparr>]"

text \<open>One iteration of \<open>keyWorker\<close>: a task from the channel.\<close>

definition keyWorker ::
  "rule_ptr range_order \<Rightarrow> (static_rule \<times> nat) range_order \<Rightarrow> rule_heap \<Rightarrow> v3KeyProcessor \<Rightarrow>
   (string list \<Rightarrow> string + read_get) \<Rightarrow> keyTask list \<Rightarrow> v3RuleWork list \<Rightarrow>
   (keyTask list \<times> v3RuleWork list) go" where
  "keyWorker ord ord' heap kp getCachedAPI kpChannel channel =
     (case kpChannel of
        [] \<Rightarrow> Ret ([], channel)
      | task # rest \<Rightarrow>
          go_bind (processKey ord ord' heap kp getCachedAPI (kt_key task) (kt_value task) (kt_metadata task))
            (\<lambda>(ids, works). Ret (rest, channel @ works)))"

text \<open>The loop of \<open>isWork\<close>.\<close>

primrec any_satisfied :: "read_get \<Rightarrow> (static_rule \<times> nat) list \<Rightarrow> bool" where
  "any_satisfied get [] = False"
| "any_satisfied get (entry # entries) =
     (case satisfied (fst entry) get of
        Inr True \<Rightarrow> True
      | _ \<Rightarrow> any_satisfied get entries)"

definition isWork ::
  "rule_ptr range_order \<Rightarrow> (static_rule \<times> nat) range_order \<Rightarrow> rule_heap \<Rightarrow> v3KeyProcessor \<Rightarrow>
   read_get \<Rightarrow> string \<Rightarrow> string option \<Rightarrow> bool go" where
  "isWork ord ord' heap kp get key value =
     go_bind (getStaticRules ord heap (kp_rm kp) key value)
       (\<lambda>rules. Ret (any_satisfied get (range_in ord' rules)))"

section \<open>Attributes of a made rule\<close>

text \<open>Rules in which no AND and no OR is empty.\<close>

primrec no_empty :: "dynamic_rule \<Rightarrow> bool" where
  "no_empty (Leaf krp) = True"
| "no_empty (AndDynamicRule rs ps fs) = (rs \<noteq> [] \<and> list_all (\<lambda>b. b) (map no_empty rs))"
| "no_empty (OrDynamicRule rs ps fs) = (rs \<noteq> [] \<and> list_all (\<lambda>b. b) (map no_empty rs))"
| "no_empty (NotDynamicRule r ps fs) = no_empty r"

lemma getAttributes_inst: "no_empty r \<Longrightarrow> getAttributes (inst a r) = Ret a"
proof (induction r)
  case (Leaf krp)
  then show ?case by (cases "dr_factory krp") (simp_all add: leaf_inst_def)
next
  case (AndDynamicRule rs ps fs)
  then show ?case by (cases rs) (simp_all add: static_simps)
next
  case (OrDynamicRule rs ps fs)
  then show ?case by (cases rs) (simp_all add: static_simps)
qed simp

lemma dispatchWork_made:
  assumes "wf_rule r" and "fresh_attributes r" and "no_empty r"
    and "makeStaticRule r key v = Ret (Some (sr, a))"
  shows "dispatchWork kp i sr p metadata ruleID =
    (case gm_get (kp_contextProviders kp) i of
       None \<Rightarrow> Panic
     | Some cp \<Rightarrow>
         Ret \<lparr>w_rule = sr, w_ruleID = ruleID, w_attr = a, w_metadata = metadata,
              w_ruleTaskCallback = gm_get (kp_callbacks kp) i, w_ruleIndex = i,
              w_lockKey = path_format (attr_lookup a) p,
              w_keyPattern = p, w_contextProvider = Some cp\<rparr>)"
  using getAttributes_inst [OF assms(3), of a] make_inst [OF assms(1,2,4)]
    FormatWithAttributes_attr [OF make_attr_wf [OF assms(1,4)], of p]
  by (simp add: dispatchWork_def split: option.split)

lemma any_satisfied_iff: "any_satisfied get entries \<longleftrightarrow> (\<exists>(rule, i) \<in> set entries. satisfied rule get = Inr True)"
  by (induction entries) (auto split: sum.splits bool.splits)

text \<open>What the second loop of \<open>processKey\<close> sends, when no dispatch panics.\<close>

definition rule_sat :: "read_get \<Rightarrow> static_rule \<Rightarrow> bool" where
  "rule_sat get rule \<longleftrightarrow> satisfied rule get = Inr True"

definition rule_id :: "v3KeyProcessor \<Rightarrow> nat \<Rightarrow> string" where
  "rule_id kp i = (case gm_get (kp_ruleIDs kp) i of Some x \<Rightarrow> x | None \<Rightarrow> [])"

definition sent_work ::
  "v3KeyProcessor \<Rightarrow> read_get \<Rightarrow> (string, string) gomap \<Rightarrow> static_rule \<times> nat \<Rightarrow> v3RuleWork list" where
  "sent_work kp get metadata entry =
     (case entry of (sr, i) \<Rightarrow>
        if rule_sat get sr then
          (case gm_get (kp_lockKeyPatterns kp) i of
             None \<Rightarrow> []
           | Some p \<Rightarrow> (case dispatchWork kp i sr p metadata (rule_id kp i) of Ret w \<Rightarrow> [w] | _ \<Rightarrow> []))
        else [])"

text \<open>The entries whose rule is dispatched: satisfied, with a lock pattern.\<close>

definition dispatches :: "v3KeyProcessor \<Rightarrow> read_get \<Rightarrow> static_rule \<times> nat \<Rightarrow> bool" where
  "dispatches kp get entry \<longleftrightarrow> rule_sat get (fst entry) \<and> gm_get (kp_lockKeyPatterns kp) (snd entry) \<noteq> None"

lemma dispatch_rules_step:
  "dispatch_rules kp get metadata ((sr, i) # entries) =
     go_bind (if dispatches kp get (sr, i)
              then go_bind (dispatchWork kp i sr (the (gm_get (kp_lockKeyPatterns kp) i)) metadata (rule_id kp i)) (\<lambda>w. Ret [w])
              else Ret [])
       (\<lambda>ws. go_bind (dispatch_rules kp get metadata entries) (\<lambda>(ids, ws'). Ret (rule_id kp i # ids, ws @ ws')))"
proof -
  have "(case satisfied sr get of Inr b \<Rightarrow> b | Inl _ \<Rightarrow> False) = rule_sat get sr"
    by (auto simp: rule_sat_def split: sum.splits)
  then show ?thesis
    by (cases "gm_get (kp_lockKeyPatterns kp) i") (simp_all add: dispatches_def rule_id_def [symmetric] Let_def)
qed

lemma dispatch_rules_Ret:
  assumes "\<And>sr i p ruleID. (sr, i) \<in> set entries \<Longrightarrow> dispatches kp get (sr, i) \<Longrightarrow>
    \<exists>w. dispatchWork kp i sr p metadata ruleID = Ret w"
  shows "dispatch_rules kp get metadata entries =
    Ret (map (\<lambda>(sr, i). rule_id kp i) entries, concat (map (sent_work kp get metadata) entries))"
  using assms
proof (induction entries)
  case (Cons entry entries)
  obtain sr i where entry: "entry = (sr, i)" by fastforce
  have IH: "dispatch_rules kp get metadata entries =
      Ret (map (\<lambda>(sr, i). rule_id kp i) entries, concat (map (sent_work kp get metadata) entries))"
    by (rule Cons.IH) (use Cons.prems in auto)
  show ?case
  proof (cases "dispatches kp get (sr, i)")
    case True
    then obtain p where p: "gm_get (kp_lockKeyPatterns kp) i = Some p" by (auto simp: dispatches_def)
    obtain w where "dispatchWork kp i sr p metadata (rule_id kp i) = Ret w"
      using Cons.prems [of sr i p "rule_id kp i"] entry True by auto
    then show ?thesis
      unfolding entry dispatch_rules_step IH using True p
      by (simp add: sent_work_def [of _ _ _ "(sr, i)"] dispatches_def)
  next
    case False
    then have "sent_work kp get metadata (sr, i) = []" by (auto simp: sent_work_def dispatches_def)
    with False show ?thesis unfolding entry dispatch_rules_step IH by simp
  qed
qed simp

lemma dispatch_rules_Panic:
  assumes "\<And>sr i p ruleID. (sr, i) \<in> set entries \<Longrightarrow>
      dispatchWork kp i sr p metadata ruleID = Panic \<or> (\<exists>w. dispatchWork kp i sr p metadata ruleID = Ret w)"
    and "(sr, i) \<in> set entries" and "dispatches kp get (sr, i)"
    and "\<And>p ruleID. dispatchWork kp i sr p metadata ruleID = Panic"
  shows "dispatch_rules kp get metadata entries = Panic"
  using assms(1,2)
proof (induction entries)
  case (Cons entry entries)
  obtain sr' i' where entry: "entry = (sr', i')" by fastforce
  show ?case
  proof (cases "(sr, i) \<in> set entries")
    case True
    have IH: "dispatch_rules kp get metadata entries = Panic"
      by (rule Cons.IH [OF _ True]) (use Cons.prems(1) in auto)
    show ?thesis
      unfolding entry dispatch_rules_step IH
      using Cons.prems(1) [of sr' i' "the (gm_get (kp_lockKeyPatterns kp) i')" "rule_id kp i'"] entry by auto
  next
    case False
    then have "entry = (sr, i)" using Cons.prems(2) by auto
    then show ?thesis using assms(3,4) by (simp add: dispatch_rules_step del: dispatch_rules.simps)
  qed
qed simp

section \<open>Processing a key\<close>

text \<open>The rules of a manager as the engine's users build them.\<close>

definition admissible :: "rule_heap \<Rightarrow> ruleManager \<Rightarrow> bool" where
  "admissible heap rm \<longleftrightarrow>
     (\<forall>r \<in> set (rm_rules rm). wf_rule (heap r) \<and> fresh_attributes (heap r) \<and> no_empty (heap r))"

text \<open>The static rules a key selects, with their index and attributes.\<close>

definition selects ::
  "rule_heap \<Rightarrow> ruleManager \<Rightarrow> string \<Rightarrow> string option \<Rightarrow> static_rule \<Rightarrow> nat \<Rightarrow> attributes \<Rightarrow> bool" where
  "selects heap rm key v sr i a \<longleftrightarrow>
     (\<exists>r. last_index (rm_rules rm) r i \<and> has_slashes (heap r) (strings_Count key slash) \<and>
        makeStaticRule (heap r) key v = Ret (Some (sr, a)) \<and> selected (rm_enhancedRuleFilter rm) sr key v)"

lemma getStaticRules_selects:
  assumes "rm_inv heap rm" and "admissible heap rm"
  obtains out where "getStaticRules ord heap rm key v = Ret out"
    and "\<And>sr i. (sr, i) \<in> set out \<longleftrightarrow> (\<exists>a. selects heap rm key v sr i a)"
proof -
  have "\<forall>r \<in> set (rm_rules rm). wf_rule (heap r)" using assms(2) by (simp add: admissible_def)
  then show thesis
    using getStaticRules_iff [OF assms(1), of ord key v] that unfolding selects_def by metis
qed

definition work_item ::
  "v3KeyProcessor \<Rightarrow> (string, string) gomap \<Rightarrow> static_rule \<Rightarrow> nat \<Rightarrow> attributes \<Rightarrow> string \<Rightarrow> v3RuleWork" where
  "work_item kp metadata sr i a p =
     \<lparr>w_rule = sr, w_ruleID = rule_id kp i, w_attr = a, w_metadata = metadata,
      w_ruleTaskCallback = gm_get (kp_callbacks kp) i, w_ruleIndex = i,
      w_lockKey = path_format (attr_lookup a) p, w_keyPattern = p,
      w_contextProvider = gm_get (kp_contextProviders kp) i\<rparr>"

lemma selects_dispatch:
  assumes "admissible heap rm" and "selects heap rm key v sr i a"
  shows "gm_get (kp_contextProviders kp) i \<noteq> None \<Longrightarrow>
      dispatchWork kp i sr p metadata (rule_id kp i) = Ret (work_item kp metadata sr i a p)"
    and "gm_get (kp_contextProviders kp) i \<noteq> None \<Longrightarrow> \<exists>w. dispatchWork kp i sr p metadata ruleID = Ret w"
    and "gm_get (kp_contextProviders kp) i = None \<Longrightarrow> dispatchWork kp i sr p metadata ruleID = Panic"
    and "getAttributes sr = Ret a"
proof -
  obtain r where r: "last_index (rm_rules rm) r i" "makeStaticRule (heap r) key v = Ret (Some (sr, a))"
    using assms(2) by (auto simp: selects_def)
  then have ok: "wf_rule (heap r)" "fresh_attributes (heap r)" "no_empty (heap r)"
    using assms(1) by (auto simp: admissible_def last_index_def)
  note work = dispatchWork_made [OF ok r(2), where kp = kp and i = i]
  show "gm_get (kp_contextProviders kp) i \<noteq> None \<Longrightarrow>
      dispatchWork kp i sr p metadata (rule_id kp i) = Ret (work_item kp metadata sr i a p)"
    and "gm_get (kp_contextProviders kp) i \<noteq> None \<Longrightarrow> \<exists>w. dispatchWork kp i sr p metadata ruleID = Ret w"
    and "gm_get (kp_contextProviders kp) i = None \<Longrightarrow> dispatchWork kp i sr p metadata ruleID = Panic"
    by (auto simp: work work_item_def)
  show "getAttributes sr = Ret a"
    using getAttributes_inst [OF ok(3), of a] make_inst [OF ok(1,2) r(2)] by simp
qed

text \<open>Every rule that has a lock pattern has a context provider.\<close>

definition providers_set :: "v3KeyProcessor \<Rightarrow> bool" where
  "providers_set kp \<longleftrightarrow> (\<forall>i < length (rm_rules (kp_rm kp)).
     gm_get (kp_lockKeyPatterns kp) i \<noteq> None \<longrightarrow> gm_get (kp_contextProviders kp) i \<noteq> None)"

text \<open>A key whose dispatch reaches a rule without a context provider.\<close>

definition lacks_provider ::
  "rule_heap \<Rightarrow> v3KeyProcessor \<Rightarrow> read_get \<Rightarrow> string \<Rightarrow> string option \<Rightarrow> bool" where
  "lacks_provider heap kp get key v \<longleftrightarrow>
     (\<exists>sr i a. selects heap (kp_rm kp) key v sr i a \<and> dispatches kp get (sr, i) \<and>
        gm_get (kp_contextProviders kp) i = None)"

lemma providers_set_lacks: "providers_set kp \<Longrightarrow> \<not> lacks_provider heap kp get key v"
  by (auto simp: providers_set_def lacks_provider_def dispatches_def selects_def last_index_def)

lemma not_lacks_provider:
  assumes "\<not> lacks_provider heap kp get key v" and "selects heap (kp_rm kp) key v sr i a"
    and "rule_sat get sr" and "gm_get (kp_lockKeyPatterns kp) i = Some p"
  shows "gm_get (kp_contextProviders kp) i \<noteq> None"
proof
  assume "gm_get (kp_contextProviders kp) i = None"
  with assms(2-4) have "lacks_provider heap kp get key v"
    unfolding lacks_provider_def dispatches_def by (intro exI [of _ sr] exI [of _ i] exI [of _ a]) simp
  with assms(1) show False by contradiction
qed

text \<open>The works sent for a set of selected rules.\<close>

lemma sent_work_iff:
  assumes "admissible heap (kp_rm kp)" and "\<not> lacks_provider heap kp get key v"
    and "\<And>sr i. (sr, i) \<in> set out \<longleftrightarrow> (\<exists>a. selects heap (kp_rm kp) key v sr i a)"
  shows "w \<in> set (concat (map (sent_work kp get metadata) out)) \<longleftrightarrow>
    (\<exists>sr i a p. selects heap (kp_rm kp) key v sr i a \<and> rule_sat get sr \<and>
      gm_get (kp_lockKeyPatterns kp) i = Some p \<and> w = work_item kp metadata sr i a p)" (is "?L \<longleftrightarrow> ?R")
proof
  assume ?L
  then obtain sr i where out: "(sr, i) \<in> set out" and w: "w \<in> set (sent_work kp get metadata (sr, i))" by auto
  obtain a where a: "selects heap (kp_rm kp) key v sr i a" using assms(3) out by blast
  have sat: "rule_sat get sr"
  proof (rule ccontr)
    assume "\<not> rule_sat get sr"
    with w show False by (simp add: sent_work_def)
  qed
  then obtain p where p: "gm_get (kp_lockKeyPatterns kp) i = Some p"
    using w by (cases "gm_get (kp_lockKeyPatterns kp) i") (auto simp: sent_work_def)
  have "gm_get (kp_contextProviders kp) i \<noteq> None"
    using not_lacks_provider [OF assms(2) a sat p] .
  then have "w = work_item kp metadata sr i a p"
    using w sat p selects_dispatch(1) [OF assms(1) a, of kp p metadata] by (simp add: sent_work_def)
  then show ?R using a sat p by blast
next
  assume ?R
  then obtain sr i a p where r: "selects heap (kp_rm kp) key v sr i a" "rule_sat get sr"
    "gm_get (kp_lockKeyPatterns kp) i = Some p" "w = work_item kp metadata sr i a p" by blast
  then have "gm_get (kp_contextProviders kp) i \<noteq> None" using not_lacks_provider [OF assms(2)] by blast
  then have "w \<in> set (sent_work kp get metadata (sr, i))"
    using r selects_dispatch(1) [OF assms(1) r(1), of kp p metadata] by (simp add: sent_work_def)
  then show ?L using assms(3) r(1) by auto
qed

text \<open>A batch of reads that answers every requested key with its value in the store \<open>st\<close>.\<close>

definition reads_store :: "(string list \<Rightarrow> string + read_get) \<Rightarrow> (string \<Rightarrow> string option) \<Rightarrow> bool" where
  "reads_store getCachedAPI st \<longleftrightarrow>
     (\<forall>keys. \<exists>api. getCachedAPI keys = Inr api \<and> (\<forall>k \<in> set keys. api k = Inr (st k)))"

text \<open>The loop of \<open>processKey\<close> runs over the selected rules, evaluated against the store.\<close>

lemma processKey_loop:
  assumes "rm_inv heap (kp_rm kp)" and "admissible heap (kp_rm kp)" and "reads_store getCachedAPI st"
  obtains rs api where "processKey ord ord' heap kp getCachedAPI key v metadata = dispatch_rules kp api metadata rs"
    and "\<And>sr i. (sr, i) \<in> set rs \<longleftrightarrow> (\<exists>a. selects heap (kp_rm kp) key v sr i a)"
    and "\<And>sr i. (sr, i) \<in> set rs \<Longrightarrow> rule_sat api sr = rule_sat (\<lambda>k. Inr (st k)) sr"
proof -
  obtain out where out: "getStaticRules ord heap (kp_rm kp) key v = Ret out"
    and sel: "\<And>sr i. (sr, i) \<in> set out \<longleftrightarrow> (\<exists>a. selects heap (kp_rm kp) key v sr i a)"
    using getStaticRules_selects [OF assms(1,2)] by metis
  let ?rs = "range_in ord' out"
  let ?keys = "concat (map (\<lambda>(rule, index). getKeys rule) ?rs)"
  obtain api where api: "getCachedAPI ?keys = Inr api" "\<And>k. k \<in> set ?keys \<Longrightarrow> api k = Inr (st k)"
    using assms(3) unfolding reads_store_def by blast
  have sat: "rule_sat api sr = rule_sat (\<lambda>k. Inr (st k)) sr" if "(sr, i) \<in> set ?rs" for sr i
  proof -
    have "satisfied sr api = satisfied sr (\<lambda>k. Inr (st k))"
      by (rule satisfied_cong) (use api(2) that in force)
    then show ?thesis by (simp add: rule_sat_def)
  qed
  have "processKey ord ord' heap kp getCachedAPI key v metadata = dispatch_rules kp api metadata ?rs"
    by (simp only: processKey_def out go_bind.simps Let_def api(1) sum.case)
  then show thesis using that [of api ?rs] sel sat by simp
qed

lemma processKey_spec:
  assumes "rm_inv heap (kp_rm kp)" and "admissible heap (kp_rm kp)" and "reads_store getCachedAPI st"
    and "\<not> lacks_provider heap kp (\<lambda>k. Inr (st k)) key v"
  shows "\<exists>ids ws. processKey ord ord' heap kp getCachedAPI key v metadata = Ret (ids, ws) \<and>
    (\<forall>w. w \<in> set ws \<longleftrightarrow> (\<exists>sr i a p. selects heap (kp_rm kp) key v sr i a \<and> rule_sat (\<lambda>k. Inr (st k)) sr \<and>
      gm_get (kp_lockKeyPatterns kp) i = Some p \<and> w = work_item kp metadata sr i a p))"
proof -
  let ?st = "\<lambda>k. Inr (st k)"
  obtain rs api where run: "processKey ord ord' heap kp getCachedAPI key v metadata = dispatch_rules kp api metadata rs"
    and sel: "\<And>sr i. (sr, i) \<in> set rs \<longleftrightarrow> (\<exists>a. selects heap (kp_rm kp) key v sr i a)"
    and sat: "\<And>sr i. (sr, i) \<in> set rs \<Longrightarrow> rule_sat api sr = rule_sat ?st sr"
    using processKey_loop [OF assms(1-3)] by metis
  have "\<exists>w. dispatchWork kp i sr p metadata ruleID = Ret w"
    if e: "(sr, i) \<in> set rs" "dispatches kp api (sr, i)" for sr i p ruleID
  proof -
    obtain a where a: "selects heap (kp_rm kp) key v sr i a" using sel e(1) by blast
    have "dispatches kp ?st (sr, i)" using e sat by (simp add: dispatches_def)
    then obtain q where "rule_sat ?st sr" "gm_get (kp_lockKeyPatterns kp) i = Some q" by (auto simp: dispatches_def)
    then have "gm_get (kp_contextProviders kp) i \<noteq> None" by (rule not_lacks_provider [OF assms(4) a])
    then show ?thesis by (rule selects_dispatch(2) [OF assms(2) a])
  qed
  then have "dispatch_rules kp api metadata rs =
      Ret (map (\<lambda>(sr, i). rule_id kp i) rs, concat (map (sent_work kp api metadata) rs))"
    by (rule dispatch_rules_Ret)
  moreover have "map (sent_work kp api metadata) rs = map (sent_work kp ?st metadata) rs"
    using sat by (auto simp: sent_work_def)
  ultimately show ?thesis using run sent_work_iff [OF assms(2,4) sel] by auto
qed

lemma processKey_panics:
  assumes "rm_inv heap (kp_rm kp)" and "admissible heap (kp_rm kp)" and "reads_store getCachedAPI st"
    and "lacks_provider heap kp (\<lambda>k. Inr (st k)) key v"
  shows "processKey ord ord' heap kp getCachedAPI key v metadata = Panic"
proof -
  obtain rs api where run: "processKey ord ord' heap kp getCachedAPI key v metadata = dispatch_rules kp api metadata rs"
    and sel: "\<And>sr i. (sr, i) \<in> set rs \<longleftrightarrow> (\<exists>a. selects heap (kp_rm kp) key v sr i a)"
    and sat: "\<And>sr i. (sr, i) \<in> set rs \<Longrightarrow> rule_sat api sr = rule_sat (\<lambda>k. Inr (st k)) sr"
    using processKey_loop [OF assms(1-3)] by metis
  obtain sr i a where s: "selects heap (kp_rm kp) key v sr i a" "dispatches kp (\<lambda>k. Inr (st k)) (sr, i)"
    "gm_get (kp_contextProviders kp) i = None" using assms(4) unfolding lacks_provider_def by blast
  have e: "(sr, i) \<in> set rs" using sel s(1) by blast
  moreover have "dispatches kp api (sr, i)" using s(2) sat [OF e] by (simp add: dispatches_def)
  moreover have "dispatchWork kp i' sr' p metadata ruleID = Panic \<or> (\<exists>w. dispatchWork kp i' sr' p metadata ruleID = Ret w)"
    if e': "(sr', i') \<in> set rs" for sr' i' p ruleID
  proof -
    obtain a' where a': "selects heap (kp_rm kp) key v sr' i' a'" using e' unfolding sel by (elim exE)
    show ?thesis
      using selects_dispatch(2,3) [OF assms(2) a', of kp p metadata ruleID]
      by (cases "gm_get (kp_contextProviders kp) i'") blast+
  qed
  moreover have "dispatchWork kp i sr p metadata ruleID = Panic" for p ruleID
    by (rule selects_dispatch(3) [OF assms(2) s(1,3)])
  ultimately show ?thesis unfolding run by (intro dispatch_rules_Panic)
qed

lemma isWork_spec:
  assumes "rm_inv heap (kp_rm kp)" and "admissible heap (kp_rm kp)"
  shows "isWork ord ord' heap kp get key v =
    Ret (\<exists>sr i a. selects heap (kp_rm kp) key v sr i a \<and> rule_sat get sr)"
proof -
  obtain out where out: "getStaticRules ord heap (kp_rm kp) key v = Ret out"
    and sel: "\<And>sr i. (sr, i) \<in> set out \<longleftrightarrow> (\<exists>a. selects heap (kp_rm kp) key v sr i a)"
    using getStaticRules_selects [OF assms] by metis
  have "any_satisfied get (range_in ord' out) \<longleftrightarrow> (\<exists>sr i. (sr, i) \<in> set out \<and> rule_sat get sr)"
    by (auto simp: any_satisfied_iff rule_sat_def)
  then show ?thesis by (simp add: isWork_def out sel)
qed

section \<open>Properties\<close>

text \<open>
  C9. Processing a key queues exactly one kind of work: a work item is sent if and only if its rule
  is selected for the key, is satisfied by the values that one batch of reads returned, and has a
  lock pattern; the item carries the attributes of the match, the callback and context provider
  registered under the rule's index, and the lock key formatted with those attributes. This holds
  when every rule so dispatched has a context provider, and then nothing panics; when one of them has
  none, processing the key ends in a panic.
\<close>

theorem processKey_dispatches_exactly:
  assumes "managed ord0 heap cs enhanced (kp_rm kp)" and "admissible heap (kp_rm kp)"
    and "reads_store getCachedAPI st"
  shows "if \<exists>sr i a. selects heap (kp_rm kp) key v sr i a \<and> satisfied sr (\<lambda>k. Inr (st k)) = Inr True \<and>
        gm_get (kp_lockKeyPatterns kp) i \<noteq> None \<and> gm_get (kp_contextProviders kp) i = None
    then processKey ord ord' heap kp getCachedAPI key v metadata = Panic
    else \<exists>ids ws. processKey ord ord' heap kp getCachedAPI key v metadata = Ret (ids, ws) \<and>
      (\<forall>w. w \<in> set ws \<longleftrightarrow> (\<exists>sr i a p. selects heap (kp_rm kp) key v sr i a \<and>
        satisfied sr (\<lambda>k. Inr (st k)) = Inr True \<and>
        gm_get (kp_lockKeyPatterns kp) i = Some p \<and> w = work_item kp metadata sr i a p))"
  using processKey_spec [OF managed_inv [OF assms(1)] assms(2,3)]
    processKey_panics [OF managed_inv [OF assms(1)] assms(2,3)]
  unfolding rule_sat_def lacks_provider_def dispatches_def fst_conv snd_conv by presburger

theorem processKey_dispatches_exactly_witness:
  "\<exists>r rm ids ws w. NewEqualsLiteralRule ''/a/:x'' (Some ''1'') = Inr r \<and>
     addRule insertion_order (\<lambda>_. r) (newRuleManager [] True) 5 = Ret (rm, 0) \<and>
     processKey insertion_order insertion_order (\<lambda>_. r)
       (setContextProvider (setCallback (setLockKeyPattern (newV3KeyProcessor rm) 0 ''/lock/:x'') 0 42) 0 8)
       (\<lambda>keys. Inr (\<lambda>k. Inr ([''/a/7'' \<mapsto> ''1''] k))) ''/a/7'' (Some ''1'') [] = Ret (ids, ws) \<and>
     w \<in> set ws \<and> w_ruleTaskCallback w = Some 42 \<and> w_lockKey w = ''/lock/7'' \<and> w_contextProvider w = Some 8 \<and>
     processKey insertion_order insertion_order (\<lambda>_. r)
       (setCallback (setLockKeyPattern (newV3KeyProcessor rm) 0 ''/lock/:x'') 0 42)
       (\<lambda>keys. Inr (\<lambda>k. Inr ([''/a/7'' \<mapsto> ''1''] k))) ''/a/7'' (Some ''1'') [] = Panic"
proof -
  let ?r = "projr (NewEqualsLiteralRule ''/a/:x'' (Some ''1''))"
  have r: "NewEqualsLiteralRule ''/a/:x'' (Some ''1'') = Inr ?r" by (rule Inr_projr) code_simp
  let ?add = "addRule insertion_order (\<lambda>_. ?r) (newRuleManager [] True) 5"
  define rm where "rm = fst (case ?add of Ret x \<Rightarrow> x)"
  let ?bare = "setCallback (setLockKeyPattern (newV3KeyProcessor rm) 0 ''/lock/:x'') 0 42"
  let ?kp = "setContextProvider ?bare 0 8"
  let ?m = "makeStaticRule ?r ''/a/7'' (Some ''1'')" and ?st = "[''/a/7'' \<mapsto> ''1'']"
  have add: "?add = Ret (rm, 0)" unfolding rm_def by code_simp
  have kp: "kp_rm ?bare = rm" "kp_rm ?kp = rm"
    by (simp_all add: setCallback_def setLockKeyPattern_def setContextProvider_def newV3KeyProcessor_def)
  have m: "managed insertion_order (\<lambda>_. ?r) [] True rm" by (rule managed_add [OF managed_new add])
  have "built insertion_order ?r" using r by (rule built_literal)
  moreover have "no_empty ?r" by code_simp
  ultimately have adm: "admissible (\<lambda>_. ?r) rm" by (simp add: admissible_def built_wf built_fresh)
  have rd: "reads_store (\<lambda>keys. Inr (\<lambda>k. Inr (?st k))) ?st" by (simp add: reads_store_def)
  have "go_is_some ?m" by code_simp
  then have mk: "?m = Ret (Some (fst (go_some ?m), snd (go_some ?m)))" using go_some_eq by simp
  have rules: "rm_rules rm = [5]" "rm_enhancedRuleFilter rm" unfolding rm_def by code_simp+
  then have li: "last_index (rm_rules rm) 5 0" by (simp add: last_index_def)
  have hs: "has_slashes ?r (strings_Count ''/a/7'' slash)" by code_simp
  have "selected True (fst (go_some ?m)) ''/a/7'' (Some ''1'')" by code_simp
  then have s: "selects (\<lambda>_. ?r) rm ''/a/7'' (Some ''1'') (fst (go_some ?m)) 0 (snd (go_some ?m))"
    unfolding selects_def using li hs mk rules(2) by auto
  have sat: "satisfied (fst (go_some ?m)) (\<lambda>k. Inr (?st k)) = Inr True" by code_simp
  let ?w = "work_item ?kp [] (fst (go_some ?m)) 0 (snd (go_some ?m)) ''/lock/:x''"
  have p: "gm_get (kp_lockKeyPatterns ?kp) 0 = Some ''/lock/:x''" "gm_get (kp_lockKeyPatterns ?bare) 0 = Some ''/lock/:x''"
    "gm_get (kp_contextProviders ?kp) 0 = Some 8" "gm_get (kp_contextProviders ?bare) 0 = None"
    "gm_get (kp_callbacks ?kp) 0 = Some 42"
    by (simp_all add: setCallback_def setLockKeyPattern_def setContextProvider_def newV3KeyProcessor_def gomap_simps)
  have "path_format (attr_lookup (snd (go_some ?m))) ''/lock/:x'' = ''/lock/7''" by code_simp
  then have w: "w_ruleTaskCallback ?w = Some 42" "w_lockKey ?w = ''/lock/7''" "w_contextProvider ?w = Some 8"
    using p by (simp_all add: work_item_def)
  have zero: "i = 0" if "selects (\<lambda>_. ?r) rm ''/a/7'' (Some ''1'') sr i a" for sr i a
    using that rules(1) by (auto simp: selects_def last_index_def)
  then have "\<not> (\<exists>sr i a. selects (\<lambda>_. ?r) (kp_rm ?kp) ''/a/7'' (Some ''1'') sr i a \<and>
      satisfied sr (\<lambda>k. Inr (?st k)) = Inr True \<and>
      gm_get (kp_lockKeyPatterns ?kp) i \<noteq> None \<and> gm_get (kp_contextProviders ?kp) i = None)"
    using p(3) unfolding kp by fastforce
  then have run: "\<exists>ids ws. processKey insertion_order insertion_order (\<lambda>_. ?r) ?kp
      (\<lambda>keys. Inr (\<lambda>k. Inr (?st k))) ''/a/7'' (Some ''1'') [] = Ret (ids, ws) \<and>
    (\<forall>w. w \<in> set ws \<longleftrightarrow> (\<exists>sr i a p. selects (\<lambda>_. ?r) rm ''/a/7'' (Some ''1'') sr i a \<and>
      satisfied sr (\<lambda>k. Inr (?st k)) = Inr True \<and>
      gm_get (kp_lockKeyPatterns ?kp) i = Some p \<and> w = work_item ?kp [] sr i a p))"
    using processKey_dispatches_exactly [where kp = ?kp, unfolded kp, OF m adm rd,
        of "''/a/7''" "Some ''1''" insertion_order insertion_order "[]"] unfolding kp by (simp only: if_False)
  have "\<exists>sr i a p. selects (\<lambda>_. ?r) rm ''/a/7'' (Some ''1'') sr i a \<and>
      satisfied sr (\<lambda>k. Inr (?st k)) = Inr True \<and> gm_get (kp_lockKeyPatterns ?kp) i = Some p \<and> ?w = work_item ?kp [] sr i a p"
    using s sat p(1) by blast
  with run obtain ids ws where "processKey insertion_order insertion_order (\<lambda>_. ?r) ?kp
      (\<lambda>keys. Inr (\<lambda>k. Inr (?st k))) ''/a/7'' (Some ''1'') [] = Ret (ids, ws)" "?w \<in> set ws"
    by meson
  moreover have "\<exists>sr i a. selects (\<lambda>_. ?r) rm ''/a/7'' (Some ''1'') sr i a \<and>
      satisfied sr (\<lambda>k. Inr (?st k)) = Inr True \<and>
      gm_get (kp_lockKeyPatterns ?bare) i \<noteq> None \<and> gm_get (kp_contextProviders ?bare) i = None"
    using s sat p(2,4) by blast
  then have "processKey insertion_order insertion_order (\<lambda>_. ?r) ?bare
      (\<lambda>keys. Inr (\<lambda>k. Inr (?st k))) ''/a/7'' (Some ''1'') [] = Panic"
    using processKey_dispatches_exactly [where kp = ?bare, unfolded kp, OF m adm rd,
        of "''/a/7''" "Some ''1''" insertion_order insertion_order "[]"] by (simp only: if_True)
  ultimately show ?thesis using r add w by blast
qed

text \<open>
  The crawler's check before it processes a key is exact: on the same store, \<open>isWork\<close> answers
  true if and only if \<open>processKey\<close> would queue work, provided every rule has a lock pattern and a context provider.
\<close>

theorem isWork_agrees_processKey:
  assumes "managed ord0 heap cs enhanced (kp_rm kp)" and "admissible heap (kp_rm kp)"
    and "reads_store getCachedAPI (gm_get values)"
    and "\<forall>i < length (rm_rules (kp_rm kp)). gm_get (kp_lockKeyPatterns kp) i \<noteq> None" and "providers_set kp"
  shows "\<exists>ids ws. processKey ord ord' heap kp getCachedAPI key v metadata = Ret (ids, ws) \<and>
    isWork ord ord' heap kp (cacheReadAPI_get values) key v = Ret (ws \<noteq> [])"
proof -
  note inv = managed_inv [OF assms(1)]
  have get: "cacheReadAPI_get values = (\<lambda>k. Inr (gm_get values k))"
    by (rule ext) (simp add: cacheReadAPI_get_def split: option.splits)
  obtain ids ws where ws: "processKey ord ord' heap kp getCachedAPI key v metadata = Ret (ids, ws)"
    "\<And>w. w \<in> set ws \<longleftrightarrow> (\<exists>sr i a p. selects heap (kp_rm kp) key v sr i a \<and>
      rule_sat (\<lambda>k. Inr (gm_get values k)) sr \<and>
      gm_get (kp_lockKeyPatterns kp) i = Some p \<and> w = work_item kp metadata sr i a p)"
    using processKey_spec [OF inv assms(2,3) providers_set_lacks [OF assms(5)]] by blast
  have lp: "\<exists>p. gm_get (kp_lockKeyPatterns kp) i = Some p" if "selects heap (kp_rm kp) key v sr i a" for sr i a
    using assms(4) that by (auto simp: selects_def last_index_def)
  have "ws \<noteq> [] \<longleftrightarrow> (\<exists>w. w \<in> set ws)" by (cases ws) auto
  also have "\<dots> \<longleftrightarrow> (\<exists>sr i a. selects heap (kp_rm kp) key v sr i a \<and>
      rule_sat (\<lambda>k. Inr (gm_get values k)) sr)"
    unfolding ws(2) using lp by blast
  finally have "isWork ord ord' heap kp (cacheReadAPI_get values) key v = Ret (ws \<noteq> [])"
    by (simp only: isWork_spec [OF inv assms(2)] get)
  then show ?thesis using ws(1) by blast
qed

theorem isWork_agrees_processKey_witness:
  "\<exists>r rm ids ws. NewEqualsLiteralRule ''/a/:x'' (Some ''1'') = Inr r \<and>
     addRule insertion_order (\<lambda>_. r) (newRuleManager [] False) 5 = Ret (rm, 0) \<and>
     processKey insertion_order insertion_order (\<lambda>_. r) (setContextProvider (setLockKeyPattern (newV3KeyProcessor rm) 0 ''/lock/:x'') 0 8)
       (\<lambda>keys. Inr (cacheReadAPI_get [(''/a/7'', ''2'')])) ''/a/7'' (Some ''2'') [] = Ret (ids, ws) \<and>
     isWork insertion_order insertion_order (\<lambda>_. r) (setContextProvider (setLockKeyPattern (newV3KeyProcessor rm) 0 ''/lock/:x'') 0 8)
       (cacheReadAPI_get [(''/a/7'', ''2'')]) ''/a/7'' (Some ''2'') = Ret (ws \<noteq> [])"
proof -
  let ?r = "projr (NewEqualsLiteralRule ''/a/:x'' (Some ''1''))"
  have r: "NewEqualsLiteralRule ''/a/:x'' (Some ''1'') = Inr ?r" by (rule Inr_projr) code_simp
  let ?add = "addRule insertion_order (\<lambda>_. ?r) (newRuleManager [] False) 5"
  let ?rm = "fst (case ?add of Ret x \<Rightarrow> x)"
  let ?kp = "setContextProvider (setLockKeyPattern (newV3KeyProcessor ?rm) 0 ''/lock/:x'') 0 8"
  have add: "?add = Ret (?rm, 0)" by code_simp
  have kp: "kp_rm ?kp = ?rm" by (simp add: setLockKeyPattern_def setContextProvider_def newV3KeyProcessor_def)
  have m: "managed insertion_order (\<lambda>_. ?r) [] False (kp_rm ?kp)"
    unfolding kp by (rule managed_add [OF managed_new add])
  have "built insertion_order ?r" using r by (rule built_literal)
  moreover have "no_empty ?r" by code_simp
  ultimately have adm: "admissible (\<lambda>_. ?r) (kp_rm ?kp)"
    by (simp add: admissible_def built_wf built_fresh)
  have rd: "reads_store (\<lambda>keys. Inr (cacheReadAPI_get [(''/a/7'', ''2'')])) (gm_get [(''/a/7'', ''2'')])"
    by (simp add: reads_store_def cacheReadAPI_get_def split: option.splits)
  have rules: "rm_rules ?rm = [5]" by code_simp
  have "gm_get (kp_lockKeyPatterns ?kp) 0 = Some ''/lock/:x''" "gm_get (kp_contextProviders ?kp) 0 = Some 8" by code_simp+
  then have lp: "\<forall>i < length (rm_rules (kp_rm ?kp)). gm_get (kp_lockKeyPatterns ?kp) i \<noteq> None"
    and ps: "providers_set ?kp"
    unfolding providers_set_def kp rules by simp_all
  show ?thesis
    using isWork_agrees_processKey [OF m adm rd lp ps, of insertion_order insertion_order "''/a/7''" "Some ''2''" "[]"]
      r add by blast
qed

text \<open>
  An AND without nested rules inside another rule is accepted by the constructors and the rule
  manager, but processing a key that satisfies the rule panics when the attributes are taken from
  the first nested rule, outside of every recover.
\<close>

theorem empty_nested_rule_panics:
  "\<exists>r1 rm. NewEqualsLiteralRule ''/a/:x'' (Some ''1'') = Inr r1 \<and>
     addRule insertion_order (\<lambda>_. NewAndRule insertion_order [NewAndRule insertion_order [], r1])
       (newRuleManager [] False) 5 = Ret (rm, 0) \<and>
     processKey insertion_order insertion_order (\<lambda>_. NewAndRule insertion_order [NewAndRule insertion_order [], r1])
       (setContextProvider (setLockKeyPattern (newV3KeyProcessor rm) 0 ''/lock/:x'') 0 8)
       (\<lambda>keys. Inr (cacheReadAPI_get [(''/a/7'', ''1'')])) ''/a/7'' (Some ''1'') [] = Panic"
proof -
  let ?r1 = "projr (NewEqualsLiteralRule ''/a/:x'' (Some ''1''))"
  have r1: "NewEqualsLiteralRule ''/a/:x'' (Some ''1'') = Inr ?r1" by (rule Inr_projr) code_simp
  let ?r = "NewAndRule insertion_order [NewAndRule insertion_order [], ?r1]"
  let ?add = "addRule insertion_order (\<lambda>_. ?r) (newRuleManager [] False) 5"
  let ?rm = "fst (case ?add of Ret x \<Rightarrow> x)"
  let ?p = "processKey insertion_order insertion_order (\<lambda>_. ?r) (setContextProvider (setLockKeyPattern (newV3KeyProcessor ?rm) 0 ''/lock/:x'') 0 8)
     (\<lambda>keys. Inr (cacheReadAPI_get [(''/a/7'', ''1'')])) ''/a/7'' (Some ''1'') []"
  have add: "?add = Ret (?rm, 0)" by code_simp
  have "(case ?p of Panic \<Rightarrow> True | _ \<Rightarrow> False)" by code_simp
  then have "?p = Panic" by (cases ?p) auto
  then show ?thesis using r1 add by blast
qed

end
