(* ===== verification/Options.thy ===== *)
theory Options
  imports Jitter Expansion KeyProcessor
begin

text \<open>
  \<open>rules/options.go\<close>: the options of an engine and of a rule. An option is a function on the
  record of the settings, as in the code; \<open>make\<dots>Options\<close> applies them in their order to the
  defaults. The options that are given a function of the user (context providers, metrics
  collectors) carry its number; number 0 is the default one. Numbers of seconds, sizes and counts
  are integers.
\<close>

section \<open>Definitions\<close>

definition defaultRuleID :: string where
  "defaultRuleID = ''NO_ID_SET''"

definition syncJitterPercent :: rat where
  "syncJitterPercent = fl64 (1 / 10)"

definition defaultContextProvider :: contextProvider where
  "defaultContextProvider = 0"

definition nanosPerSecond :: int where
  "nanosPerSecond = 1000000000"

definition nanosPerMilli :: int where
  "nanosPerMilli = 1000000"

record engineOptions =
  eo_concurrency :: int
  eo_crawlerTTL :: int
  eo_syncGetTimeout :: int
  eo_watchTimeout :: int
  eo_keyProcConcurrency :: int
  eo_keyProcBuffer :: int
  eo_syncInterval :: DurationGenerator
  eo_syncDelay :: DurationGenerator
  eo_constraints :: "(string, constraint) gomap"
  eo_contextProvider :: "contextProvider option"
  eo_keyExpansion :: "value_map option"
  eo_lockTimeout :: int
  eo_lockAcquisitionTimeout :: int
  eo_crawlMutex :: "string option"
  eo_ruleWorkBuffer :: int
  eo_enhancedRuleFilter :: bool
  eo_metrics :: nat
  eo_lockCoolOff :: int
  eo_dontUseSharedLockSession :: bool
  eo_useTryLock :: bool
  eo_watchDelay :: DurationGenerator

type_synonym engineOption = "engineOptions \<Rightarrow> engineOptions"

definition defaultEngineOptions :: engineOptions where
  "defaultEngineOptions =
     \<lparr>eo_concurrency = 5, eo_crawlerTTL = 0, eo_syncGetTimeout = 0, eo_watchTimeout = 0,
      eo_keyProcConcurrency = 5, eo_keyProcBuffer = 1000,
      eo_syncInterval = NewDurationGenerator (5 * 60 * nanosPerSecond) syncJitterPercent,
      eo_syncDelay = NewDurationGenerator (2 * nanosPerMilli) syncJitterPercent,
      eo_constraints = [], eo_contextProvider = Some defaultContextProvider, eo_keyExpansion = None,
      eo_lockTimeout = 30, eo_lockAcquisitionTimeout = 5, eo_crawlMutex = None, eo_ruleWorkBuffer = 0,
      eo_enhancedRuleFilter = False, eo_metrics = 0, eo_lockCoolOff = 0, eo_dontUseSharedLockSession = False,
      eo_useTryLock = False, eo_watchDelay = zeroDurationGenerator\<rparr>"

definition makeEngineOptions :: "engineOption list \<Rightarrow> engineOptions" where
  "makeEngineOptions options = fold (\<lambda>opt opts. opt opts) options defaultEngineOptions"

definition KeyProcessorConcurrency :: "int \<Rightarrow> engineOption" where
  "KeyProcessorConcurrency threads o' = o'\<lparr>eo_keyProcConcurrency := threads\<rparr>"

definition KeyProcessorBuffer :: "int \<Rightarrow> engineOption" where
  "KeyProcessorBuffer sz o' = o'\<lparr>eo_keyProcBuffer := sz\<rparr>"

definition EngineLockTimeout :: "int \<Rightarrow> engineOption" where
  "EngineLockTimeout lockTimeout o' = o'\<lparr>eo_lockTimeout := lockTimeout\<rparr>"

definition EngineLockAcquisitionTimeout :: "int \<Rightarrow> engineOption" where
  "EngineLockAcquisitionTimeout t o' = o'\<lparr>eo_lockAcquisitionTimeout := t\<rparr>"

definition EngineConcurrency :: "int \<Rightarrow> engineOption" where
  "EngineConcurrency workers o' = o'\<lparr>eo_concurrency := workers\<rparr>"

definition EngineWatchTimeout :: "int \<Rightarrow> engineOption" where
  "EngineWatchTimeout t o' = o'\<lparr>eo_watchTimeout := t\<rparr>"

text \<open>
  \<open>KeyExpansion\<close>: a later map is merged into an earlier one. The code keeps the map it is given
  and merges into it, so the map of the first option of the user changes too; the model has the
  setting only.
\<close>

definition KeyExpansion :: "(string \<times> string list) range_order \<Rightarrow> value_map \<Rightarrow> engineOption" where
  "KeyExpansion ord keyExpansion o' =
     (case eo_keyExpansion o' of
        Some m \<Rightarrow> o'\<lparr>eo_keyExpansion := Some (fold (\<lambda>(k, v) m. gm_put m k v) (range_in ord keyExpansion) m)\<rparr>
      | None \<Rightarrow> o'\<lparr>eo_keyExpansion := Some keyExpansion\<rparr>)"

definition KeyConstraint :: "string \<Rightarrow> string \<Rightarrow> int list list \<Rightarrow> engineOption" where
  "KeyConstraint attribute pfx cs o' =
     o'\<lparr>eo_constraints := gm_put (eo_constraints o') attribute \<lparr>constr_prefix = pfx, chars = cs\<rparr>\<rparr>"

definition EngineUseTryLock :: engineOption where
  "EngineUseTryLock o' = o'\<lparr>eo_useTryLock := True\<rparr>"

definition EngineUseSharedLockSession :: engineOption where
  "EngineUseSharedLockSession o' = o'"

definition EngineDontShareLockSession :: engineOption where
  "EngineDontShareLockSession o' = o'\<lparr>eo_dontUseSharedLockSession := True\<rparr>"

definition EngineLockCoolOff :: "int \<Rightarrow> engineOption" where
  "EngineLockCoolOff timeout o' = o'\<lparr>eo_lockCoolOff := timeout\<rparr>"

definition EngineSyncInterval :: "int \<Rightarrow> engineOption" where
  "EngineSyncInterval interval o' =
     o'\<lparr>eo_syncInterval := NewDurationGenerator (int64 (interval * nanosPerSecond)) syncJitterPercent\<rparr>"

definition EngineSyncDelay :: "int \<Rightarrow> engineOption go" where
  "EngineSyncDelay delay =
     (if delay = 0 then Panic
      else Ret (\<lambda>o'. o'\<lparr>eo_syncDelay := NewDurationGenerator (int64 (delay * nanosPerMilli)) syncJitterPercent\<rparr>))"

definition EngineContextProvider :: "contextProvider option \<Rightarrow> engineOption" where
  "EngineContextProvider cp o' = o'\<lparr>eo_contextProvider := cp\<rparr>"

definition EngineMetricsCollector :: "nat \<Rightarrow> engineOption" where
  "EngineMetricsCollector m o' = o'\<lparr>eo_metrics := m\<rparr>"

definition EngineCrawlMutex :: "string \<Rightarrow> int \<Rightarrow> engineOption" where
  "EngineCrawlMutex mutex mutexTTL o' = o'\<lparr>eo_crawlMutex := Some mutex, eo_crawlerTTL := mutexTTL\<rparr>"

definition EngineRuleWorkBuffer :: "int \<Rightarrow> engineOption" where
  "EngineRuleWorkBuffer buffer o' = o'\<lparr>eo_ruleWorkBuffer := buffer\<rparr>"

definition EngineEnhancedRuleFilter :: "bool \<Rightarrow> engineOption" where
  "EngineEnhancedRuleFilter enhanced o' = o'\<lparr>eo_enhancedRuleFilter := enhanced\<rparr>"

definition EngineWatchProcessDelay :: "int \<Rightarrow> rat \<Rightarrow> engineOption" where
  "EngineWatchProcessDelay base jitterPercent o' =
     o'\<lparr>eo_watchDelay := NewDurationGenerator base jitterPercent\<rparr>"

text \<open>\<open>EngineOptions\<close>: settings from a configuration file.\<close>

record EngineOptions =
  cfg_Concurrency :: "int option"
  cfg_EnhancedRuleFilter :: "bool option"

definition GetEngineOptions :: "EngineOptions \<Rightarrow> engineOption list" where
  "GetEngineOptions options =
     (case cfg_Concurrency options of Some n \<Rightarrow> [EngineConcurrency n] | None \<Rightarrow> []) @
     (case cfg_EnhancedRuleFilter options of Some b \<Rightarrow> [EngineEnhancedRuleFilter b] | None \<Rightarrow> [])"

record ruleOptions =
  ro_lockTimeout :: int
  ro_contextProvider :: "contextProvider option"
  ro_ruleID :: string

type_synonym ruleOption = "ruleOptions \<Rightarrow> ruleOptions"

definition makeRuleOptions :: "ruleOption list \<Rightarrow> ruleOptions" where
  "makeRuleOptions options =
     fold (\<lambda>opt opts. opt opts) options \<lparr>ro_lockTimeout = 0, ro_contextProvider = None, ro_ruleID = defaultRuleID\<rparr>"

definition RuleLockTimeout :: "int \<Rightarrow> ruleOption" where
  "RuleLockTimeout t o' = o'\<lparr>ro_lockTimeout := t\<rparr>"

definition RuleContextProvider :: "contextProvider option \<Rightarrow> ruleOption" where
  "RuleContextProvider cp o' = o'\<lparr>ro_contextProvider := cp\<rparr>"

definition RuleID :: "string \<Rightarrow> ruleOption" where
  "RuleID ruleID o' = o'\<lparr>ro_ruleID := ruleID\<rparr>"

section \<open>Merging key expansions\<close>

lemma gm_get_fold_put:
  assumes "distinct (map fst kvs)"
  shows "gm_get (fold (\<lambda>(k, v) m. gm_put m k v) kvs m) k =
    (case gm_get kvs k of Some v \<Rightarrow> Some v | None \<Rightarrow> gm_get m k)"
  using assms unfolding gm_get_def [of kvs]
proof (induction kvs arbitrary: m)
  case (Cons kv kvs)
  obtain a b where kv: "kv = (a, b)" by fastforce
  have "map_of kvs a = None" using Cons.prems by (simp add: kv map_of_eq_None_iff)
  then show ?case
    using Cons.IH [of "gm_put m a b"] Cons.prems by (auto simp: kv gomap_simps split: option.splits)
qed simp

lemma gm_get_range:
  assumes "gm_wf m"
  shows "gm_get (range_in ord m) = gm_get m"
proof
  fix k
  have "distinct (map fst (range_in ord m))"
    using assms unfolding gm_wf_def by (metis distinct_map mset_map mset_eq_imp_distinct_iff mset_range_in)
  then have "gm_get (range_in ord m) k = Some v \<longleftrightarrow> gm_get m k = Some v" for v
    using gm_get_wf [of "range_in ord m" k v] gm_get_wf [OF assms, of k v] by (simp add: gm_wf_def)
  then show "gm_get (range_in ord m) k = gm_get m k" by (metis option.exhaust)
qed

lemma KeyExpansion_merge:
  assumes "gm_wf keyExpansion"
  shows "\<exists>m. eo_keyExpansion (KeyExpansion ord keyExpansion o') = Some m \<and>
    (\<forall>k. gm_get m k = (case gm_get keyExpansion k of Some vs \<Rightarrow> Some vs
       | None \<Rightarrow> (case eo_keyExpansion o' of Some m' \<Rightarrow> gm_get m' k | None \<Rightarrow> None)))"
proof (cases "eo_keyExpansion o'")
  case None
  then show ?thesis by (simp add: KeyExpansion_def split: option.splits)
next
  case (Some m')
  have "distinct (map fst (range_in ord keyExpansion))"
    using assms unfolding gm_wf_def by (metis mset_map mset_eq_imp_distinct_iff mset_range_in)
  from gm_get_fold_put [OF this] show ?thesis
    using Some gm_get_range [OF assms, of ord] by (simp add: KeyExpansion_def cong: option.case_cong)
qed

section \<open>Logging the options\<close>

text \<open>
  \<open>MarshalLogObject\<close>: the entries in their order. Objects and reflected values are added by calls of
  the encoder that may fail; the first failure ends the method with its error.
\<close>

datatype log_value =
    LogInt int
  | LogBool bool
  | LogString string
  | LogGenerator "(string \<times> rat) list"
  | LogConstraints "(string, constraint) gomap"
  | LogExpansion "value_map option"

primrec add_entries :: "(string \<Rightarrow> string option) \<Rightarrow> (bool \<times> string \<times> log_value) list \<Rightarrow> (string \<times> log_value) list \<times> string option" where
  "add_entries fails [] = ([], None)"
| "add_entries fails (e # es) =
     (case e of (fallible, name, v) \<Rightarrow>
        if fallible \<and> fails name \<noteq> None then ([], fails name)
        else (case add_entries fails es of (rest, err) \<Rightarrow> ((name, v) # rest, err)))"

definition eo_MarshalLogObject :: "(string \<Rightarrow> string option) \<Rightarrow> engineOptions \<Rightarrow> (string \<times> log_value) list \<times> string option" where
  "eo_MarshalLogObject fails eo = add_entries fails
     ([(False, ''concurrency'', LogInt (eo_concurrency eo)),
       (False, ''ruleWorkBuffer'', LogInt (eo_ruleWorkBuffer eo)),
       (False, ''contextProvider'', LogBool (eo_contextProvider eo \<noteq> None)),
       (True, ''syncInterval'', LogGenerator (dg_MarshalLogObject (eo_syncInterval eo))),
       (True, ''syncDelay'', LogGenerator (dg_MarshalLogObject (eo_syncDelay eo))),
       (False, ''syncGetTimeout'', LogInt (eo_syncGetTimeout eo)),
       (False, ''watchTimeout'', LogInt (eo_watchTimeout eo)),
       (True, ''watchDelay'', LogGenerator (dg_MarshalLogObject (eo_watchDelay eo))),
       (False, ''lockTimeout'', LogInt (eo_lockTimeout eo)),
       (False, ''lockAcquisitionTimeout'', LogInt (eo_lockAcquisitionTimeout eo)),
       (False, ''lockCoolOff'', LogInt (float_to_int (duration_Seconds (eo_lockCoolOff eo))))] @
      (case eo_crawlMutex eo of
         Some mutex \<Rightarrow> [(False, ''crawlMutex'', LogString mutex), (False, ''crawlerTTL'', LogInt (eo_crawlerTTL eo))]
       | None \<Rightarrow> []) @
      [(True, ''constraints'', LogConstraints (eo_constraints eo)),
       (True, ''keyExpansion'', LogExpansion (eo_keyExpansion eo)),
       (False, ''keyProcConcurrency'', LogInt (eo_keyProcConcurrency eo)),
       (False, ''keyProcBuffer'', LogInt (eo_keyProcBuffer eo)),
       (False, ''enhancedRuleFilter'', LogBool (eo_enhancedRuleFilter eo)),
       (False, ''dontUseSharedLockSession'', LogBool (eo_dontUseSharedLockSession eo)),
       (False, ''useTryLock'', LogBool (eo_useTryLock eo))])"

lemma add_entries_names:
  "snd (add_entries fails es) = None \<Longrightarrow> fst (add_entries fails es) = map snd es"
  by (induction es) (auto split: prod.splits if_splits)

text \<open>An encoder that never fails logs every entry, each name once.\<close>

lemma eo_MarshalLogObject_complete:
  "snd (eo_MarshalLogObject (\<lambda>_. None) eo) = None \<and> distinct (map fst (fst (eo_MarshalLogObject (\<lambda>_. None) eo)))"
  by (cases "eo_crawlMutex eo") (simp_all add: eo_MarshalLogObject_def)

section \<open>Durations\<close>

text \<open>The pause of the crawler in whole seconds.\<close>

definition intervalSeconds :: "DurationGenerator \<Rightarrow> rat \<Rightarrow> int" where
  "intervalSeconds interval random = float_to_int (duration_Seconds (Generate interval random))"

text \<open>The durations of the options, with the jitter they are given.\<close>

lemma option_duration_near:
  assumes "0 \<le> random" and "random < 1" and "\<bar>n\<bar> \<le> 8500000000000000000"
  shows "\<bar>of_int (Generate (NewDurationGenerator n syncJitterPercent) random) - of_int n\<bar> \<le> 200000 + \<bar>of_int n :: rat\<bar> / 10"
  using Generate_near [of random "NewDurationGenerator n syncJitterPercent"] assms
  by (simp add: NewDurationGenerator_def syncJitterPercent_def clampPercent_tenth)

lemma jittered_range:
  assumes "0 \<le> random" and "random < 1" and "0 \<le> n" and "n \<le> 8500000000000000000"
  shows "9 * of_int n - 2000000 \<le> 10 * (of_int (Generate (NewDurationGenerator n syncJitterPercent) random) :: rat)"
    and "10 * (of_int (Generate (NewDurationGenerator n syncJitterPercent) random) :: rat) \<le> 11 * of_int n + 2000000"
  using option_duration_near [OF assms(1,2), of n] assms(3,4) by (simp_all add: abs_le_iff)

lemma small_negative_no_pause:
  assumes "0 \<le> random" and "random < 1"
  shows "intervalSeconds (NewDurationGenerator (- 709551616) syncJitterPercent) random = 0"
proof -
  define G where "G = Generate (NewDurationGenerator (- 709551616) syncJitterPercent) random"
  have "- 900000000 \<le> (of_int G :: rat) \<and> (of_int G :: rat) \<le> - 500000000"
    using abs_le_D1 [OF option_duration_near [OF assms, of "- 709551616"]] abs_le_D2 [OF option_duration_near [OF assms, of "- 709551616"]]
    by (simp add: G_def [symmetric])
  then have G: "- 900000000 \<le> G" "G \<le> - 500000000" by linarith+
  then have "- 10000000000000000000 \<le> G" "G \<le> 10000000000000000000" by linarith+
  note S = duration_Seconds_bounds [OF this]
  have "- 1 < duration_Seconds G \<and> duration_Seconds G < 0" using S G by linarith
  then show ?thesis unfolding intervalSeconds_def G_def [symmetric] by (auto simp: float_to_int_def ceiling_eq_iff)
qed

text \<open>A duration of whole seconds, in seconds.\<close>

lemma whole_seconds_range:
  assumes "9 * of_int (interval * 1000000000) - 2000000 \<le> 10 * (of_int G :: rat)"
    and "10 * (of_int G :: rat) \<le> 11 * of_int (interval * 1000000000) + 2000000"
    and "0 < interval" and "interval \<le> 8384883669"
  shows "(9 * interval - 1) div 10 \<le> float_to_int (duration_Seconds G)" and "0 \<le> float_to_int (duration_Seconds G)"
    and "float_to_int (duration_Seconds G) \<le> 11 * interval div 10" and "0 \<le> G" and "G < 2 ^ 63"
proof -
  define i S where "i = (of_int interval :: rat)" and "S = duration_Seconds G"
  have i: "1 \<le> i" "i \<le> 8384883669" using assms(3,4) by (simp_all add: i_def)
  have g: "9000000000 * i - 2000000 \<le> 10 * (of_int G :: rat)" "10 * (of_int G :: rat) \<le> 11000000000 * i + 2000000"
    using assms(1,2) by (simp_all add: i_def)
  have "(0 :: rat) \<le> of_int G" "(of_int G :: rat) \<le> 9223372036000000000" using g i by linarith+
  then have G: "0 \<le> G" "G \<le> 9223372036000000000" by linarith+
  then show "0 \<le> G" "G < 2 ^ 63" by simp_all
  have "- 10000000000000000000 \<le> G" "G \<le> 10000000000000000000" using G by linarith+
  note b = duration_Seconds_bounds [OF this, folded S_def]
  have s: "9 * i - 1 \<le> 10 * S" "10 * S < 11 * i + 1" "0 \<le> S" using b g i by linarith+
  have f: "float_to_int S = \<lfloor>S\<rfloor>" using s(3) by (rule float_to_int_error(2))
  have "of_int ((9 * interval - 1) div 10) \<le> S"
  proof -
    have "10 * ((9 * interval - 1) div 10) \<le> 9 * interval - 1" by simp
    then have "(of_int (10 * ((9 * interval - 1) div 10)) :: rat) \<le> of_int (9 * interval - 1)" by (simp only: of_int_le_iff)
    then show ?thesis using s(1) by (simp add: i_def)
  qed
  then show "(9 * interval - 1) div 10 \<le> float_to_int (duration_Seconds G)" by (simp add: f S_def [symmetric] le_floor_iff)
  show "0 \<le> float_to_int (duration_Seconds G)" using s(3) by (simp add: f S_def [symmetric])
  have "10 * of_int \<lfloor>S\<rfloor> < 11 * i + 1" using s(2) of_int_floor_le [of S] by linarith
  then have "(of_int (10 * \<lfloor>S\<rfloor>) :: rat) < of_int (11 * interval + 1)" by (simp add: i_def)
  then have "10 * \<lfloor>S\<rfloor> < 11 * interval + 1" by (simp only: of_int_less_iff)
  then show "float_to_int (duration_Seconds G) \<le> 11 * interval div 10" by (simp add: f S_def [symmetric])
qed

section \<open>Properties\<close>

text \<open>
  C32. The pause of the crawler, in the floating-point arithmetic of the code: with
  \<open>EngineSyncInterval\<close> of a number of seconds whose jittered duration fits 64 bits (up to 8384883669),
  every pause is a whole number of seconds, at most eleven tenths of the interval rounded down, and at
  least nine tenths of it rounded down, or one less when nine tenths of it are a whole number, whatever
  the random numbers; no duration on the way leaves the 64 bits. So an interval of 5 seconds may give
  pauses of 4. A number of seconds that does not fit wraps around: with 18446744073 the crawler does not
  pause at all.
\<close>

theorem crawl_pause_bounds:
  assumes "0 \<le> interval" and "interval \<le> 8384883669" and "0 \<le> random" and "random < 1"
  shows "(9 * interval - 1) div 10 \<le> intervalSeconds (eo_syncInterval (EngineSyncInterval interval o')) random \<and>
    0 \<le> intervalSeconds (eo_syncInterval (EngineSyncInterval interval o')) random \<and>
    intervalSeconds (eo_syncInterval (EngineSyncInterval interval o')) random \<le> 11 * interval div 10 \<and>
    0 \<le> Generate (eo_syncInterval (EngineSyncInterval interval o')) random \<and>
    Generate (eo_syncInterval (EngineSyncInterval interval o')) random < 2 ^ 63 \<and>
    intervalSeconds (eo_syncInterval (EngineSyncInterval 18446744073 o')) random = 0"
proof -
  let ?n = "interval * 1000000000"
  have n: "int64 ?n = ?n" "0 \<le> ?n" "?n \<le> 8500000000000000000" using assms(1,2) by (simp_all add: int64_def)
  have s: "eo_syncInterval (EngineSyncInterval interval o') = NewDurationGenerator ?n syncJitterPercent"
    by (simp add: EngineSyncInterval_def nanosPerSecond_def n(1))
  have "eo_syncInterval (EngineSyncInterval 18446744073 o') = NewDurationGenerator (- 709551616) syncJitterPercent"
    by (simp add: EngineSyncInterval_def nanosPerSecond_def int64_def)
  note w = small_negative_no_pause [OF assms(3,4), folded this]
  show ?thesis
  proof (cases "interval = 0")
    case True
    have "Generate (NewDurationGenerator 0 syncJitterPercent) random = 0"
      by (simp add: Generate_def NewDurationGenerator_def float_to_int_def)
    moreover have "duration_Seconds 0 = 0" by (simp add: duration_Seconds_def)
    ultimately show ?thesis using w unfolding s by (simp add: True intervalSeconds_def [of "NewDurationGenerator 0 syncJitterPercent"] float_to_int_def)
  next
    case False
    then have "0 < interval" using assms(1) by simp
    note whole_seconds_range [OF jittered_range [OF assms(3,4) n(2,3)] this assms(2)]
    then show ?thesis unfolding s intervalSeconds_def [of "NewDurationGenerator ?n syncJitterPercent"] using w by blast
  qed
qed

theorem crawl_pause_bounds_witness:
  "(9 * 5 - 1) div 10 \<le> intervalSeconds (eo_syncInterval (EngineSyncInterval 5 defaultEngineOptions)) 0 \<and>
   intervalSeconds (eo_syncInterval (EngineSyncInterval 5 defaultEngineOptions)) 0 = 4 \<and>
   intervalSeconds (eo_syncInterval (EngineSyncInterval 5 defaultEngineOptions)) (1 / 2) = 5"
proof -
  have "(0 :: int) \<le> 5" "(5 :: int) \<le> 8384883669" "(0 :: rat) \<le> 0" "0 < (1 :: rat)" by simp_all
  note b = crawl_pause_bounds [OF this, of defaultEngineOptions]
  have s: "eo_syncInterval (EngineSyncInterval 5 defaultEngineOptions) = NewDurationGenerator 5000000000 syncJitterPercent"
    by (simp add: EngineSyncInterval_def int64_def nanosPerSecond_def)
  have "intervalSeconds (NewDurationGenerator 5000000000 syncJitterPercent) 0 = 4" by code_simp
  moreover have "intervalSeconds (NewDurationGenerator 5000000000 syncJitterPercent) (1 / 2) = 5" by code_simp
  ultimately show ?thesis using conjunct1 [OF b] unfolding s by blast
qed

text \<open>A negative delay is accepted, with which the crawler does not pause between keys either.\<close>

lemma negative_sync_delay:
  "\<exists>opt. EngineSyncDelay (- 1) = Ret opt \<and> (0 \<le> random \<longrightarrow> random < 1 \<longrightarrow> Generate (eo_syncDelay (opt o')) random < 0)"
proof -
  have "Generate (NewDurationGenerator (- 1000000) syncJitterPercent) random < 0" if r: "0 \<le> random" "random < 1"
  proof -
    have "(of_int (Generate (NewDurationGenerator (- 1000000) syncJitterPercent) random) :: rat) < of_int 0"
      using option_duration_near [OF r, of "- 1000000"] by (simp add: abs_le_iff)
    then show ?thesis by (simp only: of_int_less_iff)
  qed
  then show ?thesis by (auto simp: EngineSyncDelay_def int64_def nanosPerMilli_def)
qed

end
