(* ===== verification/Etcd.thy ===== *)
theory Etcd
  imports KeyProcessor
begin

text \<open>
  \<open>rules/etcd.go\<close>: the reads of rule evaluation, batched into one transaction of gets, and the
  key watcher, which turns the responses of an etcd watch into single keys. The etcd client is a
  parameter: the functions of \<open>etcd_kv\<close>, and the list of what the watcher's \<open>select\<close> receives.
\<close>

named_theorems kw_simps "fields of a key watcher after an operation"

section \<open>Definitions\<close>

subsection \<open>Reads\<close>

text \<open>
  What the client answers: a get (the count and the pairs), a transaction of gets (the pairs of
  each), and a get of a prefix. The left value is the client's error.
\<close>

record etcd_kv =
  kv_Get :: "string \<Rightarrow> string + nat \<times> (string \<times> string) list"
  kv_Txn :: "string list \<Rightarrow> string + (string \<times> string) list list"
  kv_GetPrefix :: "string \<Rightarrow> string + (string \<times> string) list"

definition etcdV3ReadAPI_get :: "etcd_kv \<Rightarrow> string \<Rightarrow> (string + string option) go" where
  "etcdV3ReadAPI_get kV key =
     (case kv_Get kV key of
        Inl err \<Rightarrow> Ret (Inl err)
      | Inr (respCount, respKvs) \<Rightarrow>
          if respCount = 0 then Ret (Inr None)
          else (case respKvs of [] \<Rightarrow> Panic | kv # _ \<Rightarrow> Ret (Inr (Some (snd kv)))))"

definition uniqueKeys :: "string list \<Rightarrow> (string, bool) gomap" where
  "uniqueKeys keys = fold (\<lambda>key m. gm_put m key True) keys []"

definition put_all :: "(string \<times> string) list \<Rightarrow> (string, string) gomap \<Rightarrow> (string, string) gomap" where
  "put_all kvs m = fold (\<lambda>(k, v) m. gm_put m k v) kvs m"

text \<open>The cached API is the map of the values.\<close>

definition etcdV3ReadAPI_getCachedAPI ::
  "string range_order \<Rightarrow> etcd_kv \<Rightarrow> string list \<Rightarrow> string + (string, string) gomap" where
  "etcdV3ReadAPI_getCachedAPI ord kV keys =
     (let ops = range_in ord (gm_keys (uniqueKeys keys))
      in case kv_Txn kV ops of
           Inl err \<Rightarrow> Inl err
         | Inr responses \<Rightarrow> Inr (fold put_all responses []))"

text \<open>The read API that rule evaluation is given.\<close>

definition etcd_readAPI :: "string range_order \<Rightarrow> etcd_kv \<Rightarrow> string list \<Rightarrow> string + read_get" where
  "etcd_readAPI ord kV keys =
     (case etcdV3ReadAPI_getCachedAPI ord kV keys of
        Inl err \<Rightarrow> Inl err
      | Inr kvs \<Rightarrow> Inr (cacheReadAPI_get kvs))"

subsection \<open>The key watcher\<close>

record watch_event =
  ev_delete :: bool
  ev_key :: string
  ev_value :: string
  ev_size :: nat

text \<open>
  What the \<open>select\<close> of \<open>next\<close> receives: the stop signal (with the error of closing the client's
  watcher), the end of the channel, or a response with its error and events.
\<close>

datatype watch_input =
    StopSignal "string option"
  | ChannelEnd
  | WatchResponse "string option" "watch_event list"

datatype watch_error =
    ErrWatcherClosing
  | WatchCloseError string
  | ChannelClosed
  | ResponseError string
  | NoEvents

primrec watch_error_text :: "watch_error \<Rightarrow> string" where
  "watch_error_text ErrWatcherClosing = ''Watcher closing''"
| "watch_error_text (WatchCloseError e) = e"
| "watch_error_text ChannelClosed = ''Channel closed''"
| "watch_error_text (ResponseError e) = e"
| "watch_error_text NoEvents = ''No events received from watcher channel; instantiating new channel''"

text \<open>
  Contexts are numbered in the order of their creation; a channel carries the context it was opened
  with. The cancelled contexts, the counts given to \<open>ObserveWatchEvents\<close> and the texts given to
  \<open>IncWatcherErrMetric\<close> are kept as lists, the latest first.
\<close>

record etcdV3KeyWatcher =
  kw_prefix :: string
  kw_ctx :: nat
  kw_cancelled :: "nat list"
  kw_ch :: "nat option"
  kw_events :: "watch_event list"
  kw_observed :: "(nat \<times> nat) list"
  kw_errors :: "string list"
  kw_closes :: nat

definition newEtcdV3KeyWatcher :: "string \<Rightarrow> etcdV3KeyWatcher" where
  "newEtcdV3KeyWatcher p =
     \<lparr>kw_prefix = p, kw_ctx = 0, kw_cancelled = [], kw_ch = None, kw_events = [],
      kw_observed = [(0, 0)], kw_errors = [], kw_closes = 0\<rparr>"

definition kw_reset :: "etcdV3KeyWatcher \<Rightarrow> etcdV3KeyWatcher" where
  "kw_reset kw = kw\<lparr>kw_cancelled := kw_ctx kw # kw_cancelled kw, kw_ch := None, kw_ctx := Suc (kw_ctx kw)\<rparr>"

text \<open>\<open>w.Watch\<close>, when there is no channel.\<close>

definition kw_open :: "etcdV3KeyWatcher \<Rightarrow> etcdV3KeyWatcher" where
  "kw_open kw = (case kw_ch kw of None \<Rightarrow> kw\<lparr>kw_ch := Some (kw_ctx kw)\<rparr> | Some _ \<Rightarrow> kw)"

text \<open>The \<open>select\<close>: an error to return, or the watcher with the events of the response.\<close>

definition kw_receive ::
  "watch_input \<Rightarrow> etcdV3KeyWatcher \<Rightarrow> watch_error option \<times> etcdV3KeyWatcher" where
  "kw_receive inp kw =
     (case inp of
        StopSignal closeErr \<Rightarrow>
          (let kw' = kw_reset kw
           in (Some (case closeErr of None \<Rightarrow> ErrWatcherClosing | Some e \<Rightarrow> WatchCloseError e),
               kw'\<lparr>kw_closes := Suc (kw_closes kw')\<rparr>))
      | ChannelEnd \<Rightarrow>
          (Some ChannelClosed,
           kw_reset (kw\<lparr>kw_errors := watch_error_text ChannelClosed # kw_errors kw\<rparr>))
      | WatchResponse (Some e) events \<Rightarrow>
          (Some (ResponseError e), kw_reset (kw\<lparr>kw_errors := e # kw_errors kw\<rparr>))
      | WatchResponse None events \<Rightarrow> (None, kw\<lparr>kw_events := events\<rparr>))"

text \<open>The rest of \<open>next\<close>: observe the buffer and take its first event; a delete has no value.\<close>

definition kw_deliver ::
  "etcdV3KeyWatcher \<Rightarrow> (watch_error + string \<times> string option) \<times> etcdV3KeyWatcher" where
  "kw_deliver kw =
     (case kw_events kw of
        [] \<Rightarrow> (Inl NoEvents, kw_reset kw)
      | event # rest \<Rightarrow>
          (Inr (ev_key event, if ev_delete event then None else Some (ev_value event)),
           kw\<lparr>kw_observed := (length (kw_events kw), sum_list (map ev_size (kw_events kw))) # kw_observed kw,
              kw_events := rest\<rparr>))"

text \<open>
  \<open>next\<close>, on the inputs still to come: the result, the remaining inputs and the watcher. It waits
  (\<open>Diverge\<close>) when the buffer is empty and nothing ever arrives.
\<close>

definition kw_next ::
  "watch_input list \<Rightarrow> etcdV3KeyWatcher \<Rightarrow>
   ((watch_error + string \<times> string option) \<times> watch_input list \<times> etcdV3KeyWatcher) go" where
  "kw_next inputs kw =
     (let kw1 = kw_open kw
      in if kw_events kw1 \<noteq> [] then
           (case kw_deliver kw1 of (r, kw2) \<Rightarrow> Ret (r, inputs, kw2))
         else
           (case inputs of
              [] \<Rightarrow> Diverge
            | inp # rest \<Rightarrow>
                (case kw_receive inp kw1 of
                   (Some err, kw2) \<Rightarrow> Ret (Inl err, rest, kw2)
                 | (None, kw2) \<Rightarrow> (case kw_deliver kw2 of (r, kw3) \<Rightarrow> Ret (r, rest, kw3)))))"

text \<open>Calling \<open>next\<close> a number of times.\<close>

primrec kw_run ::
  "nat \<Rightarrow> watch_input list \<Rightarrow> etcdV3KeyWatcher \<Rightarrow>
   ((watch_error + string \<times> string option) list \<times> watch_input list \<times> etcdV3KeyWatcher) go" where
  "kw_run 0 inputs kw = Ret ([], inputs, kw)"
| "kw_run (Suc n) inputs kw =
     go_bind (kw_next inputs kw) (\<lambda>(r, inputs', kw').
     go_bind (kw_run n inputs' kw') (\<lambda>(rs, inputs'', kw''). Ret (r # rs, inputs'', kw'')))"

section \<open>A transaction of gets\<close>

text \<open>
  What etcd promises for one moment with the contents \<open>st\<close>: every answer that is not an error
  holds the pairs of the keys asked for, and a get of a prefix each stored key below it once.
\<close>

definition kv_entries :: "(string \<Rightarrow> string option) \<Rightarrow> string \<Rightarrow> (string \<times> string) list" where
  "kv_entries st k = (case st k of None \<Rightarrow> [] | Some v \<Rightarrow> [(k, v)])"

definition serves :: "etcd_kv \<Rightarrow> (string \<Rightarrow> string option) \<Rightarrow> bool" where
  "serves kV st \<longleftrightarrow>
     (\<forall>k r. kv_Get kV k = Inr r \<longrightarrow> r = (length (kv_entries st k), kv_entries st k)) \<and>
     (\<forall>ops rs. kv_Txn kV ops = Inr rs \<longrightarrow> rs = map (kv_entries st) ops) \<and>
     (\<forall>p kvs. kv_GetPrefix kV p = Inr kvs \<longrightarrow>
        distinct (map fst kvs) \<and> (\<forall>k v. (k, v) \<in> set kvs \<longleftrightarrow> st k = Some v \<and> strings_HasPrefix k p))"

lemma uniqueKeys_keys: "set (gm_keys (uniqueKeys keys)) = set keys"
proof -
  have "set (gm_keys (fold (\<lambda>key m. gm_put m key True) keys m)) = set (gm_keys m) \<union> set keys"
    for m :: "(string, bool) gomap"
    by (induction keys arbitrary: m) (auto simp: gomap_simps)
  from this [of "[]"] show ?thesis by (simp add: uniqueKeys_def)
qed

lemma uniqueKeys_distinct: "distinct (gm_keys (uniqueKeys keys))"
proof -
  have "gm_wf m \<Longrightarrow> gm_wf (fold (\<lambda>key m. gm_put m key True) keys m)" for m :: "(string, bool) gomap"
    by (induction keys arbitrary: m) auto
  from this [of "[]"] show ?thesis by (simp add: uniqueKeys_def gm_keys_def gm_wf_def)
qed

lemma gm_get_put_all: "gm_get (put_all kvs m) = gm_get m ++ map_of (rev kvs)"
proof (induction kvs arbitrary: m)
  case (Cons kv kvs)
  have "put_all (kv # kvs) m = put_all kvs (gm_put m (fst kv) (snd kv))"
    by (simp add: put_all_def split: prod.splits)
  moreover have "gm_get (gm_put m (fst kv) (snd kv)) = gm_get m ++ [fst kv \<mapsto> snd kv]"
    by (rule ext) (simp add: gomap_simps)
  ultimately show ?case using Cons.IH by (simp add: fun_upd_def)
qed (simp add: put_all_def)

lemma gm_get_put_all_distinct:
  "distinct (map fst kvs) \<Longrightarrow> gm_get (put_all kvs m) k = Some v \<longleftrightarrow>
     (k, v) \<in> set kvs \<or> k \<notin> fst ` set kvs \<and> gm_get m k = Some v"
  by (auto simp: gm_get_put_all map_add_Some_iff map_of_eq_None_iff rev_map [symmetric])

lemma gm_wf_put_all [simp]: "gm_wf m \<Longrightarrow> gm_wf (put_all kvs m)"
  by (induction kvs arbitrary: m) (auto simp: put_all_def)

lemma put_all_entries:
  "gm_get (put_all (kv_entries st x) m) k = (if k = x \<and> st x \<noteq> None then st x else gm_get m k)"
  by (auto simp: put_all_def kv_entries_def gomap_simps split: option.splits)

lemma gm_get_responses:
  "gm_get (fold put_all (map (kv_entries st) ops) m) k =
     (if k \<in> set ops \<and> st k \<noteq> None then st k else gm_get m k)"
  by (induction ops arbitrary: m) (auto simp: put_all_entries)

lemma cacheReadAPI_get_eq: "cacheReadAPI_get kvs = (\<lambda>k. Inr (gm_get kvs k))"
  by (rule ext) (simp add: cacheReadAPI_get_def split: option.splits)

lemma getCachedAPI_serves:
  assumes "serves kV st" and "etcdV3ReadAPI_getCachedAPI ord kV keys = Inr c"
  shows "gm_get c k = (if k \<in> set keys then st k else None)"
proof -
  obtain rs where "kv_Txn kV (range_in ord (gm_keys (uniqueKeys keys))) = Inr rs" "c = fold put_all rs []"
    using assms(2) by (auto simp: etcdV3ReadAPI_getCachedAPI_def Let_def split: sum.splits)
  then have "c = fold put_all (map (kv_entries st) (range_in ord (gm_keys (uniqueKeys keys)))) []"
    using assms(1) by (auto simp: serves_def)
  then show ?thesis by (auto simp: gm_get_responses uniqueKeys_keys)
qed

lemma etcd_get_serves:
  assumes "serves kV st" and "\<not> isl (kv_Get kV k)"
  shows "etcdV3ReadAPI_get kV k = Ret (Inr (st k))"
proof -
  have "kv_Get kV k = Inr (length (kv_entries st k), kv_entries st k)"
    using assms by (cases "kv_Get kV k") (auto simp: serves_def)
  then show ?thesis by (simp add: etcdV3ReadAPI_get_def kv_entries_def split: option.splits)
qed

lemma serves_reads_store:
  assumes "serves kV st" and "\<And>ops. \<not> isl (kv_Txn kV ops)"
  shows "reads_store (etcd_readAPI ord kV) st"
  unfolding reads_store_def
proof
  fix keys
  obtain c where c: "etcdV3ReadAPI_getCachedAPI ord kV keys = Inr c"
    using assms(2) [of "range_in ord (gm_keys (uniqueKeys keys))"]
    by (cases "kv_Txn kV (range_in ord (gm_keys (uniqueKeys keys)))")
      (auto simp: etcdV3ReadAPI_getCachedAPI_def Let_def)
  then have "etcd_readAPI ord kV keys = Inr (cacheReadAPI_get c)" by (simp add: etcd_readAPI_def)
  then show "\<exists>api. etcd_readAPI ord kV keys = Inr api \<and> (\<forall>k \<in> set keys. api k = Inr (st k))"
    using getCachedAPI_serves [OF assms(1) c] by (auto simp: cacheReadAPI_get_eq)
qed

text \<open>
  A client whose single gets succeed and whose answers belong to one moment is a read API whose
  batches agree with its gets.
\<close>

typedef snapshot_kv = "{kV :: etcd_kv. \<exists>st. serves kV st \<and> (\<forall>k. \<not> isl (kv_Get kV k))}"
proof (rule exI, rule CollectI, intro exI conjI)
  show "serves \<lparr>kv_Get = \<lambda>k. Inr (0, []), kv_Txn = \<lambda>ops. Inr (map (\<lambda>_. []) ops),
      kv_GetPrefix = \<lambda>p. Inr []\<rparr> (\<lambda>_. None)"
    by (simp add: serves_def kv_entries_def)
qed simp

definition snapshot_get :: "snapshot_kv \<Rightarrow> read_get" where
  "snapshot_get api k = (case etcdV3ReadAPI_get (Rep_snapshot_kv api) k of Ret r \<Rightarrow> r)"

definition snapshot_getCachedAPI ::
  "string range_order \<Rightarrow> snapshot_kv \<Rightarrow> string list \<Rightarrow> string + (string, string) gomap" where
  "snapshot_getCachedAPI ord api = etcdV3ReadAPI_getCachedAPI ord (Rep_snapshot_kv api)"

interpretation etcdReadAPI: read_api snapshot_get "snapshot_getCachedAPI ord" cacheReadAPI_get for ord
proof unfold_locales
  fix api keys c k
  assume c: "snapshot_getCachedAPI ord api keys = Inr c" and k: "k \<in> set keys"
  obtain st where st: "serves (Rep_snapshot_kv api) st" "\<And>k. \<not> isl (kv_Get (Rep_snapshot_kv api) k)"
    using Rep_snapshot_kv [of api] by auto
  have "gm_get c k = st k"
    using getCachedAPI_serves [OF st(1)] c k by (simp add: snapshot_getCachedAPI_def)
  then show "cacheReadAPI_get c k = snapshot_get api k"
    using etcd_get_serves [OF st] by (simp add: snapshot_get_def cacheReadAPI_get_eq)
qed

section \<open>The watcher's buffer\<close>

text \<open>Only the context of the current channel is alive.\<close>

definition kw_inv :: "etcdV3KeyWatcher \<Rightarrow> bool" where
  "kw_inv kw \<longleftrightarrow> (kw_ch kw = None \<or> kw_ch kw = Some (kw_ctx kw)) \<and> set (kw_cancelled kw) = {..<kw_ctx kw}"

text \<open>What one input leads to, as the results of successive calls of \<open>next\<close>.\<close>

definition event_result :: "watch_event \<Rightarrow> watch_error + string \<times> string option" where
  "event_result e = Inr (ev_key e, if ev_delete e then None else Some (ev_value e))"

definition watch_results :: "watch_input \<Rightarrow> (watch_error + string \<times> string option) list" where
  "watch_results inp =
     (case inp of
        StopSignal None \<Rightarrow> [Inl ErrWatcherClosing]
      | StopSignal (Some e) \<Rightarrow> [Inl (WatchCloseError e)]
      | ChannelEnd \<Rightarrow> [Inl ChannelClosed]
      | WatchResponse (Some e) events \<Rightarrow> [Inl (ResponseError e)]
      | WatchResponse None events \<Rightarrow> if events = [] then [Inl NoEvents] else map event_result events)"

lemma kw_inv_new [simp]: "kw_inv (newEtcdV3KeyWatcher p)"
  by (simp add: kw_inv_def newEtcdV3KeyWatcher_def)

lemma kw_inv_reset [simp]: "kw_inv kw \<Longrightarrow> kw_inv (kw_reset kw)"
  by (auto simp: kw_inv_def kw_reset_def lessThan_Suc)

lemma kw_inv_open [simp]: "kw_inv kw \<Longrightarrow> kw_inv (kw_open kw)"
  by (cases "kw_ch kw") (simp_all add: kw_inv_def kw_open_def)

lemma kw_inv_updates [simp]:
  "kw_inv (kw\<lparr>kw_events := es\<rparr>) = kw_inv kw" "kw_inv (kw\<lparr>kw_observed := obs\<rparr>) = kw_inv kw"
  "kw_inv (kw\<lparr>kw_errors := ers\<rparr>) = kw_inv kw" "kw_inv (kw\<lparr>kw_closes := n\<rparr>) = kw_inv kw"
  by (simp_all add: kw_inv_def)

lemma kw_open_fields [kw_simps]:
  "kw_events (kw_open kw) = kw_events kw" "kw_observed (kw_open kw) = kw_observed kw"
  by (simp_all add: kw_open_def split: option.splits)

lemma kw_reset_fields [kw_simps]:
  "kw_events (kw_reset kw) = kw_events kw" "kw_observed (kw_reset kw) = kw_observed kw"
  by (simp_all add: kw_reset_def)

text \<open>A call with a buffered event, and a call that has to receive.\<close>

lemma kw_next_buffered:
  assumes "kw_events kw = e # es"
  shows "\<exists>kw'. kw_next inputs kw = Ret (event_result e, inputs, kw') \<and> kw_events kw' = es \<and>
    (kw_inv kw \<longrightarrow> kw_inv kw') \<and>
    kw_observed kw' = (Suc (length es), ev_size e + sum_list (map ev_size es)) # kw_observed kw"
  using assms by (auto simp: kw_next_def kw_deliver_def event_result_def kw_simps Let_def)

lemma kw_next_receives:
  assumes "kw_events kw = []"
  shows "\<exists>kw'. kw_next (inp # inputs) kw = Ret (hd (watch_results inp), inputs, kw') \<and>
    map event_result (kw_events kw') = tl (watch_results inp) \<and> (kw_inv kw \<longrightarrow> kw_inv kw')"
proof -
  note unfold = kw_next_def kw_receive_def kw_deliver_def kw_simps watch_results_def event_result_def Let_def
  consider e where "inp = StopSignal e" | "inp = ChannelEnd" | e es where "inp = WatchResponse (Some e) es"
    | "inp = WatchResponse None []" | x xs where "inp = WatchResponse None (x # xs)"
    by (metis watch_input.exhaust list.exhaust option.exhaust)
  then show ?thesis
    by cases (use assms in \<open>auto simp: unfold split: option.splits\<close>)
qed

lemma watch_results_not_Nil [simp]: "watch_results inp \<noteq> []"
  by (auto simp: watch_results_def split: watch_input.splits option.splits)

lemma kw_run_results:
  assumes "kw_inv kw" and "rs = map event_result (kw_events kw) @ concat (map watch_results inputs)"
  shows "\<exists>kw'. kw_run (length rs) inputs kw = Ret (rs, [], kw') \<and> kw_events kw' = [] \<and> kw_inv kw'"
  using assms
proof (induction rs arbitrary: inputs kw)
  case Nil
  then have "inputs = []" by (cases inputs) auto
  with Nil show ?case by auto
next
  case (Cons r rs)
  show ?case
  proof (cases "kw_events kw")
    case (Cons e es)
    obtain kw' where kw': "kw_next inputs kw = Ret (event_result e, inputs, kw')" "kw_events kw' = es" "kw_inv kw'"
      using kw_next_buffered [OF Cons] Cons.prems(1) by metis
    then show ?thesis
      using Cons.IH [OF kw'(3), of inputs] Cons.prems(2) Cons by auto
  next
    case Nil
    then obtain inp rest where inputs: "inputs = inp # rest"
      using Cons.prems(2) by (cases inputs) auto
    obtain kw' where kw': "kw_next inputs kw = Ret (hd (watch_results inp), rest, kw')"
      "map event_result (kw_events kw') = tl (watch_results inp)" "kw_inv kw'"
      using kw_next_receives [OF Nil, of inp rest] Cons.prems(1) inputs by metis
    have "r # rs = watch_results inp @ concat (map watch_results rest)"
      using Cons.prems(2) Nil inputs by simp
    then have "r = hd (watch_results inp)" "rs = tl (watch_results inp) @ concat (map watch_results rest)"
      by (cases "watch_results inp"; simp)+
    then show ?thesis
      using Cons.IH [OF kw'(3), of rest] kw' by auto
  qed
qed

lemma kw_run_observed:
  assumes "kw_events kw = es"
  shows "\<exists>rs kw'. kw_run (length es) inputs kw = Ret (rs, inputs, kw') \<and>
    map fst (kw_observed kw') = [1..<Suc (length es)] @ map fst (kw_observed kw)"
  using assms
proof (induction es arbitrary: kw)
  case (Cons e es)
  obtain kw1 where kw1: "kw_next inputs kw = Ret (event_result e, inputs, kw1)" "kw_events kw1 = es"
    "kw_observed kw1 = (Suc (length es), ev_size e + sum_list (map ev_size es)) # kw_observed kw"
    using kw_next_buffered [OF Cons.prems, of inputs] by blast
  show ?case using Cons.IH [OF kw1(2)] kw1 by auto
qed simp

section \<open>Properties\<close>

text \<open>
  A batch of reads asks for every key once, in one transaction, and answers each requested key
  exactly as a single get would: with its value in the store, or as absent. Keys that were not
  requested are absent in the batch.
\<close>

theorem getCachedAPI_reads_snapshot:
  assumes "serves kV st" and "etcdV3ReadAPI_getCachedAPI ord kV keys = Inr c"
  shows "\<exists>ops. distinct ops \<and> set ops = set keys \<and> kv_Txn kV ops = Inr (map (kv_entries st) ops) \<and>
    (\<forall>k. cacheReadAPI_get c k = Inr (if k \<in> set keys then st k else None)) \<and>
    (\<forall>k \<in> set keys. \<not> isl (kv_Get kV k) \<longrightarrow> etcdV3ReadAPI_get kV k = Ret (cacheReadAPI_get c k))"
proof (intro exI conjI)
  let ?ops = "range_in ord (gm_keys (uniqueKeys keys))"
  show "distinct ?ops" "set ?ops = set keys" by (simp_all add: uniqueKeys_keys uniqueKeys_distinct)
  show "kv_Txn kV ?ops = Inr (map (kv_entries st) ?ops)"
    using assms by (auto simp: etcdV3ReadAPI_getCachedAPI_def serves_def Let_def split: sum.splits)
  show "\<forall>k. cacheReadAPI_get c k = Inr (if k \<in> set keys then st k else None)"
    using getCachedAPI_serves [OF assms] by (simp add: cacheReadAPI_get_eq)
  show "\<forall>k \<in> set keys. \<not> isl (kv_Get kV k) \<longrightarrow> etcdV3ReadAPI_get kV k = Ret (cacheReadAPI_get c k)"
    using getCachedAPI_serves [OF assms] etcd_get_serves [OF assms(1)] by (simp add: cacheReadAPI_get_eq)
qed

theorem getCachedAPI_reads_snapshot_witness:
  "\<exists>c. etcdV3ReadAPI_getCachedAPI reverse_order
       \<lparr>kv_Get = \<lambda>k. Inr (if k = ''/a'' then (1, [(''/a'', ''7'')]) else (0, [])),
        kv_Txn = \<lambda>ops. Inr (map (\<lambda>k. if k = ''/a'' then [(''/a'', ''7'')] else []) ops),
        kv_GetPrefix = \<lambda>p. Inl ''unavailable''\<rparr> [''/b'', ''/a'', ''/b''] = Inr c \<and>
     cacheReadAPI_get c ''/a'' = Inr (Some ''7'') \<and> cacheReadAPI_get c ''/b'' = Inr None"
proof -
  let ?kV = "\<lparr>kv_Get = \<lambda>k. Inr (if k = ''/a'' then (1, [(''/a'', ''7'')]) else (0, [])),
        kv_Txn = \<lambda>ops. Inr (map (\<lambda>k. if k = ''/a'' then [(''/a'', ''7'')] else []) ops),
        kv_GetPrefix = \<lambda>p. Inl ''unavailable''\<rparr>"
  let ?keys = "[''/b'', ''/a'', ''/b'']"
  have s: "serves ?kV [''/a'' \<mapsto> ''7'']" by (auto simp: serves_def kv_entries_def)
  obtain c where c: "etcdV3ReadAPI_getCachedAPI reverse_order ?kV ?keys = Inr c"
    by (simp add: etcdV3ReadAPI_getCachedAPI_def)
  have "cacheReadAPI_get c k = Inr (if k \<in> set ?keys then [''/a'' \<mapsto> ''7''] k else None)" for k
    using getCachedAPI_reads_snapshot [OF s c] by blast
  from this [of "''/a''"] this [of "''/b''"] show ?thesis using c by (intro exI conjI) simp_all
qed

text \<open>
  C24. The key watcher refines a queue: from any state, successive calls of \<open>next\<close> return first the
  buffered events and then, input by input, all events of each response in their order (a delete
  without a value), or one error for a stop signal, a closed channel, a failed or an empty
  response. No event is lost, repeated or reordered, the call after the last result waits, and at
  every moment only the context of the current channel is not cancelled.
\<close>

theorem key_watcher_refines_queue:
  assumes "kw_inv kw" and "rs = map event_result (kw_events kw) @ concat (map watch_results inputs)"
  shows "\<exists>kw'. kw_run (length rs) inputs kw = Ret (rs, [], kw') \<and> kw_next [] kw' = Diverge \<and> kw_inv kw'"
proof -
  obtain kw' where kw': "kw_run (length rs) inputs kw = Ret (rs, [], kw')" "kw_events kw' = []" "kw_inv kw'"
    using kw_run_results [OF assms] by blast
  then have "kw_next [] kw' = Diverge" by (simp add: kw_next_def kw_simps)
  with kw' show ?thesis by blast
qed

theorem key_watcher_refines_queue_witness:
  "\<exists>kw'. kw_run 4 [WatchResponse None [\<lparr>ev_delete = False, ev_key = ''/a'', ev_value = ''1'', ev_size = 3\<rparr>,
       \<lparr>ev_delete = True, ev_key = ''/b'', ev_value = [], ev_size = 2\<rparr>], ChannelEnd, StopSignal None]
     (newEtcdV3KeyWatcher ''/'') =
     Ret ([Inr (''/a'', Some ''1''), Inr (''/b'', None), Inl ChannelClosed, Inl ErrWatcherClosing], [], kw') \<and>
   kw_inv kw'"
proof -
  let ?in = "[WatchResponse None [\<lparr>ev_delete = False, ev_key = ''/a'', ev_value = ''1'', ev_size = 3\<rparr>,
       \<lparr>ev_delete = True, ev_key = ''/b'', ev_value = [], ev_size = 2\<rparr>], ChannelEnd, StopSignal None]"
  let ?rs = "[Inr (''/a'', Some ''1''), Inr (''/b'', None), Inl ChannelClosed, Inl ErrWatcherClosing]"
  have "?rs = map event_result (kw_events (newEtcdV3KeyWatcher ''/'')) @ concat (map watch_results ?in)"
    by (simp add: newEtcdV3KeyWatcher_def watch_results_def event_result_def)
  from key_watcher_refines_queue [OF kw_inv_new this]
  obtain kw' where "kw_run (length ?rs) ?in (newEtcdV3KeyWatcher ''/'') = Ret (?rs, [], kw')" "kw_inv kw'"
    by (elim exE conjE)
  moreover have "length ?rs = 4" by simp
  ultimately show ?thesis by (intro exI conjI) (simp_all only:)
qed

text \<open>
  The events of a response are reported to the metrics again and again: the code says that event
  metrics are observed when the events are received, but each call of \<open>next\<close> counts all events
  still in the buffer, so a response with \<open>n\<close> events is counted as \<open>n(n+1)/2\<close> events.
\<close>

theorem watch_events_counted_repeatedly:
  assumes "events \<noteq> []"
  shows "\<exists>rs kw'. kw_run (length events) [WatchResponse None events] (newEtcdV3KeyWatcher p) = Ret (rs, [], kw') \<and>
    2 * sum_list (map fst (kw_observed kw')) = length events * (length events + 1)"
proof -
  obtain e es where es: "events = e # es" using assms by (cases events) auto
  obtain kw1 where kw1: "kw_next [WatchResponse None events] (newEtcdV3KeyWatcher p) = Ret (event_result e, [], kw1)"
    "kw_events kw1 = es" "map fst (kw_observed kw1) = [length events, 0]"
    by (auto simp: es kw_next_def kw_receive_def kw_deliver_def kw_simps newEtcdV3KeyWatcher_def event_result_def)
  obtain rs kw' where "kw_run (length es) [] kw1 = Ret (rs, [], kw')"
    "map fst (kw_observed kw') = [1..<Suc (length es)] @ map fst (kw_observed kw1)"
    using kw_run_observed [OF kw1(2)] by blast
  moreover have "2 * sum_list [1..<Suc n] = n * (n + 1)" for n :: nat
    by (induction n) auto
  ultimately show ?thesis using kw1 by (auto simp: es algebra_simps)
qed

theorem watch_events_counted_repeatedly_witness:
  "\<exists>rs kw'. kw_run 3 [WatchResponse None (replicate 3
       \<lparr>ev_delete = True, ev_key = ''/b'', ev_value = [], ev_size = 2\<rparr>)] (newEtcdV3KeyWatcher ''/'') = Ret (rs, [], kw') \<and>
    sum_list (map fst (kw_observed kw')) = 6"
proof -
  let ?es = "replicate 3 \<lparr>ev_delete = True, ev_key = ''/b'', ev_value = [], ev_size = 2\<rparr>"
  have "?es \<noteq> []" and l: "length ?es = 3" by simp_all
  then obtain rs kw' where "kw_run (length ?es) [WatchResponse None ?es] (newEtcdV3KeyWatcher ''/'') = Ret (rs, [], kw')"
    "2 * sum_list (map fst (kw_observed kw')) = length ?es * (length ?es + 1)"
    using watch_events_counted_repeatedly by blast
  then show ?thesis unfolding l by auto
qed

end
