(* ===== verification/Locks.thy ===== *)
theory Locks
  imports GoStrings
begin

text \<open>
  \<open>rules/lock\<close>: the lockers (in memory, cool-off, etcd, nested, with metrics), the locks they
  return, and the interleaving of goroutines that use one locker. The etcd client's sessions and
  mutexes are third-party code: they are a record of functions over an abstract etcd state.
\<close>

named_theorems lock_simps "effect of the lock operations on the state"

section \<open>Definitions\<close>

subsection \<open>Options\<close>

record lock_options =
  lo_pattern :: string
  lo_method :: string

type_synonym lock_option = "lock_options \<Rightarrow> lock_options"

definition buildOptions :: "lock_option list \<Rightarrow> lock_options" where
  "buildOptions opts = fold (\<lambda>opt os. opt os) opts \<lparr>lo_pattern = ''unknown'', lo_method = ''unknown''\<rparr>"

definition PatternForLock :: "string \<Rightarrow> lock_option" where
  "PatternForLock p lo = lo\<lparr>lo_pattern := p\<rparr>"

definition MethodForLock :: "string \<Rightarrow> lock_option" where
  "MethodForLock meth lo = lo\<lparr>lo_method := meth\<rparr>"

subsection \<open>State\<close>

text \<open>
  The etcd client as the lockers use it: sessions are numbers, a result \<open>Some e\<close> is an error.
  Timeouts are errors of these calls.
\<close>

record 'e etcd_api =
  newSession :: "'e \<Rightarrow> (string + nat) \<times> 'e"
  mutex_Lock :: "nat \<Rightarrow> string \<Rightarrow> 'e \<Rightarrow> string option \<times> 'e"
  mutex_TryLock :: "nat \<Rightarrow> string \<Rightarrow> 'e \<Rightarrow> string option \<times> 'e"
  mutex_Unlock :: "nat \<Rightarrow> string \<Rightarrow> 'e \<Rightarrow> string option \<times> 'e"
  session_Close :: "nat \<Rightarrow> 'e \<Rightarrow> string option \<times> 'e"

text \<open>The errors of the package; \<open>EtcdError\<close> carries the text of the client's error.\<close>

datatype lock_error =
    ErrLockedLocally
  | CoolOffExpires int  \<comment> \<open>the cool-off duration\<close>
  | EtcdError string
  | ErrNilMutex
  | UnlockError string  \<comment> \<open>\<open>errors.Join\<close> of \<open>Unlock:\<close> and the client's error\<close>
  | CloseError string

datatype lock_event =
    ObserveLock string string string bool
  | ObserveUnlockError string string string

text \<open>
  Map lockers and cool-off lockers share their maps between copies, so the maps live at addresses.
  \<open>ls_now\<close> is the clock that \<open>time.Now\<close> reads.
\<close>

record 'e lock_state =
  ls_maps :: "nat \<Rightarrow> (string, bool) gomap"
  ls_cooloff :: "nat \<Rightarrow> (string, int) gomap"
  ls_now :: int
  ls_etcd :: 'e
  ls_events :: "lock_event list"

datatype rule_locker =
    ToggleLockerAdapter nat
  | CoolOffLocker nat int
  | V3Locker bool bool  \<comment> \<open>\<open>closeSession\<close>, \<open>useTryLock\<close>\<close>
  | NestedLocker rule_locker rule_locker
  | MetricLocker rule_locker string

datatype rule_lock =
    ToggleLock nat string
  | CoolOffLock
  | V3Lock "(nat \<times> string) option" "nat option"  \<comment> \<open>\<open>mutex\<close>, \<open>session\<close>\<close>
  | NestedLock rule_lock rule_lock
  | MetricLock rule_lock string

subsection \<open>Map locker\<close>

definition toggle :: "nat \<Rightarrow> string \<Rightarrow> bool \<Rightarrow> 'e lock_state \<Rightarrow> bool \<times> 'e lock_state" where
  "toggle a key lck st =
     (let ml = ls_maps st a
      in if gm_get ml key = Some True then
           (\<not> lck, if \<not> lck then st\<lparr>ls_maps := (ls_maps st)(a := gm_delete ml key)\<rparr> else st)
         else (True, if lck then st\<lparr>ls_maps := (ls_maps st)(a := gm_put ml key True)\<rparr> else st))"

definition toggle_Lock :: "nat \<Rightarrow> string \<Rightarrow> 'e lock_state \<Rightarrow> (lock_error + rule_lock) \<times> 'e lock_state" where
  "toggle_Lock a key st =
     (case toggle a key True st of (ok, st') \<Rightarrow>
        if \<not> ok then (Inl ErrLockedLocally, st') else (Inr (ToggleLock a key), st'))"

definition toggle_Unlock :: "nat \<Rightarrow> string \<Rightarrow> 'e lock_state \<Rightarrow> lock_error option \<times> 'e lock_state" where
  "toggle_Unlock a key st = (None, snd (toggle a key False st))"

subsection \<open>Cool-off locker\<close>

definition coolOff_Lock ::
  "nat \<Rightarrow> int \<Rightarrow> string \<Rightarrow> 'e lock_state \<Rightarrow> (lock_error + rule_lock) \<times> 'e lock_state" where
  "coolOff_Lock a coolOffDuration key st =
     (let now = ls_now st;
          locks = ls_cooloff st a;
          toDelete = map fst (filter (\<lambda>(k, v). v < now) locks);
          locks1 = fold (\<lambda>k m. gm_delete m k) toDelete locks;
          err = (case gm_get locks1 key of Some _ \<Rightarrow> True | None \<Rightarrow> False);
          locks2 = gm_put locks1 key (now + coolOffDuration);
          st' = st\<lparr>ls_cooloff := (ls_cooloff st)(a := locks2)\<rparr>
      in if err then (Inl (CoolOffExpires coolOffDuration), st') else (Inr CoolOffLock, st'))"

subsection \<open>Etcd locker\<close>

definition lockWithTimeout ::
  "'e etcd_api \<Rightarrow> bool \<Rightarrow> bool \<Rightarrow> string \<Rightarrow> 'e lock_state \<Rightarrow> (lock_error + rule_lock) \<times> 'e lock_state" where
  "lockWithTimeout api closeSession useTryLock key st =
     (case newSession api (ls_etcd st) of
        (Inl err, e1) \<Rightarrow> (Inl (EtcdError err), st\<lparr>ls_etcd := e1\<rparr>)
      | (Inr s, e1) \<Rightarrow>
          (case (if useTryLock then mutex_TryLock api s key e1 else mutex_Lock api s key e1) of
             (Some err, e2) \<Rightarrow> (Inl (EtcdError err), st\<lparr>ls_etcd := e2\<rparr>)
           | (None, e2) \<Rightarrow>
               (Inr (V3Lock (Some (s, key)) (if closeSession then Some s else None)), st\<lparr>ls_etcd := e2\<rparr>)))"

definition unlockMaxRetries :: nat where
  "unlockMaxRetries = 5"

text \<open>The retry loop: the first argument counts the attempts that are left.\<close>

primrec unlock_loop ::
  "nat \<Rightarrow> ('e \<Rightarrow> string option \<times> 'e) \<Rightarrow> string option \<Rightarrow> 'e \<Rightarrow> string option \<times> 'e" where
  "unlock_loop 0 unlock err e = (err, e)"
| "unlock_loop (Suc n) unlock err e =
     (case unlock e of (Some err', e') \<Rightarrow> unlock_loop n unlock (Some err') e' | (None, e') \<Rightarrow> (None, e'))"

definition v3Lock_Unlock ::
  "'e etcd_api \<Rightarrow> (nat \<times> string) option \<Rightarrow> nat option \<Rightarrow> 'e lock_state \<Rightarrow> lock_error option \<times> 'e lock_state" where
  "v3Lock_Unlock api mutex session st =
     (case mutex of
        None \<Rightarrow> (Some ErrNilMutex, st)
      | Some (s, key) \<Rightarrow>
          (case unlock_loop unlockMaxRetries (mutex_Unlock api s key) None (ls_etcd st) of (err0, e1) \<Rightarrow>
             let err = map_option UnlockError err0
             in case session of
                  None \<Rightarrow> (err, st\<lparr>ls_etcd := e1\<rparr>)
                | Some s' \<Rightarrow>
                    (case session_Close api s' e1 of (serr0, e2) \<Rightarrow>
                       let serr = (case serr0 of
                                     Some m \<Rightarrow> if strings_Contains m ''lease not found'' then None else Some m
                                   | None \<Rightarrow> None)
                       in (if err = None \<and> serr \<noteq> None
                           then map_option CloseError serr else err,
                           st\<lparr>ls_etcd := e2\<rparr>))))"

subsection \<open>All locks and lockers\<close>

primrec Unlock :: "'e etcd_api \<Rightarrow> rule_lock \<Rightarrow> lock_option list \<Rightarrow> 'e lock_state \<Rightarrow> lock_error option \<times> 'e lock_state" where
  "Unlock api (ToggleLock a key) opts st = toggle_Unlock a key st"
| "Unlock api CoolOffLock opts st = (None, st)"
| "Unlock api (V3Lock mutex session) opts st = v3Lock_Unlock api mutex session st"
| "Unlock api (NestedLock own nested) opts st =
     (case Unlock api nested [] st of (err, st1) \<Rightarrow>
        case Unlock api own [] st1 of (ownError, st2) \<Rightarrow>
          (if err = None then ownError else err, st2))"
| "Unlock api (MetricLock l name) opts st =
     (case Unlock api l opts st of (err, st1) \<Rightarrow>
        (err,
         if err \<noteq> None
         then st1\<lparr>ls_events := ls_events st1 @
                [ObserveUnlockError name (lo_method (buildOptions opts)) (lo_pattern (buildOptions opts))]\<rparr>
         else st1))"

primrec Lock ::
  "'e etcd_api \<Rightarrow> rule_locker \<Rightarrow> string \<Rightarrow> lock_option list \<Rightarrow> 'e lock_state \<Rightarrow>
   (lock_error + rule_lock) \<times> 'e lock_state" where
  "Lock api (ToggleLockerAdapter a) key opts st = toggle_Lock a key st"
| "Lock api (CoolOffLocker a d) key opts st = coolOff_Lock a d key st"
| "Lock api (V3Locker closeSession useTryLock) key opts st = lockWithTimeout api closeSession useTryLock key st"
| "Lock api (NestedLocker own nested) key opts st =
     (case Lock api own key opts st of
        (Inl err, st1) \<Rightarrow> (Inl err, st1)
      | (Inr l, st1) \<Rightarrow>
          (case Lock api nested key opts st1 of
             (Inl err, st2) \<Rightarrow> (case Unlock api l [] st2 of (_, st3) \<Rightarrow> (Inl err, st3))
           | (Inr n, st2) \<Rightarrow> (Inr (NestedLock l n), st2)))"
| "Lock api (MetricLocker lk name) key opts st =
     (let os = buildOptions opts
      in case Lock api lk key opts st of (r, st1) \<Rightarrow>
           (r, st1\<lparr>ls_events := ls_events st1 @ [ObserveLock name (lo_method os) (lo_pattern os) (\<not> isl r)]\<rparr>))"

text \<open>The locker that \<open>newV3Engine\<close> puts together.\<close>

definition engine_locker :: "bool \<Rightarrow> bool \<Rightarrow> int \<Rightarrow> nat \<Rightarrow> nat \<Rightarrow> rule_locker" where
  "engine_locker dontUseSharedLockSession useTryLock lockCoolOff mapAddr coolOffAddr =
     (let baseEtcdLocker = (if dontUseSharedLockSession then V3Locker True useTryLock else V3Locker False useTryLock);
          metricsEtcdLocker = MetricLocker baseEtcdLocker ''etcd'';
          baseLocker =
            (if dontUseSharedLockSession then metricsEtcdLocker
             else NestedLocker (MetricLocker (ToggleLockerAdapter mapAddr) ''map'') metricsEtcdLocker)
      in if lockCoolOff = 0 then baseLocker
         else NestedLocker (MetricLocker (CoolOffLocker coolOffAddr lockCoolOff) ''cooloff'') baseLocker)"

section \<open>Interleavings\<close>

text \<open>
  Goroutines that use one locker. Each locker guards its own map with a mutex, so the atomic steps
  are the calls of the lockers that are not nested ones: a nested locker takes its own lock, then
  the nested one, gives the own lock back if that fails, and unlocks in the opposite order.
\<close>

primrec leaf_lockers :: "rule_locker \<Rightarrow> rule_locker list" where
  "leaf_lockers (ToggleLockerAdapter a) = [ToggleLockerAdapter a]"
| "leaf_lockers (CoolOffLocker a d) = [CoolOffLocker a d]"
| "leaf_lockers (V3Locker c t) = [V3Locker c t]"
| "leaf_lockers (NestedLocker own nested) = leaf_lockers own @ leaf_lockers nested"
| "leaf_lockers (MetricLocker lk n) = [MetricLocker lk n]"

text \<open>
  A goroutine acquires (the key, the locks it has, the lockers to come), and holds the lock when no
  locker is left, or releases the locks it has.
\<close>

datatype thread =
    Idle
  | Acquiring string "rule_lock list" "rule_locker list"
  | Releasing "rule_lock list"

inductive lock_step ::
  "'e etcd_api \<Rightarrow> rule_locker \<Rightarrow> thread list \<times> 'e lock_state \<Rightarrow> thread list \<times> 'e lock_state \<Rightarrow> bool"
  for api lk where
  step_start: "i < length ts \<Longrightarrow> ts ! i = Idle \<Longrightarrow>
    lock_step api lk (ts, st) (ts[i := Acquiring key [] (leaf_lockers lk)], st)"
| step_acquire: "i < length ts \<Longrightarrow> ts ! i = Acquiring key ls (l # lks) \<Longrightarrow>
    Lock api l key opts st = (Inr k, st') \<Longrightarrow>
    lock_step api lk (ts, st) (ts[i := Acquiring key (k # ls) lks], st')"
| step_fail: "i < length ts \<Longrightarrow> ts ! i = Acquiring key ls (l # lks) \<Longrightarrow>
    Lock api l key opts st = (Inl err, st') \<Longrightarrow>
    lock_step api lk (ts, st) (ts[i := Releasing ls], st')"
| step_unlock: "i < length ts \<Longrightarrow> ts ! i = Acquiring key ls [] \<Longrightarrow>
    lock_step api lk (ts, st) (ts[i := Releasing ls], st)"
| step_release: "i < length ts \<Longrightarrow> ts ! i = Releasing (l # ls) \<Longrightarrow>
    Unlock api l [] st = (err, st') \<Longrightarrow>
    lock_step api lk (ts, st) (ts[i := Releasing ls], st')"
| step_done: "i < length ts \<Longrightarrow> ts ! i = Releasing [] \<Longrightarrow>
    lock_step api lk (ts, st) (ts[i := Idle], st)"
| step_environment: "lock_step api lk (ts, st) (ts, st\<lparr>ls_now := now, ls_etcd := e\<rparr>)"

primrec lock_held :: "thread \<Rightarrow> string option" where
  "lock_held Idle = None"
| "lock_held (Acquiring key ls lks) = (if lks = [] then Some key else None)"
| "lock_held (Releasing ls) = None"

text \<open>What a call of a locker does when no other goroutine interferes, leaf by leaf.\<close>

primrec release_all :: "'e etcd_api \<Rightarrow> rule_lock list \<Rightarrow> 'e lock_state \<Rightarrow> 'e lock_state" where
  "release_all api [] st = st"
| "release_all api (l # ls) st = release_all api ls (snd (Unlock api l [] st))"

primrec acquire_all ::
  "'e etcd_api \<Rightarrow> string \<Rightarrow> lock_option list \<Rightarrow> rule_locker list \<Rightarrow> rule_lock list \<Rightarrow> 'e lock_state \<Rightarrow>
   (lock_error + rule_lock list) \<times> 'e lock_state" where
  "acquire_all api key opts [] ls st = (Inr ls, st)"
| "acquire_all api key opts (lk # lks) ls st =
     (case Lock api lk key opts st of
        (Inl err, st1) \<Rightarrow> (Inl err, release_all api ls st1)
      | (Inr l, st1) \<Rightarrow> acquire_all api key opts lks (l # ls) st1)"

section \<open>Which maps an operation touches\<close>

definition locked :: "nat \<Rightarrow> 'e lock_state \<Rightarrow> string set" where
  "locked a st = {k. gm_get (ls_maps st a) k = Some True}"

primrec locker_maps :: "rule_locker \<Rightarrow> nat set" where
  "locker_maps (ToggleLockerAdapter a) = {a}"
| "locker_maps (CoolOffLocker a d) = {}"
| "locker_maps (V3Locker c t) = {}"
| "locker_maps (NestedLocker own nested) = locker_maps own \<union> locker_maps nested"
| "locker_maps (MetricLocker lk n) = locker_maps lk"

primrec lock_maps :: "rule_lock \<Rightarrow> nat set" where
  "lock_maps (ToggleLock a key) = {a}"
| "lock_maps CoolOffLock = {}"
| "lock_maps (V3Lock m s) = {}"
| "lock_maps (NestedLock own nested) = lock_maps own \<union> lock_maps nested"
| "lock_maps (MetricLock l n) = lock_maps l"

lemma toggle_other [lock_simps]: "a \<noteq> b \<Longrightarrow> ls_maps (snd (toggle b key lck st)) a = ls_maps st a"
  by (simp add: toggle_def Let_def)

lemma v3Lock_Unlock_maps [lock_simps]: "ls_maps (snd (v3Lock_Unlock api m s st)) = ls_maps st"
  by (auto simp: v3Lock_Unlock_def Let_def split: option.splits prod.splits)

lemma lockWithTimeout_maps [lock_simps]: "ls_maps (snd (lockWithTimeout api c t key st)) = ls_maps st"
  by (auto simp: lockWithTimeout_def split: option.splits prod.splits sum.splits)

lemma coolOff_maps [lock_simps]: "ls_maps (snd (coolOff_Lock a d key st)) = ls_maps st"
  by (simp add: coolOff_Lock_def Let_def)

lemma Unlock_other: "a \<notin> lock_maps l \<Longrightarrow> ls_maps (snd (Unlock api l opts st)) a = ls_maps st a"
proof (induction l arbitrary: opts st)
  case (NestedLock own nested)
  then show ?case by (simp add: case_prod_beta)
next
  case (MetricLock l n)
  then show ?case by (simp add: case_prod_beta)
qed (simp_all add: toggle_Unlock_def lock_simps)

lemma Lock_maps: "Lock api lk key opts st = (Inr l, st') \<Longrightarrow> lock_maps l \<subseteq> locker_maps lk"
proof (induction lk arbitrary: st l st')
  case (NestedLocker own nested)
  then show ?case by (fastforce split: prod.splits sum.splits)
next
  case (MetricLocker lk n)
  then show ?case by (auto simp: Let_def split: prod.splits)
qed (auto simp: toggle_Lock_def coolOff_Lock_def Let_def lockWithTimeout_def
      split: prod.splits sum.splits option.splits if_splits)

lemma Lock_other: "a \<notin> locker_maps lk \<Longrightarrow> ls_maps (snd (Lock api lk key opts st)) a = ls_maps st a"
proof (induction lk arbitrary: st)
  case (NestedLocker own nested)
  obtain r st1 where r: "Lock api own key opts st = (r, st1)" by fastforce
  have 1: "ls_maps st1 a = ls_maps st a" using NestedLocker r by (metis UnCI locker_maps.simps(4) snd_conv)
  obtain r2 st2 where r2: "Lock api nested key opts st1 = (r2, st2)" by fastforce
  have 2: "ls_maps st2 a = ls_maps st1 a" using NestedLocker r2 by (metis UnCI locker_maps.simps(4) snd_conv)
  show ?case
  proof (cases r)
    case (Inr l)
    then have "a \<notin> lock_maps l" using Lock_maps r NestedLocker.prems by fastforce
    then show ?thesis
      using r r2 1 2 Inr Unlock_other [of a l api "[]" st2] by (auto simp: case_prod_beta split: sum.splits)
  qed (use r 1 in simp)
next
  case (MetricLocker lk n)
  then show ?case by (simp add: Let_def case_prod_beta)
qed (auto simp: toggle_Lock_def lock_simps case_prod_beta)

lemma Lock_other_locked: "a \<notin> locker_maps lk \<Longrightarrow> Lock api lk key opts st = (r, st') \<Longrightarrow> locked a st' = locked a st"
  using Lock_other [of a lk api key opts st] by (simp add: locked_def)

lemma Unlock_other_locked: "a \<notin> lock_maps l \<Longrightarrow> Unlock api l opts st = (r, st') \<Longrightarrow> locked a st' = locked a st"
  using Unlock_other [of a l api opts st] by (simp add: locked_def)

section \<open>The contract of an exclusive locker\<close>

text \<open>
  What the engine relies on in a locker that protects others: a key that is held cannot be acquired,
  a failed attempt changes nothing, and a lock gives back its own key only.
\<close>

locale exclusive_locker =
  fixes acquire :: "string \<Rightarrow> 's \<Rightarrow> ('err + 'l) \<times> 's"
    and release :: "'l \<Rightarrow> 's \<Rightarrow> 's"
    and held :: "'s \<Rightarrow> string set"
  assumes acquire_iff: "isl (fst (acquire k s)) \<longleftrightarrow> k \<in> held s"
    and acquire_err: "acquire k s = (Inl e, s') \<Longrightarrow> held s' = held s"
    and acquire_ok: "acquire k s = (Inr l, s') \<Longrightarrow> held s' = insert k (held s)"
    and release_own: "acquire k s = (Inr l, s') \<Longrightarrow> held (release l t) = held t - {k}"
begin

lemma acquire_fresh: "acquire k s = (Inr l, s') \<Longrightarrow> k \<notin> held s"
  using acquire_iff [of k s] by simp

lemma acquire_twice: "acquire k s = (Inr l, s') \<Longrightarrow> isl (fst (acquire k s'))"
  using acquire_ok acquire_iff by blast

lemma acquire_release: "acquire k s = (Inr l, s') \<Longrightarrow> held (release l s') = held s"
  using acquire_ok acquire_fresh release_own by (metis Diff_insert_absorb)

lemma release_then_acquire: "acquire k s = (Inr l, s') \<Longrightarrow> \<not> isl (fst (acquire k (release l t)))"
  using release_own acquire_iff by (metis DiffD2 insertI1)

end

lemma toggle_Lock_cases:
  "toggle_Lock a k st =
     (if k \<in> locked a st then (Inl ErrLockedLocally, st)
      else (Inr (ToggleLock a k), st\<lparr>ls_maps := (ls_maps st)(a := gm_put (ls_maps st a) k True)\<rparr>))"
  by (simp add: toggle_Lock_def toggle_def Let_def locked_def)

lemma locked_put: "locked a (st\<lparr>ls_maps := (ls_maps st)(a := gm_put (ls_maps st a) k True)\<rparr>) = insert k (locked a st)"
  by (auto simp: locked_def gm_get_put)

lemma locked_events [simp]: "locked a (st\<lparr>ls_events := es\<rparr>) = locked a st"
  by (simp add: locked_def)

lemma locked_toggle_Unlock: "locked a (snd (toggle_Unlock a k st)) = locked a st - {k}"
  by (auto simp: toggle_Unlock_def toggle_def Let_def locked_def gm_get_delete)

lemma Lock_map_locker:
  "Lock api (MetricLocker (ToggleLockerAdapter a) n) k opts st = (r, st') \<Longrightarrow>
     (if k \<in> locked a st then r = Inl ErrLockedLocally \<and> locked a st' = locked a st
      else r = Inr (ToggleLock a k) \<and> locked a st' = insert k (locked a st))"
  by (auto simp: toggle_Lock_cases Let_def locked_put split: if_splits prod.splits)

interpretation map_locker: exclusive_locker
  "\<lambda>k. Lock api (MetricLocker (ToggleLockerAdapter a) n) k opts"
  "\<lambda>l st. snd (Unlock api l [] st)" "locked a"
  for api a n opts
proof unfold_locales
  fix k s e s' l t
  show "isl (fst (Lock api (MetricLocker (ToggleLockerAdapter a) n) k opts s)) \<longleftrightarrow> k \<in> locked a s"
    by (cases "Lock api (MetricLocker (ToggleLockerAdapter a) n) k opts s")
      (auto simp del: Lock.simps dest!: Lock_map_locker split: if_splits)
  show "Lock api (MetricLocker (ToggleLockerAdapter a) n) k opts s = (Inl e, s') \<Longrightarrow> locked a s' = locked a s"
    by (auto simp del: Lock.simps dest!: Lock_map_locker split: if_splits)
  show "Lock api (MetricLocker (ToggleLockerAdapter a) n) k opts s = (Inr l, s') \<Longrightarrow>
      locked a s' = insert k (locked a s)"
    by (auto simp del: Lock.simps dest!: Lock_map_locker split: if_splits)
  show "Lock api (MetricLocker (ToggleLockerAdapter a) n) k opts s = (Inr l, s') \<Longrightarrow>
      locked a (snd (Unlock api l [] t)) = locked a t - {k}"
    by (auto simp del: Lock.simps dest!: Lock_map_locker simp: locked_toggle_Unlock split: if_splits)
qed

section \<open>Nested lockers, leaf by leaf\<close>

primrec is_nested :: "rule_locker \<Rightarrow> bool" where
  "is_nested (ToggleLockerAdapter a) = False"
| "is_nested (CoolOffLocker a d) = False"
| "is_nested (V3Locker c t) = False"
| "is_nested (NestedLocker own nested) = True"
| "is_nested (MetricLocker lk n) = is_nested lk"

text \<open>Metrics are put around lockers that are not nested ones, as the engine does.\<close>

primrec metrics_on_leaves :: "rule_locker \<Rightarrow> bool" where
  "metrics_on_leaves (ToggleLockerAdapter a) = True"
| "metrics_on_leaves (CoolOffLocker a d) = True"
| "metrics_on_leaves (V3Locker c t) = True"
| "metrics_on_leaves (NestedLocker own nested) = (metrics_on_leaves own \<and> metrics_on_leaves nested)"
| "metrics_on_leaves (MetricLocker lk n) = (\<not> is_nested lk)"

primrec leaf_locks :: "rule_lock \<Rightarrow> rule_lock list" where
  "leaf_locks (ToggleLock a k) = [ToggleLock a k]"
| "leaf_locks CoolOffLock = [CoolOffLock]"
| "leaf_locks (V3Lock m s) = [V3Lock m s]"
| "leaf_locks (NestedLock own nested) = leaf_locks own @ leaf_locks nested"
| "leaf_locks (MetricLock l n) = [MetricLock l n]"

lemma leaf_lockers_leaf: "\<not> is_nested lk \<Longrightarrow> leaf_lockers lk = [lk]"
  by (cases lk) auto

lemma leaf_locks_leaf:
  "\<not> is_nested lk \<Longrightarrow> Lock api lk key opts st = (Inr l, st') \<Longrightarrow> leaf_locks l = [l]"
  by (induction lk arbitrary: st')
    (auto simp: toggle_Lock_def coolOff_Lock_def Let_def lockWithTimeout_def
      split: prod.splits sum.splits option.splits if_splits)

lemma release_all_append: "release_all api (ls @ ms) st = release_all api ms (release_all api ls st)"
  by (induction ls arbitrary: st) auto

lemma release_leaf_locks: "release_all api (rev (leaf_locks l)) st = snd (Unlock api l [] st)"
  by (induction l arbitrary: st) (auto simp: release_all_append case_prod_beta)

lemma acquire_leaf_lockers:
  assumes "metrics_on_leaves lk"
  shows "acquire_all api key opts (leaf_lockers lk @ lks) ls st =
    (case Lock api lk key opts st of
       (Inl err, st1) \<Rightarrow> (Inl err, release_all api ls st1)
     | (Inr l, st1) \<Rightarrow> acquire_all api key opts lks (rev (leaf_locks l) @ ls) st1)"
proof (cases "is_nested lk")
  case False
  then show ?thesis
    using leaf_locks_leaf [OF False, of api key opts st]
    by (simp add: leaf_lockers_leaf [OF False] split: prod.splits sum.splits)
next
  case True
  with assms show ?thesis
  proof (induction lk arbitrary: lks ls st)
    case (NestedLocker own nested)
    have own: "acquire_all api key opts (leaf_lockers own @ lks) ls st =
      (case Lock api own key opts st of
         (Inl err, st1) \<Rightarrow> (Inl err, release_all api ls st1)
       | (Inr l, st1) \<Rightarrow> acquire_all api key opts lks (rev (leaf_locks l) @ ls) st1)" for lks ls st
      using NestedLocker leaf_locks_leaf [of own api key opts st] leaf_lockers_leaf [of own]
      by (cases "is_nested own") (auto split: prod.splits sum.splits)
    have nested: "acquire_all api key opts (leaf_lockers nested @ lks) ls st =
      (case Lock api nested key opts st of
         (Inl err, st1) \<Rightarrow> (Inl err, release_all api ls st1)
       | (Inr l, st1) \<Rightarrow> acquire_all api key opts lks (rev (leaf_locks l) @ ls) st1)" for lks ls st
      using NestedLocker leaf_locks_leaf [of nested api key opts st] leaf_lockers_leaf [of nested]
      by (cases "is_nested nested") (auto split: prod.splits sum.splits)
    show ?case
      by (simp add: own nested release_all_append release_leaf_locks case_prod_beta
          split: prod.splits sum.splits)
  qed auto
qed

section \<open>Mutual exclusion\<close>

primrec thread_locks :: "thread \<Rightarrow> rule_lock list" where
  "thread_locks Idle = []"
| "thread_locks (Acquiring key ls lks) = ls"
| "thread_locks (Releasing ls) = ls"

fun lock_keys :: "nat \<Rightarrow> rule_lock list \<Rightarrow> string list" where
  "lock_keys a [] = []"
| "lock_keys a (ToggleLock b k # ls) = (if b = a then [k] else []) @ lock_keys a ls"
| "lock_keys a (_ # ls) = lock_keys a ls"

definition all_keys :: "nat \<Rightarrow> thread list \<Rightarrow> string multiset" where
  "all_keys a ts = mset (concat (map (\<lambda>t. lock_keys a (thread_locks t)) ts))"

text \<open>A locker whose leaves use the map at \<open>a\<close> only through one map locker with metrics.\<close>

definition guarded_by :: "nat \<Rightarrow> string \<Rightarrow> rule_locker \<Rightarrow> bool" where
  "guarded_by a n lk \<longleftrightarrow> MetricLocker (ToggleLockerAdapter a) n \<in> set (leaf_lockers lk) \<and>
     (\<forall>l \<in> set (leaf_lockers lk). l = MetricLocker (ToggleLockerAdapter a) n \<or> a \<notin> locker_maps l)"

definition clean_lock :: "nat \<Rightarrow> rule_lock \<Rightarrow> bool" where
  "clean_lock a l \<longleftrightarrow> (\<exists>k. l = ToggleLock a k) \<or> a \<notin> lock_maps l"

primrec thread_ok :: "nat \<Rightarrow> string \<Rightarrow> rule_locker \<Rightarrow> thread \<Rightarrow> bool" where
  "thread_ok a n lk Idle = True"
| "thread_ok a n lk (Acquiring key ls lks) =
     (list_all (clean_lock a) ls \<and> set lks \<subseteq> set (leaf_lockers lk) \<and>
      (MetricLocker (ToggleLockerAdapter a) n \<in> set lks \<or> ToggleLock a key \<in> set ls))"
| "thread_ok a n lk (Releasing ls) = list_all (clean_lock a) ls"

definition lock_inv :: "nat \<Rightarrow> string \<Rightarrow> rule_locker \<Rightarrow> thread list \<times> 'e lock_state \<Rightarrow> bool" where
  "lock_inv a n lk s \<longleftrightarrow>
     list_all (thread_ok a n lk) (fst s) \<and> (\<forall>k. count (all_keys a (fst s)) k \<le> 1) \<and>
     set_mset (all_keys a (fst s)) = locked a (snd s)"

lemma lock_keys_Cons:
  "clean_lock a l \<Longrightarrow> lock_keys a (l # ls) = (case l of ToggleLock b k \<Rightarrow> if b = a then k # lock_keys a ls else lock_keys a ls | _ \<Rightarrow> lock_keys a ls)"
  by (cases l) auto

lemma lock_keys_other: "a \<notin> lock_maps l \<Longrightarrow> lock_keys a (l # ls) = lock_keys a ls"
  by (cases l) auto

lemma lock_keys_member: "ToggleLock a k \<in> set ls \<Longrightarrow> k \<in> set (lock_keys a ls)"
  by (induction a ls rule: lock_keys.induct) auto

lemma all_keys_update:
  "i < length ts \<Longrightarrow> all_keys a (ts[i := t]) + mset (lock_keys a (thread_locks (ts ! i))) =
     all_keys a ts + mset (lock_keys a (thread_locks t))"
proof (induction ts arbitrary: i)
  case (Cons x ts)
  then show ?case by (cases i) (auto simp: all_keys_def algebra_simps)
qed simp

lemma all_keys_same:
  "i < length ts \<Longrightarrow> lock_keys a (thread_locks t) = lock_keys a (thread_locks (ts ! i)) \<Longrightarrow>
     all_keys a (ts[i := t]) = all_keys a ts"
  using all_keys_update [of i ts a t] by simp

lemma thread_ok_update:
  "list_all (thread_ok a n lk) ts \<Longrightarrow> thread_ok a n lk t \<Longrightarrow> list_all (thread_ok a n lk) (ts[i := t])"
  by (auto simp: list_all_iff dest!: set_update_subset_insert [THEN subsetD])

text \<open>A step that neither takes nor gives back a key of the map.\<close>

lemma inv_same:
  assumes "lock_inv a n lk (ts, st)" and "i < length ts" and "thread_ok a n lk t"
    and "lock_keys a (thread_locks t) = lock_keys a (thread_locks (ts ! i))" and "locked a st' = locked a st"
  shows "lock_inv a n lk (ts[i := t], st')"
  using assms thread_ok_update [of a n lk ts t i] all_keys_same [OF assms(2,4)] by (simp add: lock_inv_def)

lemma inv_take:
  assumes "lock_inv a n lk (ts, st)" and "i < length ts" and "thread_ok a n lk t"
    and "lock_keys a (thread_locks t) = key # lock_keys a (thread_locks (ts ! i))"
    and "key \<notin> locked a st" and "locked a st' = insert key (locked a st)"
  shows "lock_inv a n lk (ts[i := t], st')"
proof -
  have keys: "all_keys a (ts[i := t]) = add_mset key (all_keys a ts)"
    using all_keys_update [OF assms(2), of a t] assms(4) by simp
  have "key \<notin># all_keys a ts" using assms(1,5) by (simp add: lock_inv_def)
  then have "count (all_keys a ts) key = 0" by (simp add: not_in_iff)
  then show ?thesis
    using assms(1,3,6) thread_ok_update [of a n lk ts t i] by (auto simp: lock_inv_def keys)
qed

lemma inv_give:
  assumes "lock_inv a n lk (ts, st)" and "i < length ts" and "thread_ok a n lk t"
    and "lock_keys a (thread_locks (ts ! i)) = key # lock_keys a (thread_locks t)"
    and "locked a st' = locked a st - {key}"
  shows "lock_inv a n lk (ts[i := t], st')"
proof -
  have keys: "all_keys a ts = add_mset key (all_keys a (ts[i := t]))"
    using all_keys_update [OF assms(2), of a t] assms(4) by simp
  have once: "count (all_keys a ts) k \<le> 1" for k using assms(1) by (simp add: lock_inv_def)
  have "count (all_keys a (ts[i := t])) key = 0" using once [of key] by (simp add: keys)
  then have "key \<notin># all_keys a (ts[i := t])" by (simp add: not_in_iff)
  moreover have "set_mset (all_keys a ts) = locked a st" using assms(1) by (simp add: lock_inv_def)
  ultimately have "set_mset (all_keys a (ts[i := t])) = locked a st'"
    using assms(5) by (auto simp: keys)
  moreover have "count (all_keys a (ts[i := t])) k \<le> 1" for k
    using once [of k] by (simp add: keys split: if_splits)
  ultimately show ?thesis
    using assms(1,3) thread_ok_update [of a n lk ts t i] by (simp add: lock_inv_def)
qed

lemma thread_ok_nth: "lock_inv a n lk (ts, st) \<Longrightarrow> i < length ts \<Longrightarrow> thread_ok a n lk (ts ! i)"
  by (simp add: lock_inv_def list_all_length)

lemma lock_inv_step:
  assumes "lock_step api lk s s'" and "guarded_by a n lk" and "lock_inv a n lk s"
  shows "lock_inv a n lk s'"
  using assms
proof (induction rule: lock_step.induct)
  case (step_start i ts st key)
  then show ?case by (intro inv_same [of a n lk ts st]) (auto simp: guarded_by_def)
next
  case (step_acquire i ts key ls l lks opts st k st')
  note ok = thread_ok_nth [OF step_acquire.prems(2) step_acquire.hyps(1)]
  show ?case
  proof (cases "l = MetricLocker (ToggleLockerAdapter a) n")
    case True
    note lock = step_acquire.hyps(3) [unfolded True]
    have "k = ToggleLock a key" using Lock_map_locker [OF lock] by (auto split: if_splits)
    then show ?thesis
      using step_acquire ok map_locker.acquire_fresh [OF lock] map_locker.acquire_ok [OF lock]
      by (intro inv_take [of a n lk ts st i _ key]) (auto simp: clean_lock_def)
  next
    case False
    then have "a \<notin> locker_maps l"
      using step_acquire ok by (auto simp: guarded_by_def)
    then have "a \<notin> lock_maps k" "locked a st' = locked a st"
      using Lock_maps [OF step_acquire.hyps(3)] Lock_other_locked [OF _ step_acquire.hyps(3)] by auto
    then show ?thesis
      using step_acquire ok False
      by (intro inv_same [of a n lk ts st]) (auto simp: clean_lock_def lock_keys_other)
  qed
next
  case (step_fail i ts key ls l lks opts st err st')
  note ok = thread_ok_nth [OF step_fail.prems(2) step_fail.hyps(1)]
  have "locked a st' = locked a st"
  proof (cases "l = MetricLocker (ToggleLockerAdapter a) n")
    case True
    show ?thesis by (rule map_locker.acquire_err [OF step_fail.hyps(3) [unfolded True]])
  next
    case False
    then have "a \<notin> locker_maps l" using step_fail ok by (auto simp: guarded_by_def)
    then show ?thesis using Lock_other_locked step_fail.hyps(3) by blast
  qed
  then show ?case
    using step_fail ok by (intro inv_same [of a n lk ts st]) auto
next
  case (step_unlock i ts key ls st)
  then show ?case
    using thread_ok_nth [OF step_unlock.prems(2) step_unlock.hyps(1)]
    by (intro inv_same [of a n lk ts st]) auto
next
  case (step_release i ts l ls st err st')
  note ok = thread_ok_nth [OF step_release.prems(2) step_release.hyps(1)]
  show ?case
  proof (cases "\<exists>k. l = ToggleLock a k")
    case True
    then obtain k where l: "l = ToggleLock a k" by blast
    then have "locked a st' = locked a st - {k}"
      using step_release.hyps(3) locked_toggle_Unlock [of a k st] by simp
    then show ?thesis
      using step_release ok l by (intro inv_give [of a n lk ts st i _ k]) auto
  next
    case False
    then have "a \<notin> lock_maps l" using ok step_release.hyps(2) by (simp add: clean_lock_def)
    then show ?thesis
      using step_release ok Unlock_other_locked [OF _ step_release.hyps(3), of a]
      by (intro inv_same [of a n lk ts st]) (auto simp: lock_keys_other)
  qed
next
  case (step_done i ts st)
  then show ?case by (intro inv_same [of a n lk ts st]) auto
next
  case (step_environment ts st now e)
  then show ?case by (simp add: lock_inv_def locked_def)
qed

lemma lock_inv_reachable:
  assumes "(lock_step api lk)\<^sup>*\<^sup>* (replicate m Idle, st0) s" and "guarded_by a n lk" and "locked a st0 = {}"
  shows "lock_inv a n lk s"
  using assms(1)
proof (induction rule: rtranclp_induct)
  case base
  have "all_keys a (replicate m Idle) = {#}" by (induction m) (auto simp: all_keys_def)
  then show ?case using assms(3) by (simp add: lock_inv_def list_all_iff)
next
  case (step s s')
  then show ?case using lock_inv_step assms(2) by blast
qed

lemma lock_inv_exclusive:
  assumes "lock_inv a n lk (ts, st)" and "i < length ts" "j < length ts" "i \<noteq> j"
    and "lock_held (ts ! i) = Some k" "lock_held (ts ! j) = Some k"
  shows False
proof -
  have member: "k \<in> set (lock_keys a (thread_locks (ts ! x)))" if "x < length ts" "lock_held (ts ! x) = Some k" for x
    using thread_ok_nth [OF assms(1) that(1)] that(2) lock_keys_member
    by (cases "ts ! x") (auto split: if_splits)
  let ?f = "\<lambda>t. mset (lock_keys a (thread_locks t))"
  have "all_keys a ts = all_keys a (ts[i := Idle]) + ?f (ts ! i)"
    using all_keys_update [OF assms(2), of a Idle] by simp
  also have "all_keys a (ts[i := Idle]) = all_keys a (ts[i := Idle, j := Idle]) + ?f (ts ! j)"
    using all_keys_update [of j "ts[i := Idle]" a Idle] assms(3,4) by simp
  finally have "count (all_keys a ts) k \<ge> count (?f (ts ! j)) k + count (?f (ts ! i)) k" by simp
  moreover have "count (?f (ts ! i)) k > 0" "count (?f (ts ! j)) k > 0"
    using member assms by simp_all
  moreover have "count (all_keys a ts) k \<le> 1" using assms(1) by (simp add: lock_inv_def)
  ultimately show False by linarith
qed

section \<open>Cool-off, retries, metrics\<close>

lemma get_delete_all: "gm_get (fold (\<lambda>k m. gm_delete m k) ks m) k = (if k \<in> set ks then None else gm_get m k)"
  by (induction ks arbitrary: m) (auto simp: gm_get_delete)

lemma wf_delete_all: "gm_wf m \<Longrightarrow> gm_wf (fold (\<lambda>k m. gm_delete m k) ks m)"
  by (induction ks arbitrary: m) auto

lemma coolOff_expired:
  assumes "gm_wf m" and "gm_get m k = Some v"
  shows "k \<in> set (map fst (filter (\<lambda>(k, v). v < now) m)) \<longleftrightarrow> v < now"
proof -
  have "(k, w) \<in> set m \<longleftrightarrow> w = v" for w
    using assms(2) gm_get_wf [OF assms(1), of k w] by auto
  moreover have "k \<in> set (map fst (filter (\<lambda>(k, v). v < now) m)) \<longleftrightarrow> (\<exists>w. (k, w) \<in> set m \<and> w < now)"
    by (auto simp: image_iff Bex_def)
  ultimately show ?thesis by simp
qed

lemma coolOff_Lock_eq:
  "coolOff_Lock a d key st =
     (let kept = fold (\<lambda>k m. gm_delete m k) (map fst (filter (\<lambda>(k, v). v < ls_now st) (ls_cooloff st a))) (ls_cooloff st a)
      in (if gm_get kept key \<noteq> None then Inl (CoolOffExpires d) else Inr CoolOffLock,
          st\<lparr>ls_cooloff := (ls_cooloff st)(a := gm_put kept key (ls_now st + d))\<rparr>))"
  by (auto simp: coolOff_Lock_def Let_def split: option.splits)

lemma coolOff_Lock_after:
  assumes "coolOff_Lock a d key st = (r, st1)" and "gm_wf (ls_cooloff st a)"
  shows "gm_wf (ls_cooloff st1 a)" and "gm_get (ls_cooloff st1 a) key = Some (ls_now st + d)"
  using assms by (auto simp: coolOff_Lock_eq Let_def gm_get_put wf_delete_all)

lemma coolOff_Lock_isl:
  assumes "gm_wf (ls_cooloff st a)" and "gm_get (ls_cooloff st a) key = Some v"
  shows "isl (fst (coolOff_Lock a d key st)) \<longleftrightarrow> ls_now st \<le> v"
  using coolOff_expired [OF assms, of "ls_now st"] assms(2)
  by (auto simp: coolOff_Lock_eq Let_def get_delete_all)

abbreviation attempts :: "('e \<Rightarrow> string option \<times> 'e) \<Rightarrow> nat \<Rightarrow> 'e \<Rightarrow> 'e" where
  "attempts u i \<equiv> ((\<lambda>e. snd (u e)) ^^ i)"

lemma unlock_loop_spec:
  "0 < m \<Longrightarrow> \<exists>n. 0 < n \<and> n \<le> m \<and> (\<forall>i < n - 1. fst (u (attempts u i e)) \<noteq> None) \<and>
     (n < m \<longrightarrow> fst (u (attempts u (n - 1) e)) = None) \<and>
     unlock_loop m u err e = (fst (u (attempts u (n - 1) e)), attempts u n e)"
proof (induction m arbitrary: e err)
  case (Suc m)
  obtain r e' where u: "u e = (r, e')" by fastforce
  show ?case
  proof (cases "r = None \<or> m = 0")
    case True
    then show ?thesis using u by (intro exI [of _ 1]) (auto split: option.split)
  next
    case False
    then obtain msg where r: "r = Some msg" by auto
    obtain n where n: "0 < n" "n \<le> m"
      "\<forall>i < n - 1. fst (u (attempts u i e')) \<noteq> None"
      "n < m \<longrightarrow> fst (u (attempts u (n - 1) e')) = None"
      "unlock_loop m u (Some msg) e' = (fst (u (attempts u (n - 1) e')), attempts u n e')"
      using Suc.IH [of e' "Some msg"] False by blast
    have shift: "attempts u (Suc i) e = attempts u i e'" for i
      using u by (simp add: funpow_Suc_right del: funpow.simps)
    have "attempts u n e = attempts u (n - 1) e'" using shift [of "n - 1"] n(1) by simp
    moreover have "fst (u (attempts u i e)) \<noteq> None" if "i < n" for i
    proof (cases i)
      case (Suc j)
      then show ?thesis using n(3) that shift [of j] by simp
    qed (use u r in simp)
    ultimately show ?thesis
      using u r n shift [of n] by (intro exI [of _ "Suc n"]) auto
  qed
qed simp

primrec unmetered :: "rule_lock \<Rightarrow> bool" where
  "unmetered (ToggleLock a k) = True"
| "unmetered CoolOffLock = True"
| "unmetered (V3Lock m s) = True"
| "unmetered (NestedLock own nested) = (unmetered own \<and> unmetered nested)"
| "unmetered (MetricLock l n) = False"

lemma Lock_unmetered: "Lock api lk key opts st = (Inr l, st') \<Longrightarrow> unmetered l"
proof (induction lk arbitrary: st l st')
  case (NestedLocker own nested)
  then show ?case by (fastforce split: prod.splits sum.splits)
next
  case (MetricLocker lk n)
  then show ?case by (auto simp: Let_def split: prod.splits)
qed (auto simp: toggle_Lock_def coolOff_Lock_def Let_def lockWithTimeout_def
      split: prod.splits sum.splits option.splits if_splits)

lemma v3Lock_Unlock_events: "ls_events (snd (v3Lock_Unlock api m s st)) = ls_events st"
  by (auto simp: v3Lock_Unlock_def Let_def split: option.splits prod.splits)

lemma Unlock_unmetered: "unmetered l \<Longrightarrow> ls_events (snd (Unlock api l opts st)) = ls_events st"
  by (induction l arbitrary: opts st)
    (auto simp: toggle_Unlock_def toggle_def Let_def v3Lock_Unlock_events case_prod_beta)

section \<open>Constructors\<close>

text \<open>
  The constructors of the package: a map locker and a cool-off locker start with an empty map at a new
  address; a locker with its own sessions closes them; the metric locker takes the two observers, which
  are the metrics package's.
\<close>

definition NewMapLocker :: "nat \<Rightarrow> 'e lock_state \<Rightarrow> rule_locker \<times> 'e lock_state" where
  "NewMapLocker a st = (ToggleLockerAdapter a, st\<lparr>ls_maps := (ls_maps st)(a := [])\<rparr>)"

definition NewCoolOffLocker :: "int \<Rightarrow> nat \<Rightarrow> 'e lock_state \<Rightarrow> rule_locker \<times> 'e lock_state" where
  "NewCoolOffLocker expiration a st = (CoolOffLocker a expiration, st\<lparr>ls_cooloff := (ls_cooloff st)(a := [])\<rparr>)"

definition NewSessionLocker :: "bool \<Rightarrow> bool \<Rightarrow> rule_locker" where
  "NewSessionLocker closeSession useTryLock = V3Locker closeSession useTryLock"

definition NewV3Locker :: "bool \<Rightarrow> rule_locker" where
  "NewV3Locker useTryLock = NewSessionLocker True useTryLock"

definition NewNestedLocker :: "rule_locker \<Rightarrow> rule_locker \<Rightarrow> rule_locker" where
  "NewNestedLocker own nested = NestedLocker own nested"

definition WithMetrics :: "rule_locker \<Rightarrow> string \<Rightarrow> rule_locker" where
  "WithMetrics ruleLocker name = MetricLocker ruleLocker name"

text \<open>
  The methods of the metric locker, over the calls of what it wraps. \<open>Lock\<close> has a value receiver and
  returns the lock that it put into its copy, which is the wrapped one.
\<close>

definition metricLocker_Lock ::
  "(lock_option list \<Rightarrow> 'e lock_state \<Rightarrow> (lock_error + rule_lock) \<times> 'e lock_state) \<Rightarrow> string \<Rightarrow> lock_option list \<Rightarrow>
   'e lock_state \<Rightarrow> (lock_error + rule_lock) \<times> 'e lock_state" where
  "metricLocker_Lock lock lockerName options st =
     (let opts = buildOptions options
      in case lock options st of (r, st1) \<Rightarrow>
           (r, st1\<lparr>ls_events := ls_events st1 @ [ObserveLock lockerName (lo_method opts) (lo_pattern opts) (\<not> isl r)]\<rparr>))"

definition metricLocker_Unlock ::
  "(lock_option list \<Rightarrow> 'e lock_state \<Rightarrow> lock_error option \<times> 'e lock_state) \<Rightarrow> string \<Rightarrow> lock_option list \<Rightarrow>
   'e lock_state \<Rightarrow> lock_error option \<times> 'e lock_state" where
  "metricLocker_Unlock unlock lockerName options st =
     (case unlock options st of (err, st1) \<Rightarrow>
        if err \<noteq> None then
          (let opts = buildOptions options
           in (err, st1\<lparr>ls_events := ls_events st1 @ [ObserveUnlockError lockerName (lo_method opts) (lo_pattern opts)]\<rparr>))
        else (err, st1))"

lemma metricLocker_methods:
  "Lock api (WithMetrics lk name) key opts st = metricLocker_Lock (Lock api lk key) name opts st"
  "Unlock api (MetricLock l name) opts st = metricLocker_Unlock (Unlock api l) name opts st"
  by (auto simp: WithMetrics_def metricLocker_Lock_def metricLocker_Unlock_def Let_def split: prod.split)

text \<open>
  \<open>newV3Engine\<close> as it composes the constructors; the engine's locker is the result, and it starts with
  no key locked.
\<close>

definition build_locker :: "bool \<Rightarrow> bool \<Rightarrow> int \<Rightarrow> nat \<Rightarrow> nat \<Rightarrow> 'e lock_state \<Rightarrow> rule_locker \<times> 'e lock_state" where
  "build_locker dontUseSharedLockSession useTryLock lockCoolOff mapAddr coolOffAddr st =
     (let baseEtcdLocker =
            (if dontUseSharedLockSession then NewV3Locker useTryLock else NewSessionLocker False useTryLock);
          metricsEtcdLocker = WithMetrics baseEtcdLocker ''etcd'';
          (baseLocker, st1) =
            (if dontUseSharedLockSession then (metricsEtcdLocker, st)
             else (case NewMapLocker mapAddr st of (baseMapLocker, st') \<Rightarrow>
                     (NewNestedLocker (WithMetrics baseMapLocker ''map'') metricsEtcdLocker, st')))
      in if lockCoolOff = 0 then (baseLocker, st1)
         else (case NewCoolOffLocker lockCoolOff coolOffAddr st1 of (coolOffLocker, st2) \<Rightarrow>
                 (NewNestedLocker (WithMetrics coolOffLocker ''cooloff'') baseLocker, st2)))"

lemma build_locker_engine:
  "fst (build_locker dont useTry coolOff a b st) = engine_locker dont useTry coolOff a b"
  "x \<in> locker_maps (engine_locker dont useTry coolOff a b) \<Longrightarrow>
     locked x (snd (build_locker dont useTry coolOff a b st)) = {}"
  by (auto simp: build_locker_def engine_locker_def NewV3Locker_def NewSessionLocker_def NewMapLocker_def
      NewCoolOffLocker_def NewNestedLocker_def WithMetrics_def Let_def locked_def gm_get_def split: if_splits)

section \<open>Properties\<close>

text \<open>
  C2. Mutual exclusion of the locker that the engine uses by default (a map locker around the etcd
  locker with a shared session, behind a cool-off locker if one is configured): in every
  interleaving of goroutines that lock and unlock, two goroutines never hold the lock of the same
  key, however the etcd client and the clock behave. (Locks of one etcd session are reentrant, so
  etcd alone would not give this.)
\<close>

theorem engine_locker_mutual_exclusion:
  assumes "(lock_step api (engine_locker False useTryLock coolOff a c))\<^sup>*\<^sup>* (replicate m Idle, st0) (ts, st)"
    and "ls_maps st0 a = []"
    and "i < length ts" "j < length ts" "lock_held (ts ! i) = Some k" "lock_held (ts ! j) = Some k"
  shows "i = j"
proof -
  have "guarded_by a ''map'' (engine_locker False useTryLock coolOff a c)"
    by (simp add: guarded_by_def engine_locker_def Let_def)
  then have "lock_inv a ''map'' (engine_locker False useTryLock coolOff a c) (ts, st)"
    using lock_inv_reachable [OF assms(1)] assms(2) by (simp add: locked_def)
  then show ?thesis using lock_inv_exclusive assms(3-6) by blast
qed

theorem engine_locker_mutual_exclusion_witness:
  "\<exists>api ts st. (lock_step api (engine_locker False True 0 3 4))\<^sup>*\<^sup>*
       (replicate 2 Idle, \<lparr>ls_maps = \<lambda>_. [], ls_cooloff = \<lambda>_. [], ls_now = 0, ls_etcd = (), ls_events = []\<rparr>) (ts, st) \<and>
     lock_held (ts ! 0) = Some ''/k'' \<and> lock_held (ts ! 1) \<noteq> Some ''/k''"
proof -
  let ?api = "\<lparr>newSession = \<lambda>e. (Inr 0, e), mutex_Lock = \<lambda>s k e. (None, e), mutex_TryLock = \<lambda>s k e. (None, e),
    mutex_Unlock = \<lambda>s k e. (None, e), session_Close = \<lambda>s e. (None, e)\<rparr> :: unit etcd_api"
  let ?lk = "engine_locker False True 0 3 4"
  let ?map = "MetricLocker (ToggleLockerAdapter 3) ''map''" and ?etcd = "MetricLocker (V3Locker False True) ''etcd''"
  let ?st = "\<lparr>ls_maps = \<lambda>_. [], ls_cooloff = \<lambda>_. [], ls_now = 0, ls_etcd = (), ls_events = []\<rparr> :: unit lock_state"
  let ?st1 = "snd (Lock ?api ?map ''/k'' [] ?st)"
  let ?st2 = "snd (Lock ?api ?etcd ''/k'' [] ?st1)"
  have leaves: "leaf_lockers ?lk = [?map, ?etcd]" by (simp add: engine_locker_def Let_def)
  have l1: "Lock ?api ?map ''/k'' [] ?st = (Inr (ToggleLock 3 ''/k''), ?st1)"
    by (simp add: toggle_Lock_cases locked_def Let_def)
  have l2: "Lock ?api ?etcd ''/k'' [] ?st1 = (Inr (V3Lock (Some (0, ''/k'')) None), ?st2)"
    by (simp add: lockWithTimeout_def Let_def)
  have 1: "lock_step ?api ?lk ([Idle, Idle], ?st) ([Acquiring ''/k'' [] [?map, ?etcd], Idle], ?st)"
    using step_start [of 0 "[Idle, Idle]" ?api ?lk ?st "''/k''"] by (simp add: leaves)
  have 2: "lock_step ?api ?lk ([Acquiring ''/k'' [] [?map, ?etcd], Idle], ?st)
      ([Acquiring ''/k'' [ToggleLock 3 ''/k''] [?etcd], Idle], ?st1)"
    using step_acquire [OF _ _ l1, of 0 "[Acquiring ''/k'' [] [?map, ?etcd], Idle]" "[]" "[?etcd]" ?lk] by simp
  have 3: "lock_step ?api ?lk ([Acquiring ''/k'' [ToggleLock 3 ''/k''] [?etcd], Idle], ?st1)
      ([Acquiring ''/k'' [V3Lock (Some (0, ''/k'')) None, ToggleLock 3 ''/k''] [], Idle], ?st2)"
    using step_acquire [OF _ _ l2, of 0 "[Acquiring ''/k'' [ToggleLock 3 ''/k''] [?etcd], Idle]"
        "[ToggleLock 3 ''/k'']" "[]" ?lk] by simp
  let ?ts = "[Acquiring ''/k'' [V3Lock (Some (0, ''/k'')) None, ToggleLock 3 ''/k''] [], Idle]"
  have reach: "(lock_step ?api ?lk)\<^sup>*\<^sup>* (replicate 2 Idle, ?st) (?ts, ?st2)"
    using 1 2 3 by (simp add: numeral_2_eq_2 converse_rtranclp_into_rtranclp)
  have "0 = (1 :: nat)" if "lock_held (?ts ! 1) = Some ''/k''"
    by (rule engine_locker_mutual_exclusion [OF reach]) (use that in auto)
  then show ?thesis using reach by force
qed

text \<open>
  C26. No lock is lost: in every interleaving, whatever attempts failed on the way, the map locker of
  the engine is empty again as soon as no goroutine is between locking and unlocking.
\<close>

theorem engine_locker_no_leak:
  assumes "(lock_step api (engine_locker False useTryLock coolOff a c))\<^sup>*\<^sup>* (replicate m Idle, st0) (ts, st)"
    and "ls_maps st0 a = []" and "\<forall>t \<in> set ts. t = Idle"
  shows "toggle a k True st = (True, st\<lparr>ls_maps := (ls_maps st)(a := gm_put (ls_maps st a) k True)\<rparr>)"
proof -
  have "guarded_by a ''map'' (engine_locker False useTryLock coolOff a c)"
    by (simp add: guarded_by_def engine_locker_def Let_def)
  then have "lock_inv a ''map'' (engine_locker False useTryLock coolOff a c) (ts, st)"
    using lock_inv_reachable [OF assms(1)] assms(2) by (simp add: locked_def)
  moreover have "all_keys a ts = {#}" using assms(3) by (auto simp: all_keys_def)
  ultimately have "k \<notin> locked a st" by (simp add: lock_inv_def)
  then show ?thesis by (simp add: toggle_def Let_def locked_def)
qed

theorem engine_locker_no_leak_witness:
  "\<exists>api ts st1 st2. (lock_step api (engine_locker False True 0 3 4))\<^sup>*\<^sup>*
       (replicate 2 Idle, \<lparr>ls_maps = \<lambda>_. [], ls_cooloff = \<lambda>_. [], ls_now = 0, ls_etcd = (), ls_events = []\<rparr>) (ts, st1) \<and>
     lock_held (ts ! 0) = Some ''/k'' \<and> ts ! 1 = Releasing [] \<and> ls_maps st1 3 = [(''/k'', True)] \<and>
     (lock_step api (engine_locker False True 0 3 4))\<^sup>*\<^sup>* (ts, st1) (replicate 2 Idle, st2) \<and> fst (toggle 3 ''/k'' True st2)"
proof -
  let ?api = "\<lparr>newSession = \<lambda>e. (Inr 0, e), mutex_Lock = \<lambda>s k e. (None, e), mutex_TryLock = \<lambda>s k e. (None, e),
    mutex_Unlock = \<lambda>s k e. (None, e), session_Close = \<lambda>s e. (None, e)\<rparr> :: unit etcd_api"
  let ?lk = "engine_locker False True 0 3 4" and ?R = "lock_step ?api (engine_locker False True 0 3 4)"
  let ?map = "MetricLocker (ToggleLockerAdapter 3) ''map''" and ?etcd = "MetricLocker (V3Locker False True) ''etcd''"
  let ?tl = "ToggleLock 3 ''/k''" and ?vl = "V3Lock (Some (0, ''/k'')) None"
  define st where "st = (\<lparr>ls_maps = \<lambda>_. [], ls_cooloff = \<lambda>_. [], ls_now = 0, ls_etcd = (), ls_events = []\<rparr> :: unit lock_state)"
  define sa where "sa = snd (Lock ?api ?map ''/k'' [] st)"
  define sb where "sb = snd (Lock ?api ?etcd ''/k'' [] sa)"
  define sc where "sc = snd (Lock ?api ?map ''/k'' [] sb)"
  define sd where "sd = snd (Unlock ?api ?vl [] sc)"
  define se where "se = snd (Unlock ?api ?tl [] sd)"
  have leaves: "leaf_lockers ?lk = [?map, ?etcd]" by (simp add: engine_locker_def Let_def)
  have la: "Lock ?api ?map ''/k'' [] st = (Inr ?tl, sa)" and lb: "Lock ?api ?etcd ''/k'' [] sa = (Inr ?vl, sb)"
    by (simp_all add: sa_def sb_def st_def toggle_Lock_cases locked_def lockWithTimeout_def Let_def)
  have maps: "ls_maps sb 3 = [(''/k'', True)]"
    by (simp add: sb_def sa_def st_def toggle_Lock_def toggle_def lockWithTimeout_def gm_get_def gm_put_def Let_def)
  then have lc: "Lock ?api ?map ''/k'' [] sb = (Inl ErrLockedLocally, sc)" "ls_maps sc 3 = [(''/k'', True)]"
    by (simp_all add: sc_def toggle_Lock_def toggle_def gm_get_def Let_def)
  have ud: "Unlock ?api ?vl [] sc = (fst (Unlock ?api ?vl [] sc), sd)" and ue: "Unlock ?api ?tl [] sd = (fst (Unlock ?api ?tl [] sd), se)"
    by (simp_all add: sd_def se_def)
  have step: "?R (ts, s) (ts[i := t], s') \<Longrightarrow> ?R\<^sup>*\<^sup>* (ts[i := t], s') x \<Longrightarrow> ?R\<^sup>*\<^sup>* (ts, s) x" for ts i t s s' x
    by (rule converse_rtranclp_into_rtranclp)
  let ?got = "Acquiring ''/k'' [?vl, ?tl] []"
  have "?R\<^sup>*\<^sup>* ([Idle, Idle], st) ([?got, Releasing []], sc)"
  proof (rule step [OF step_start [of 0, where key = "''/k''"]]; (unfold leaves)?)
    show "?R\<^sup>*\<^sup>* ([Idle, Idle][0 := Acquiring ''/k'' [] [?map, ?etcd]], st) ([?got, Releasing []], sc)"
      using step [OF step_acquire [OF _ _ la, of 0 "[Acquiring ''/k'' [] [?map, ?etcd], Idle]" "[]" "[?etcd]"]]
        step [OF step_acquire [OF _ _ lb, of 0 "[Acquiring ''/k'' [?tl] [?etcd], Idle]" "[?tl]" "[]"]]
        step [OF step_start [of 1 "[?got, Idle]", where key = "''/k''" and st = sb], unfolded leaves]
        step [OF step_fail [OF _ _ lc(1), of 1 "[?got, Acquiring ''/k'' [] [?map, ?etcd]]" "[]" "[?etcd]"]]
      by simp
  qed simp_all
  moreover have rest: "?R\<^sup>*\<^sup>* ([?got, Releasing []], sc) ([Idle, Idle], se)"
    using step [OF step_done [of 1 "[?got, Releasing []]", where st = sc]]
      step [OF step_unlock [of 0 "[?got, Idle]" "''/k''" "[?vl, ?tl]", where st = sc]]
      step [OF step_release [OF _ _ ud, of 0 "[Releasing [?vl, ?tl], Idle]" "[?tl]"]]
      step [OF step_release [OF _ _ ue, of 0 "[Releasing [?tl], Idle]" "[]"]]
      step [OF step_done [of 0 "[Releasing [], Idle]", where st = se]]
    by simp
  ultimately have all: "?R\<^sup>*\<^sup>* (replicate 2 Idle, st) ([Idle, Idle], se)" by (simp add: numeral_2_eq_2)
  have "toggle 3 ''/k'' True se = (True, se\<lparr>ls_maps := (ls_maps se)(3 := gm_put (ls_maps se 3) ''/k'' True)\<rparr>)"
    by (rule engine_locker_no_leak [OF all]) (simp_all add: st_def)
  then show ?thesis
    using \<open>?R\<^sup>*\<^sup>* ([Idle, Idle], st) ([?got, Releasing []], sc)\<close> rest lc(2)
    unfolding st_def by (intro exI [of _ ?api] exI [of _ "[?got, Releasing []]"] exI [of _ sc] exI [of _ se])
      (simp add: numeral_2_eq_2)
qed

text \<open>
  A nested locker works leaf by leaf: calling \<open>Lock\<close> is the same as taking the locks of its
  leaf lockers in order and giving rest what was taken when one of them fails, and \<open>Unlock\<close>
  gives them rest in the opposite order. So the interleavings above are those of the code's calls.
\<close>

theorem nested_locker_leafwise:
  assumes "metrics_on_leaves lk"
  shows "acquire_all api key opts (leaf_lockers lk) [] st =
      (case Lock api lk key opts st of
         (Inl err, st1) \<Rightarrow> (Inl err, st1)
       | (Inr l, st1) \<Rightarrow> (Inr (rev (leaf_locks l)), st1)) \<and>
    release_all api (rev (leaf_locks l)) st' = snd (Unlock api l [] st')"
  using acquire_leaf_lockers [OF assms, of api key opts "[]" "[]" st]
  by (simp add: release_leaf_locks split: prod.splits sum.splits)

theorem nested_locker_leafwise_witness:
  "\<forall>(api :: unit etcd_api) st. acquire_all api ''/k'' [] (leaf_lockers (engine_locker False True 7 1 2)) [] st =
      (case Lock api (engine_locker False True 7 1 2) ''/k'' [] st of
         (Inl err, st1) \<Rightarrow> (Inl err, st1)
       | (Inr l, st1) \<Rightarrow> (Inr (rev (leaf_locks l)), st1))"
proof (intro allI)
  fix api :: "unit etcd_api" and st
  have "metrics_on_leaves (engine_locker False True 7 1 2)" by (simp add: engine_locker_def Let_def)
  then show "acquire_all api ''/k'' [] (leaf_lockers (engine_locker False True 7 1 2)) [] st =
      (case Lock api (engine_locker False True 7 1 2) ''/k'' [] st of
         (Inl err, st1) \<Rightarrow> (Inl err, st1)
       | (Inr l, st1) \<Rightarrow> (Inr (rev (leaf_locks l)), st1))"
    by (rule nested_locker_leafwise [THEN conjunct1])
qed

text \<open>
  C33. After an attempt to take a cool-off lock, successful or not, attempts for the same key fail
  until the cool-off period, counted from that attempt, is over, and the next one after it succeeds.
\<close>

theorem coolOff_Lock_window:
  assumes "gm_wf (ls_cooloff st a)" and "Lock api (CoolOffLocker a d) key opts st = (r, st1)"
    and "ls_cooloff st2 a = ls_cooloff st1 a"
  shows "isl (fst (Lock api (CoolOffLocker a d) key opts st2)) \<longleftrightarrow> ls_now st2 \<le> ls_now st + d"
proof -
  have c: "coolOff_Lock a d key st = (r, st1)" using assms(2) by simp
  show ?thesis
    using coolOff_Lock_isl [of st2 a key "ls_now st + d" d] coolOff_Lock_after [OF c assms(1)] assms(3) by simp
qed

theorem coolOff_Lock_window_witness:
  "let st = (\<lambda>n. \<lparr>ls_maps = \<lambda>_. [], ls_cooloff = (\<lambda>_. [])(0 := [(''/k'', 100)]), ls_now = n, ls_etcd = (), ls_events = []\<rparr>);
       st1 = snd (Lock undefined (CoolOffLocker 0 30) ''/k'' [] (st 90))
   in isl (fst (Lock undefined (CoolOffLocker 0 30) ''/k'' [] (st 90))) \<and>
      isl (fst (Lock undefined (CoolOffLocker 0 30) ''/k'' [] (st1\<lparr>ls_now := 120\<rparr>))) \<and>
      \<not> isl (fst (Lock undefined (CoolOffLocker 0 30) ''/k'' [] (st1\<lparr>ls_now := 121\<rparr>)))"
proof -
  let ?st = "\<lparr>ls_maps = \<lambda>_. [], ls_cooloff = (\<lambda>_. [])(0 := [(''/k'', 100)]), ls_now = 90, ls_etcd = (), ls_events = []\<rparr>"
  let ?r = "Lock undefined (CoolOffLocker 0 30) ''/k'' [] ?st"
  have wf: "gm_wf (ls_cooloff ?st 0)" by (simp add: gm_wf_def)
  have r: "?r = (fst ?r, snd ?r)" by simp
  have first: "isl (fst ?r)" by (simp add: coolOff_Lock_def Let_def gm_get_def)
  show ?thesis
    using coolOff_Lock_window [OF wf r, of "(snd ?r)\<lparr>ls_now := 120\<rparr>"]
      coolOff_Lock_window [OF wf r, of "(snd ?r)\<lparr>ls_now := 121\<rparr>"] first
    unfolding Let_def by simp
qed

text \<open>
  Unlocking an etcd lock calls the mutex at least once and at most five times, stops at the first
  success, and returns an error of the mutex only if all five attempts failed. The session, if the
  lock owns one, is closed in either case, and its error is reported only if unlocking succeeded and
  the lease was still there.
\<close>

theorem v3Lock_Unlock_retries:
  "\<exists>n. let u = mutex_Unlock api s key; e = ls_etcd st; err = fst (u (attempts u (n - 1) e)) in
     0 < n \<and> n \<le> 5 \<and> (\<forall>i < n - 1. fst (u (attempts u i e)) \<noteq> None) \<and> (n < 5 \<longrightarrow> err = None) \<and>
     Unlock api (V3Lock (Some (s, key)) None) opts st =
       (map_option UnlockError err, st\<lparr>ls_etcd := attempts u n e\<rparr>) \<and>
     Unlock api (V3Lock (Some (s, key)) (Some s')) opts st =
       (case (err, fst (session_Close api s' (attempts u n e))) of
          (Some msg, _) \<Rightarrow> Some (UnlockError msg)
        | (None, None) \<Rightarrow> None
        | (None, Some msg) \<Rightarrow> if strings_Contains msg ''lease not found'' then None else Some (CloseError msg),
        st\<lparr>ls_etcd := snd (session_Close api s' (attempts u n e))\<rparr>)"
proof -
  let ?u = "mutex_Unlock api s key"
  obtain n where n: "0 < n" "n \<le> unlockMaxRetries" "\<forall>i < n - 1. fst (?u (attempts ?u i (ls_etcd st))) \<noteq> None"
    "n < unlockMaxRetries \<longrightarrow> fst (?u (attempts ?u (n - 1) (ls_etcd st))) = None"
    "unlock_loop unlockMaxRetries ?u None (ls_etcd st) =
       (fst (?u (attempts ?u (n - 1) (ls_etcd st))), attempts ?u n (ls_etcd st))"
    using unlock_loop_spec [of unlockMaxRetries ?u "ls_etcd st" None] by (auto simp: unlockMaxRetries_def)
  obtain serr e2 where c: "session_Close api s' (attempts ?u n (ls_etcd st)) = (serr, e2)" by fastforce
  show ?thesis
    by (rule exI [of _ n])
      (use n in \<open>auto simp: Let_def v3Lock_Unlock_def c unlockMaxRetries_def split: option.splits\<close>)
qed

theorem v3Lock_Unlock_retries_witness:
  "\<exists>n :: nat. 0 < n \<and> n \<le> 5 \<and>
     Unlock \<lparr>newSession = \<lambda>e. (Inr 0, e), mutex_Lock = \<lambda>s k e. (None, e), mutex_TryLock = \<lambda>s k e. (None, e),
       mutex_Unlock = \<lambda>s k e. (if e < 2 then Some ''down'' else None, e + 1), session_Close = \<lambda>s e. (None, e)\<rparr>
       (V3Lock (Some (0, ''/k'')) None) []
       \<lparr>ls_maps = \<lambda>_. [], ls_cooloff = \<lambda>_. [], ls_now = 0, ls_etcd = 0, ls_events = []\<rparr> =
     (None, \<lparr>ls_maps = \<lambda>_. [], ls_cooloff = \<lambda>_. [], ls_now = 0, ls_etcd = 3 :: nat, ls_events = []\<rparr>)"
proof -
  let ?api = "\<lparr>newSession = \<lambda>e. (Inr 0, e), mutex_Lock = \<lambda>s k e. (None, e), mutex_TryLock = \<lambda>s k e. (None, e),
    mutex_Unlock = \<lambda>s k e. (if e < 2 then Some ''down'' else None, e + 1), session_Close = \<lambda>s e. (None, e)\<rparr> :: nat etcd_api"
  let ?st = "\<lparr>ls_maps = \<lambda>_. [], ls_cooloff = \<lambda>_. [], ls_now = 0, ls_etcd = 0, ls_events = []\<rparr> :: nat lock_state"
  obtain n :: nat where "0 < n" "n \<le> 5"
    using v3Lock_Unlock_retries [of ?api 0 "''/k''" ?st "[]" 0] unfolding Let_def
    by (elim exE conjE) (rule that, assumption+)
  moreover have "Unlock ?api (V3Lock (Some (0, ''/k'')) None) [] ?st = (None, ?st\<lparr>ls_etcd := 3\<rparr>)"
    by (simp add: v3Lock_Unlock_def unlockMaxRetries_def numeral_eq_Suc)
  ultimately show ?thesis by auto
qed

text \<open>
  The unlock-error metric is never recorded: the metric locker returns the lock of the locker it
  wraps instead of one that observes errors, so unlocking what any locker returned adds no event.
\<close>

theorem unlock_errors_not_observed:
  assumes "Lock api lk key opts st = (Inr l, st')"
  shows "ls_events (snd (Unlock api l opts' st2)) = ls_events st2"
  using Unlock_unmetered [OF Lock_unmetered [OF assms]] .

theorem unlock_errors_not_observed_witness:
  "let api = \<lparr>newSession = \<lambda>e. (Inr 0, e), mutex_Lock = \<lambda>s k e. (None, e), mutex_TryLock = \<lambda>s k e. (None, e),
         mutex_Unlock = \<lambda>s k e. (Some ''down'', e), session_Close = \<lambda>s e. (None, e)\<rparr>;
       st = \<lparr>ls_maps = \<lambda>_. [], ls_cooloff = \<lambda>_. [], ls_now = 0, ls_etcd = (), ls_events = []\<rparr>;
       l = projr (fst (Lock api (MetricLocker (V3Locker False False) ''etcd'') ''/k'' [] st));
       st1 = snd (Lock api (MetricLocker (V3Locker False False) ''etcd'') ''/k'' [] st)
   in fst (Unlock api l [] st1) = Some (UnlockError ''down'') \<and>
      ls_events (snd (Unlock api l [] st1)) = [ObserveLock ''etcd'' ''unknown'' ''unknown'' True]"
proof -
  let ?api = "\<lparr>newSession = \<lambda>e. (Inr 0, e), mutex_Lock = \<lambda>s k e. (None, e), mutex_TryLock = \<lambda>s k e. (None, e),
    mutex_Unlock = \<lambda>s k e. (Some ''down'', e), session_Close = \<lambda>s e. (None, e)\<rparr> :: unit etcd_api"
  let ?st = "\<lparr>ls_maps = \<lambda>_. [], ls_cooloff = \<lambda>_. [], ls_now = 0, ls_etcd = (), ls_events = []\<rparr> :: unit lock_state"
  let ?L = "Lock ?api (MetricLocker (V3Locker False False) ''etcd'') ''/k'' [] ?st"
  have L: "?L = (Inr (projr (fst ?L)), snd ?L)" by (simp add: lockWithTimeout_def Let_def)
  have "fst (Unlock ?api (projr (fst ?L)) [] (snd ?L)) = Some (UnlockError ''down'')"
    by (simp add: lockWithTimeout_def Let_def v3Lock_Unlock_def unlockMaxRetries_def numeral_eq_Suc)
  moreover have "ls_events (snd ?L) = [ObserveLock ''etcd'' ''unknown'' ''unknown'' True]"
    by (simp add: lockWithTimeout_def Let_def buildOptions_def)
  ultimately show ?thesis
    using unlock_errors_not_observed [OF L, of "[]" "snd ?L"] unfolding Let_def by metis
qed

text \<open>
  A failed attempt to take an etcd lock leaves its session open: with a session per lock, the
  etcd state after the failure is the one the mutex call left, and no close follows.
\<close>

theorem failed_lock_keeps_session:
  assumes "newSession api (ls_etcd st) = (Inr s, e1)"
    and "(if useTryLock then mutex_TryLock api s key e1 else mutex_Lock api s key e1) = (Some err, e2)"
  shows "Lock api (V3Locker True useTryLock) key opts st = (Inl (EtcdError err), st\<lparr>ls_etcd := e2\<rparr>)"
  using assms by (simp add: lockWithTimeout_def)

theorem failed_lock_keeps_session_witness:
  "let api = \<lparr>newSession = \<lambda>e. (Inr 0, e @ [''open'']), mutex_Lock = \<lambda>s k e. (Some ''timeout'', e @ [''lock'']),
         mutex_TryLock = \<lambda>s k e. (None, e), mutex_Unlock = \<lambda>s k e. (None, e),
         session_Close = \<lambda>s e. (None, e @ [''close''])\<rparr>;
       st = \<lparr>ls_maps = \<lambda>_. [], ls_cooloff = \<lambda>_. [], ls_now = 0, ls_etcd = [], ls_events = []\<rparr>
   in Lock api (V3Locker True False) ''/k'' [] st =
      (Inl (EtcdError ''timeout''), st\<lparr>ls_etcd := [''open'', ''lock'']\<rparr>)"
  unfolding Let_def
  by (rule failed_lock_keeps_session [where s = 0 and ?e1.0 = "[''open'']"]) simp_all

end
