(* ===== verification/Crawler.thy ===== *)
theory Crawler
  imports Etcd Locks
begin

text \<open>
  \<open>rules/int_crawler.go\<close>: the periodic crawl. A run reads all keys below the watch prefixes,
  evaluates the rules of each key against what it read, and submits the keys that have work. What a
  run meets from outside is a \<open>crawl_env\<close>: the client, the looks at the stop flag, the rule IDs
  that key workers count meanwhile, and the length of the pause.
\<close>

section \<open>Definitions\<close>

record intCrawler =
  ic_mutex :: "string option"
  ic_prefixes :: "string list"
  ic_stopped :: bool
  ic_rulesProcessedCount :: "(string, nat) gomap"

definition newIntCrawler :: "string option \<Rightarrow> string list \<Rightarrow> intCrawler" where
  "newIntCrawler mutex pfxs =
     \<lparr>ic_mutex = mutex, ic_prefixes = pfxs, ic_stopped = False, ic_rulesProcessedCount = []\<rparr>"

record crawl_env =
  ce_kv :: etcd_kv
  ce_stopping :: bool
  ce_looks :: "nat \<Rightarrow> bool"
  ce_evaluated :: "string list"
  ce_intervalSeconds :: nat
  ce_pauseLooks :: "nat \<Rightarrow> bool"

datatype crawl_outcome =
    CrawlStopping
  | CrawlLocked lock_error
  | CrawlFailed string
  | CrawlDone nat "(string \<times> nat) list"

text \<open>The loop over the prefixes.\<close>

primrec crawl_query ::
  "etcd_kv \<Rightarrow> string list \<Rightarrow> (string, string) gomap \<Rightarrow> string + (string, string) gomap" where
  "crawl_query kV [] kvs = Inr kvs"
| "crawl_query kV (p # ps) kvs =
     (case kv_GetPrefix kV p of
        Inl err \<Rightarrow> Inl err
      | Inr respKvs \<Rightarrow> crawl_query kV ps (put_all respKvs kvs))"

text \<open>The loop of \<open>processData\<close>, with the number of the next look at the stop flag.\<close>

primrec processData_loop ::
  "rule_ptr range_order \<Rightarrow> (static_rule \<times> nat) range_order \<Rightarrow> rule_heap \<Rightarrow> v3KeyProcessor \<Rightarrow>
   (nat \<Rightarrow> bool) \<Rightarrow> (string, string) gomap \<Rightarrow> nat \<Rightarrow> string list \<Rightarrow> keyTask list \<Rightarrow> keyTask list go" where
  "processData_loop ord ord' heap kp looks kvs i [] kpChannel = Ret kpChannel"
| "processData_loop ord ord' heap kp looks kvs i (k # ks) kpChannel =
     (let v = (case gm_get kvs k of Some v \<Rightarrow> v | None \<Rightarrow> [])
      in if looks i then Ret kpChannel
         else go_bind (isWork ord ord' heap kp (cacheReadAPI_get kvs) k (Some v)) (\<lambda>work.
              processData_loop ord ord' heap kp looks kvs (Suc i) ks
                (if work then v3_processKey k (Some v) [(''source'', ''crawler'')] kpChannel else kpChannel)))"

definition processData ::
  "rule_ptr range_order \<Rightarrow> (static_rule \<times> nat) range_order \<Rightarrow> string range_order \<Rightarrow> rule_heap \<Rightarrow>
   v3KeyProcessor \<Rightarrow> (nat \<Rightarrow> bool) \<Rightarrow> (string, string) gomap \<Rightarrow> keyTask list \<Rightarrow> keyTask list go" where
  "processData ord ord' kord heap kp looks kvs kpChannel =
     processData_loop ord ord' heap kp looks kvs 0 (range_in kord (gm_keys kvs)) kpChannel"

definition incRuleProcessedCount :: "string \<Rightarrow> (string, nat) gomap \<Rightarrow> (string, nat) gomap" where
  "incRuleProcessedCount ruleID m =
     gm_put m ruleID ((case gm_get m ruleID of Some n \<Rightarrow> n | None \<Rightarrow> 0) + 1)"

text \<open>
  \<open>singleRun\<close>. The counts are reset before the query and reported after \<open>processData\<close>, with
  what the key workers have counted in between.
\<close>

definition crawler_singleRun ::
  "rule_ptr range_order \<Rightarrow> (static_rule \<times> nat) range_order \<Rightarrow> string range_order \<Rightarrow>
   (string \<times> nat) range_order \<Rightarrow> rule_heap \<Rightarrow> v3KeyProcessor \<Rightarrow> crawl_env \<Rightarrow> intCrawler \<Rightarrow> keyTask list \<Rightarrow>
   (intCrawler \<times> crawl_outcome \<times> keyTask list) go" where
  "crawler_singleRun ord ord' kord mord heap kp env ic kpChannel =
     (if ce_stopping env then Ret (ic, CrawlStopping, kpChannel)
      else
        (case crawl_query (ce_kv env) (ic_prefixes ic) [] of
           Inl err \<Rightarrow> Ret (ic\<lparr>ic_rulesProcessedCount := []\<rparr>, CrawlFailed err, kpChannel)
         | Inr kvs \<Rightarrow>
             go_bind (processData ord ord' kord heap kp (ce_looks env) kvs kpChannel) (\<lambda>kpChannel'.
               let counts = fold incRuleProcessedCount (ce_evaluated env) []
               in Ret (ic\<lparr>ic_rulesProcessedCount := counts\<rparr>, CrawlDone (length kvs) (range_in mord counts),
                       kpChannel'))))"

text \<open>The pause after a run, in seconds: it ends early when the stop flag is seen.\<close>

primrec crawler_pause :: "(nat \<Rightarrow> bool) \<Rightarrow> nat \<Rightarrow> nat \<Rightarrow> nat" where
  "crawler_pause looks i 0 = 0"
| "crawler_pause looks i (Suc n) = Suc (if looks i then 0 else crawler_pause looks (Suc i) n)"

text \<open>One iteration of \<open>run\<close>; with a mutex configured, a run that does not get it is skipped.\<close>

definition crawler_iteration ::
  "rule_ptr range_order \<Rightarrow> (static_rule \<times> nat) range_order \<Rightarrow> string range_order \<Rightarrow>
   (string \<times> nat) range_order \<Rightarrow> 'e etcd_api \<Rightarrow> rule_locker \<Rightarrow> rule_heap \<Rightarrow> v3KeyProcessor \<Rightarrow>
   crawl_env \<Rightarrow> intCrawler \<Rightarrow> keyTask list \<Rightarrow> 'e lock_state \<Rightarrow>
   (intCrawler \<times> (crawl_outcome \<times> nat) \<times> keyTask list \<times> 'e lock_state) go" where
  "crawler_iteration ord ord' kord mord api locker heap kp env ic kpChannel st =
     (let slept = crawler_pause (ce_pauseLooks env) 0 (ce_intervalSeconds env)
      in case ic_mutex ic of
           None \<Rightarrow>
             go_bind (crawler_singleRun ord ord' kord mord heap kp env ic kpChannel) (\<lambda>(ic', outcome, kpChannel').
               Ret (ic', (outcome, slept), kpChannel', st))
         | Some m \<Rightarrow>
             (let mutex = ''/crawler/'' @ m
              in case Lock api locker mutex [MethodForLock ''crawler'', PatternForLock mutex] st of
                   (Inl err, st1) \<Rightarrow> Ret (ic, (CrawlLocked err, slept), kpChannel, st1)
                 | (Inr l, st1) \<Rightarrow>
                     go_bind (crawler_singleRun ord ord' kord mord heap kp env ic kpChannel)
                       (\<lambda>(ic', outcome, kpChannel').
                         case Unlock api l [] st1 of (err, st2) \<Rightarrow>
                           Ret (ic', (outcome, slept), kpChannel', st2))))"

text \<open>\<open>run\<close>: a look at the stop flag and what the following iteration meets, for each iteration.\<close>

primrec crawler_loop ::
  "rule_ptr range_order \<Rightarrow> (static_rule \<times> nat) range_order \<Rightarrow> string range_order \<Rightarrow>
   (string \<times> nat) range_order \<Rightarrow> 'e etcd_api \<Rightarrow> rule_locker \<Rightarrow> rule_heap \<Rightarrow> v3KeyProcessor \<Rightarrow>
   (bool \<times> crawl_env) list \<Rightarrow> intCrawler \<Rightarrow> keyTask list \<Rightarrow> 'e lock_state \<Rightarrow>
   (intCrawler \<times> (crawl_outcome \<times> nat) list \<times> keyTask list \<times> 'e lock_state) go" where
  "crawler_loop ord ord' kord mord api locker heap kp [] ic kpChannel st = Ret (ic, [], kpChannel, st)"
| "crawler_loop ord ord' kord mord api locker heap kp (it # its) ic kpChannel st =
     (case it of (stopping, env) \<Rightarrow>
        if stopping then Ret (ic\<lparr>ic_stopped := True\<rparr>, [], kpChannel, st)
        else go_bind (crawler_iteration ord ord' kord mord api locker heap kp env ic kpChannel st)
          (\<lambda>(ic', outcome, kpChannel', st').
             go_bind (crawler_loop ord ord' kord mord api locker heap kp its ic' kpChannel' st')
               (\<lambda>(ic'', outcomes, rest). Ret (ic'', outcome # outcomes, rest))))"

definition crawler_run ::
  "rule_ptr range_order \<Rightarrow> (static_rule \<times> nat) range_order \<Rightarrow> string range_order \<Rightarrow>
   (string \<times> nat) range_order \<Rightarrow> 'e etcd_api \<Rightarrow> rule_locker \<Rightarrow> rule_heap \<Rightarrow> v3KeyProcessor \<Rightarrow>
   (bool \<times> crawl_env) list \<Rightarrow> intCrawler \<Rightarrow> keyTask list \<Rightarrow> 'e lock_state \<Rightarrow>
   (intCrawler \<times> (crawl_outcome \<times> nat) list \<times> keyTask list \<times> 'e lock_state) go" where
  "crawler_run ord ord' kord mord api locker heap kp its ic kpChannel st =
     crawler_loop ord ord' kord mord api locker heap kp its (ic\<lparr>ic_stopped := False\<rparr>) kpChannel st"

section \<open>The data of a crawl\<close>

text \<open>What the store holds below some prefixes.\<close>

definition below :: "string list \<Rightarrow> string \<Rightarrow> bool" where
  "below pfxs k \<longleftrightarrow> list_ex (\<lambda>q. strings_HasPrefix k q) pfxs"

lemma crawl_query_serves:
  assumes "serves kV st" and "\<And>p. p \<in> set ps \<Longrightarrow> \<not> isl (kv_GetPrefix kV p)" and "gm_wf kvs"
    and "\<And>k v. gm_get kvs k = Some v \<Longrightarrow> st k = Some v"
  shows "\<exists>out. crawl_query kV ps kvs = Inr out \<and> gm_wf out \<and>
    (\<forall>k v. gm_get out k = Some v \<longleftrightarrow> gm_get kvs k = Some v \<or> below ps k \<and> st k = Some v)"
  using assms(2-4)
proof (induction ps arbitrary: kvs)
  case (Cons p ps)
  obtain rs where rs: "kv_GetPrefix kV p = Inr rs" using Cons.prems(1) [of p] by (cases "kv_GetPrefix kV p") auto
  then have d: "distinct (map fst rs)" "\<And>k v. (k, v) \<in> set rs \<longleftrightarrow> st k = Some v \<and> strings_HasPrefix k p"
    using assms(1) by (auto simp: serves_def)
  have get: "gm_get (put_all rs kvs) k = Some v \<longleftrightarrow>
      gm_get kvs k = Some v \<or> strings_HasPrefix k p \<and> st k = Some v" for k v
    unfolding gm_get_put_all_distinct [OF d(1)] using d(2) Cons.prems(3) by (force simp: image_iff)
  have "\<exists>out. crawl_query kV ps (put_all rs kvs) = Inr out \<and> gm_wf out \<and>
    (\<forall>k v. gm_get out k = Some v \<longleftrightarrow> gm_get (put_all rs kvs) k = Some v \<or> below ps k \<and> st k = Some v)"
    using Cons.prems get by (intro Cons.IH) auto
  then show ?case using rs get by (auto simp: below_def)
qed (simp add: below_def)

lemma processData_loop_eq:
  assumes "\<And>k v. isWork ord ord' heap kp (cacheReadAPI_get kvs) k (Some v) = Ret (W k v)"
    and "\<And>i. \<not> looks i" and "\<And>k. k \<in> set ks \<Longrightarrow> gm_get kvs k = Some (val k)"
  shows "processData_loop ord ord' heap kp looks kvs i ks ch =
    Ret (ch @ map (\<lambda>k. \<lparr>kt_key = k, kt_value = Some (val k), kt_metadata = [(''source'', ''crawler'')]\<rparr>)
      (filter (\<lambda>k. W k (val k)) ks))"
  using assms(3) by (induction ks arbitrary: i ch) (simp_all add: assms(1,2) v3_processKey_def)

lemma crawl_count:
  "gm_get (fold incRuleProcessedCount ids m) x =
     (let n = count_list ids x + (case gm_get m x of Some n \<Rightarrow> n | None \<Rightarrow> 0)
      in if x \<in> set ids then Some n else gm_get m x)"
  by (induction ids arbitrary: m)
    (auto simp: incRuleProcessedCount_def gomap_simps Let_def count_list_0_iff split: option.splits)

lemma inst_key_pattern:
  "k \<in> set (getKeys (inst a r)) \<Longrightarrow> wf_rule r \<Longrightarrow>
     \<exists>krp \<in> set (leaves r). \<exists>p \<in> set (dr_patterns krp). k = path_format (attr_lookup a) p"
proof (induction r)
  case (Leaf krp)
  then show ?case using leaf_inst_keys [of krp "attr_lookup a" a] by auto
next
  case (AndDynamicRule rs ps fs)
  then obtain r where "r \<in> set rs" "k \<in> set (getKeys (inst a r))" "wf_rule r" by (auto simp: list_all_iff)
  then show ?case using AndDynamicRule.IH [of r] by auto
next
  case (OrDynamicRule rs ps fs)
  then obtain r where "r \<in> set rs" "k \<in> set (getKeys (inst a r))" "wf_rule r" by (auto simp: list_all_iff)
  then show ?case using OrDynamicRule.IH [of r] by auto
qed auto

text \<open>Without constraints every key a made rule reads is below the manager's prefixes.\<close>

lemma inst_keys_covered:
  assumes "rm_inv heap rm" and "rm_constraints rm = []" and "r \<in> set (rm_rules rm)" and "wf_rule (heap r)"
    and "\<And>p. p \<in> set (getPatterns (heap r)) \<Longrightarrow> normal_path p \<and> literal_segments_no_colon p"
    and "k \<in> set (getKeys (inst a (heap r)))"
  shows "\<exists>q \<in> set (gm_keys (rm_prefixes rm)). prefix q k"
proof -
  obtain krp p where p: "krp \<in> set (leaves (heap r))" "p \<in> set (dr_patterns krp)" "k = path_format (attr_lookup a) p"
    using inst_key_pattern [OF assms(6,4)] by blast
  then have "p \<in> set (getPatterns (heap r))" using getPatterns_leaves [OF assms(4)] by auto
  moreover have "first_param_allowed (rm_constraints rm) (attr_lookup a) p"
    by (simp add: first_param_allowed_def assms(2) split: list.splits)
  ultimately show ?thesis
    using registered_pattern_covered [OF assms(1,3,4)] assms(5) p(3) by blast
qed

lemma below_prefix: "below pfxs k \<longleftrightarrow> (\<exists>q \<in> set pfxs. prefix q k)"
  by (simp add: below_def list_ex_iff strings_HasPrefix_iff)

text \<open>
  A key has work in a store: it selects a rule that the store satisfies. The rules considered below
  have normal patterns.
\<close>

definition has_work :: "rule_heap \<Rightarrow> ruleManager \<Rightarrow> (string \<Rightarrow> string option) \<Rightarrow> string \<Rightarrow> string option \<Rightarrow> bool" where
  "has_work heap rm st key v \<longleftrightarrow>
     (\<exists>sr i a. selects heap rm key v sr i a \<and> satisfied sr (\<lambda>k. Inr (st k)) = Inr True)"

definition normal_rules :: "rule_heap \<Rightarrow> ruleManager \<Rightarrow> bool" where
  "normal_rules heap rm \<longleftrightarrow>
     (\<forall>r \<in> set (rm_rules rm). \<forall>p \<in> set (getPatterns (heap r)). normal_path p \<and> literal_segments_no_colon p)"

definition crawl_task :: "string \<Rightarrow> string \<Rightarrow> keyTask" where
  "crawl_task k v = \<lparr>kt_key = k, kt_value = Some v, kt_metadata = [(''source'', ''crawler'')]\<rparr>"

lemma gm_get_restrict:
  assumes "\<forall>k v. gm_get kvs k = Some v \<longleftrightarrow> B k \<and> st k = Some v"
  shows "gm_get kvs k = (if B k then st k else None)"
  using assms [THEN spec, of k] by (cases "st k"; cases "gm_get kvs k") (simp_all, metis option.inject)

text \<open>Evaluating a selected rule on what the crawl read is evaluating it on the store.\<close>

lemma crawl_evaluates_store:
  assumes "rm_inv heap rm" and "rm_constraints rm = []" and "admissible heap rm" and "normal_rules heap rm"
    and "set pfxs = set (gm_keys (rm_prefixes rm))"
    and "\<forall>k v. gm_get kvs k = Some v \<longleftrightarrow> below pfxs k \<and> st k = Some v"
    and "selects heap rm key v sr i a"
  shows "satisfied sr (cacheReadAPI_get kvs) = satisfied sr (\<lambda>k. Inr (st k))"
proof (rule satisfied_cong)
  fix k assume k: "k \<in> set (getKeys sr)"
  obtain r where "last_index (rm_rules rm) r i" and make: "makeStaticRule (heap r) key v = Ret (Some (sr, a))"
    using assms(7) unfolding selects_def by blast
  then have r: "r \<in> set (rm_rules rm)" by (auto simp: last_index_def)
  then have wf: "wf_rule (heap r)" and "sr = inst a (heap r)"
    using assms(3) make_inst make by (auto simp: admissible_def)
  then have "k \<in> set (getKeys (inst a (heap r)))" using k by simp
  then have "below pfxs k"
    using inst_keys_covered [OF assms(1,2) r wf] assms(4,5) r by (auto simp: below_prefix normal_rules_def)
  then have "gm_get kvs k = st k" using gm_get_restrict [OF assms(6), of k] by simp
  then show "cacheReadAPI_get kvs k = Inr (st k)" by (simp add: cacheReadAPI_get_eq)
qed

lemma processData_spec:
  assumes "rm_inv heap (kp_rm kp)" and "rm_constraints (kp_rm kp) = []" and "admissible heap (kp_rm kp)"
    and "normal_rules heap (kp_rm kp)" and "set pfxs = set (gm_keys (rm_prefixes (kp_rm kp)))"
    and "\<forall>k v. gm_get kvs k = Some v \<longleftrightarrow> below pfxs k \<and> st k = Some v" and "gm_wf kvs"
    and "\<forall>i. \<not> looks i"
  shows "\<exists>tasks. processData ord ord' kord heap kp looks kvs ch = Ret (ch @ tasks) \<and> distinct (map kt_key tasks) \<and>
    (\<forall>t. t \<in> set tasks \<longleftrightarrow> (\<exists>k v. t = crawl_task k v \<and> below pfxs k \<and> st k = Some v \<and>
      has_work heap (kp_rm kp) st k (Some v)))"
proof -
  let ?ks = "range_in kord (gm_keys kvs)"
  define val where "val k = the (st k)" for k
  define W where "W k v = has_work heap (kp_rm kp) st k (Some v)" for k v
  let ?tasks = "map (\<lambda>k. crawl_task k (val k)) (filter (\<lambda>k. W k (val k)) ?ks)"
  have eq: "selects heap (kp_rm kp) k v sr i a \<Longrightarrow>
      satisfied sr (cacheReadAPI_get kvs) = satisfied sr (\<lambda>k. Inr (st k))" for k v sr i a
    by (rule crawl_evaluates_store [OF assms(1-6)])
  have work: "isWork ord ord' heap kp (cacheReadAPI_get kvs) k (Some v) = Ret (W k v)" for k v
    unfolding isWork_spec [OF assms(1,3)] rule_sat_def go.inject W_def has_work_def
    by (intro ex_cong1 conj_cong refl) (drule eq, simp)
  have keys: "k \<in> set ?ks \<longleftrightarrow> below pfxs k \<and> st k = Some (val k)" for k
    using gm_get_restrict [OF assms(6), of k] gm_get_None_iff [of kvs k] by (auto simp: val_def split: if_splits)
  have get: "gm_get kvs k = Some (val k)" if "k \<in> set ?ks" for k
    using that gm_get_restrict [OF assms(6), of k] unfolding keys by simp
  have looks: "\<not> looks i" for i using assms(8) by blast
  have run: "processData ord ord' kord heap kp looks kvs ch = Ret (ch @ ?tasks)"
    unfolding processData_def crawl_task_def by (rule processData_loop_eq [OF work looks get])
  have dist: "distinct (map kt_key ?tasks)"
    using assms(7) by (simp add: comp_def gm_wf_def gm_keys_def crawl_task_def)
  have "t \<in> set ?tasks \<longleftrightarrow> (\<exists>k. t = crawl_task k (val k) \<and> k \<in> set ?ks \<and> W k (val k))" for t by auto
  moreover have "(\<exists>k v. t = crawl_task k v \<and> below pfxs k \<and> st k = Some v \<and> W k v) \<longleftrightarrow>
      (\<exists>k. t = crawl_task k (val k) \<and> (below pfxs k \<and> st k = Some (val k)) \<and> W k (val k))" for t
    by (rule ex_cong1) (auto simp: val_def)
  ultimately have "t \<in> set ?tasks \<longleftrightarrow>
      (\<exists>k v. t = crawl_task k v \<and> below pfxs k \<and> st k = Some v \<and> W k v)" for t
    by (simp only: keys)
  then show ?thesis using run dist unfolding W_def by blast
qed

lemma crawl_exact:
  assumes "managed ord0 heap [] enhanced (kp_rm kp)" and "admissible heap (kp_rm kp)"
    and "normal_rules heap (kp_rm kp)" and "set (ic_prefixes ic) = set (gm_keys (rm_prefixes (kp_rm kp)))"
    and "serves (ce_kv env) st" and "\<forall>p \<in> set (ic_prefixes ic). \<not> isl (kv_GetPrefix (ce_kv env) p)"
    and "\<not> ce_stopping env" and "\<forall>i. \<not> ce_looks env i"
  shows "\<exists>ic' n counts tasks. crawler_singleRun ord ord' kord mord heap kp env ic kpChannel =
      Ret (ic', CrawlDone n counts, kpChannel @ tasks) \<and> distinct (map kt_key tasks) \<and>
    (\<forall>t. t \<in> set tasks \<longleftrightarrow> (\<exists>k v. t = crawl_task k v \<and> below (ic_prefixes ic) k \<and> st k = Some v \<and>
      has_work heap (kp_rm kp) st k (Some v)))"
proof -
  obtain kvs where kvs: "crawl_query (ce_kv env) (ic_prefixes ic) [] = Inr kvs" "gm_wf kvs"
    "\<forall>k v. gm_get kvs k = Some v \<longleftrightarrow> below (ic_prefixes ic) k \<and> st k = Some v"
    using crawl_query_serves [OF assms(5), of "ic_prefixes ic" "[]"] assms(6) by auto
  have cs: "rm_constraints (kp_rm kp) = []" using managed_config [OF assms(1)] by simp
  obtain tasks where "processData ord ord' kord heap kp (ce_looks env) kvs kpChannel = Ret (kpChannel @ tasks)"
    "distinct (map kt_key tasks)"
    "\<forall>t. t \<in> set tasks \<longleftrightarrow> (\<exists>k v. t = crawl_task k v \<and> below (ic_prefixes ic) k \<and> st k = Some v \<and>
      has_work heap (kp_rm kp) st k (Some v))"
    using processData_spec [OF managed_inv [OF assms(1)] cs assms(2-4) kvs(3,2) assms(8),
        where ord = ord and ord' = ord' and kord = kord and ch = kpChannel] by blast
  moreover have "crawler_singleRun ord ord' kord mord heap kp env ic kpChannel =
      go_bind (processData ord ord' kord heap kp (ce_looks env) kvs kpChannel) (\<lambda>kpChannel'.
        Ret (ic\<lparr>ic_rulesProcessedCount := fold incRuleProcessedCount (ce_evaluated env) []\<rparr>,
          CrawlDone (length kvs) (range_in mord (fold incRuleProcessedCount (ce_evaluated env) [])), kpChannel'))"
    using kvs(1) assms(7) by (simp add: crawler_singleRun_def Let_def)
  ultimately show ?thesis by (simp only: go_bind.simps) blast
qed

section \<open>Properties\<close>

text \<open>
  A crawl is exact: when the reads of the prefixes succeed and it is not stopped, it submits,
  once each and with its stored value, precisely the stored keys below the watch prefixes that
  select a rule which the store satisfies. (Without constraints, and for normal patterns.)
\<close>

theorem crawl_submits_exactly:
  assumes "managed ord0 heap [] enhanced (kp_rm kp)" and "admissible heap (kp_rm kp)"
    and "normal_rules heap (kp_rm kp)" and "set (ic_prefixes ic) = set (gm_keys (rm_prefixes (kp_rm kp)))"
    and "serves (ce_kv env) st" and "\<forall>p \<in> set (ic_prefixes ic). \<not> isl (kv_GetPrefix (ce_kv env) p)"
    and "\<not> ce_stopping env" and "\<forall>i. \<not> ce_looks env i"
  shows "\<exists>ic' n counts tasks. crawler_singleRun ord ord' kord mord heap kp env ic kpChannel =
      Ret (ic', CrawlDone n counts, kpChannel @ tasks) \<and> distinct (map kt_key tasks) \<and>
    (\<forall>t. t \<in> set tasks \<longleftrightarrow> (\<exists>k v. t = crawl_task k v \<and> below (ic_prefixes ic) k \<and> st k = Some v \<and>
      has_work heap (kp_rm kp) st k (Some v)))"
  using assms by (rule crawl_exact)

theorem crawl_submits_exactly_witness:
  "\<exists>r rm ic' n counts tasks. NewEqualsLiteralRule ''/a/:x'' (Some ''1'') = Inr r \<and>
     addRule insertion_order (\<lambda>_. r) (newRuleManager [] True) 5 = Ret (rm, 0) \<and>
     crawler_singleRun insertion_order insertion_order insertion_order insertion_order (\<lambda>_. r) (newV3KeyProcessor rm)
       \<lparr>ce_kv = \<lparr>kv_Get = \<lambda>k. Inl ''unavailable'', kv_Txn = \<lambda>ops. Inl ''unavailable'',
          kv_GetPrefix = \<lambda>p. Inr (if strings_HasPrefix ''/a/7'' p then [(''/a/7'', ''1'')] else [])\<rparr>,
        ce_stopping = False, ce_looks = \<lambda>i. False, ce_evaluated = [], ce_intervalSeconds = 300, ce_pauseLooks = \<lambda>i. False\<rparr>
       (newIntCrawler None [''/a/'']) [] = Ret (ic', CrawlDone n counts, tasks) \<and>
     crawl_task ''/a/7'' ''1'' \<in> set tasks"
proof -
  let ?r = "projr (NewEqualsLiteralRule ''/a/:x'' (Some ''1''))"
  have r: "NewEqualsLiteralRule ''/a/:x'' (Some ''1'') = Inr ?r" by (rule Inr_projr) code_simp
  let ?add = "addRule insertion_order (\<lambda>_. ?r) (newRuleManager [] True) 5"
  let ?rm = "fst (case ?add of Ret x \<Rightarrow> x)"
  let ?kp = "newV3KeyProcessor ?rm"
  let ?ic = "newIntCrawler None [''/a/'']"
  let ?st = "[''/a/7'' \<mapsto> ''1'']"
  let ?kV = "\<lparr>kv_Get = \<lambda>k. Inl ''unavailable'', kv_Txn = \<lambda>ops. Inl ''unavailable'',
    kv_GetPrefix = \<lambda>p. Inr (if strings_HasPrefix ''/a/7'' p then [(''/a/7'', ''1'')] else [])\<rparr>"
  let ?env = "\<lparr>ce_kv = ?kV, ce_stopping = False, ce_looks = \<lambda>i. False, ce_evaluated = [], ce_intervalSeconds = 300,
    ce_pauseLooks = \<lambda>i. False\<rparr>"
  let ?m = "makeStaticRule ?r ''/a/7'' (Some ''1'')"
  have add: "?add = Ret (?rm, 0)" by code_simp
  have kp: "kp_rm ?kp = ?rm" by (simp add: newV3KeyProcessor_def)
  have m: "managed insertion_order (\<lambda>_. ?r) [] True (kp_rm ?kp)"
    unfolding kp by (rule managed_add [OF managed_new add])
  have "built insertion_order ?r" using r by (rule built_literal)
  moreover have "no_empty ?r" by code_simp
  ultimately have adm: "admissible (\<lambda>_. ?r) (kp_rm ?kp)"
    by (simp add: admissible_def built_wf built_fresh)
  have "list_all (\<lambda>p. normal_path p \<and> literal_segments_no_colon p) (getPatterns ?r)" by code_simp
  then have nr: "normal_rules (\<lambda>_. ?r) (kp_rm ?kp)" by (simp add: normal_rules_def list_all_iff)
  have "gm_keys (rm_prefixes ?rm) = [''/a/'']" by code_simp
  then have pfx: "set (ic_prefixes ?ic) = set (gm_keys (rm_prefixes (kp_rm ?kp)))"
    unfolding kp by (simp add: newIntCrawler_def)
  have s: "serves (ce_kv ?env) ?st" by (auto simp: serves_def)
  have g: "\<forall>p \<in> set (ic_prefixes ?ic). \<not> isl (kv_GetPrefix (ce_kv ?env) p)" by simp
  have "go_is_some ?m" by code_simp
  then have mk: "?m = Ret (Some (fst (go_some ?m), snd (go_some ?m)))" using go_some_eq by simp
  have "rm_rules ?rm = [5]" by code_simp
  then have li: "last_index (rm_rules (kp_rm ?kp)) 5 0" by (simp add: last_index_def kp)
  have hs: "has_slashes ?r (strings_Count ''/a/7'' slash)" by code_simp
  have sel: "selected (rm_enhancedRuleFilter (kp_rm ?kp)) (fst (go_some ?m)) ''/a/7'' (Some ''1'')" by code_simp
  have "selects (\<lambda>_. ?r) (kp_rm ?kp) ''/a/7'' (Some ''1'') (fst (go_some ?m)) 0 (snd (go_some ?m))"
    unfolding selects_def using li hs mk sel by blast
  moreover have "satisfied (fst (go_some ?m)) (\<lambda>k. Inr (?st k)) = Inr True" by code_simp
  ultimately have w: "has_work (\<lambda>_. ?r) (kp_rm ?kp) ?st ''/a/7'' (Some ''1'')" unfolding has_work_def by blast
  have b: "below (ic_prefixes ?ic) ''/a/7''" by code_simp
  have v: "?st ''/a/7'' = Some ''1''" by simp
  have n: "\<not> ce_stopping ?env" "\<forall>i. \<not> ce_looks ?env i" by simp_all
  obtain ic' n counts tasks where
    "crawler_singleRun insertion_order insertion_order insertion_order insertion_order (\<lambda>_. ?r) ?kp ?env ?ic [] =
       Ret (ic', CrawlDone n counts, [] @ tasks)"
    "crawl_task ''/a/7'' ''1'' \<in> set tasks"
    using crawl_submits_exactly [OF m adm nr pfx s g n, where kpChannel = "[]" and ord = insertion_order and
      ord' = insertion_order and kord = insertion_order and mord = insertion_order] b v w by blast
  then show ?thesis using r add by (simp only: append_Nil) blast
qed

section \<open>The mutex of the crawler\<close>

text \<open>
  The crawler runs only under its mutex and gives it back: with a mutex configured, an iteration
  that does not get the lock submits nothing, and one that gets it releases it after the run;
  in both cases the pause ends at most a second after the stop flag is set.
\<close>

lemma crawler_iteration_under_mutex:
  assumes "ic_mutex ic = Some m"
    and "crawler_iteration ord ord' kord mord api locker heap kp env ic kpChannel st =
      Ret (ic', (outcome, slept), kpChannel', st')"
  shows "(case Lock api locker (''/crawler/'' @ m) [MethodForLock ''crawler'', PatternForLock (''/crawler/'' @ m)] st of
      (Inl err, st1) \<Rightarrow> outcome = CrawlLocked err \<and> kpChannel' = kpChannel \<and> st' = st1
    | (Inr l, st1) \<Rightarrow> crawler_singleRun ord ord' kord mord heap kp env ic kpChannel = Ret (ic', outcome, kpChannel') \<and>
        st' = snd (Unlock api l [] st1)) \<and>
    slept \<le> ce_intervalSeconds env \<and> (\<forall>i. ce_pauseLooks env i \<longrightarrow> slept \<le> Suc i)"
proof -
  have pause: "crawler_pause looks i n \<le> n \<and> (\<forall>j \<ge> i. looks j \<longrightarrow> crawler_pause looks i n \<le> Suc (j - i))" for looks i n
  proof (induction n arbitrary: i)
    case (Suc n)
    show ?case
    proof (cases "looks i")
      case False
      then have "i < j" if "i \<le> j" "looks j" for j using that le_eq_less_or_eq by auto
      then show ?thesis using Suc.IH [of "Suc i"] False by (fastforce simp: Suc_le_eq Suc_diff_Suc)
    qed simp
  qed simp
  let ?mutex = "''/crawler/'' @ m"
  obtain res st1 where lock: "Lock api locker ?mutex [MethodForLock ''crawler'', PatternForLock ?mutex] st = (res, st1)"
    by fastforce
  have "slept = crawler_pause (ce_pauseLooks env) 0 (ce_intervalSeconds env) \<and>
    (case res of Inl err \<Rightarrow> outcome = CrawlLocked err \<and> kpChannel' = kpChannel \<and> st' = st1
     | Inr l \<Rightarrow> crawler_singleRun ord ord' kord mord heap kp env ic kpChannel = Ret (ic', outcome, kpChannel') \<and>
        st' = snd (Unlock api l [] st1))"
    using assms lock
    by (cases res) (auto simp: crawler_iteration_def Let_def go_simps case_prod_beta simp del: append_Cons)
  moreover from this have "slept \<le> ce_intervalSeconds env \<and> (\<forall>i. ce_pauseLooks env i \<longrightarrow> slept \<le> Suc i)"
    using pause [of "ce_pauseLooks env" 0] by simp
  ultimately show ?thesis unfolding lock prod.case by (cases res) simp_all
qed

end
