(* ===== verification/Watcher.thy ===== *)
theory Watcher
  imports Etcd
begin

text \<open>
  \<open>rules/watcher.go\<close>: the loop that takes keys from a key watcher and hands them to the key
  processor. Sleeps are recorded as effects; each look at the stop flag and each generated delay is
  an input of the loop.
\<close>

section \<open>Definitions\<close>

datatype watch_effect =
    Slept nat
  | Paused int

record watcher =
  wt_kw :: etcdV3KeyWatcher
  wt_stopped :: bool

definition newV3Watcher :: "string \<Rightarrow> watcher" where
  "newV3Watcher p = \<lparr>wt_kw = newEtcdV3KeyWatcher p, wt_stopped = False\<rparr>"

text \<open>Sleeps are in seconds, pauses in nanoseconds.\<close>

definition watcher_singleRun ::
  "int \<Rightarrow> watch_input list \<Rightarrow> watcher \<Rightarrow> keyTask list \<Rightarrow>
   (watch_effect list \<times> watch_input list \<times> watcher \<times> keyTask list) go" where
  "watcher_singleRun delay inputs w kpChannel =
     go_bind (kw_next inputs (wt_kw w)) (\<lambda>(r, inputs', kw').
       case r of
         Inl err \<Rightarrow>
           Ret ([if strings_Contains (watch_error_text err) ''connection refused'' then Slept 60 else Slept 1],
                inputs', w\<lparr>wt_kw := kw'\<rparr>, kpChannel)
       | Inr (key, value) \<Rightarrow>
           Ret (if delay > 0 then [Paused delay] else [], inputs', w\<lparr>wt_kw := kw'\<rparr>,
                v3_processKey key value [(''source'', ''watcher'')] kpChannel))"

text \<open>
  The loop of \<open>run\<close>: each element is a look at the stop flag with the delay of the iteration that
  follows it. After the last look the loop is still running.
\<close>

primrec watcher_loop ::
  "(bool \<times> int) list \<Rightarrow> watch_input list \<Rightarrow> watcher \<Rightarrow> keyTask list \<Rightarrow>
   (watch_effect list \<times> watch_input list \<times> watcher \<times> keyTask list) go" where
  "watcher_loop [] inputs w kpChannel = Ret ([], inputs, w, kpChannel)"
| "watcher_loop (look # looks) inputs w kpChannel =
     (case look of (stopping, delay) \<Rightarrow>
        if stopping then Ret ([], inputs, w\<lparr>wt_stopped := True\<rparr>, kpChannel)
        else go_bind (watcher_singleRun delay inputs w kpChannel) (\<lambda>(effects, inputs', w', kpChannel').
             go_bind (watcher_loop looks inputs' w' kpChannel') (\<lambda>(effects', rest).
               Ret (effects @ effects', rest))))"

definition watcher_run ::
  "(bool \<times> int) list \<Rightarrow> watch_input list \<Rightarrow> watcher \<Rightarrow> keyTask list \<Rightarrow>
   (watch_effect list \<times> watch_input list \<times> watcher \<times> keyTask list) go" where
  "watcher_run looks inputs w kpChannel = watcher_loop looks inputs (w\<lparr>wt_stopped := False\<rparr>) kpChannel"

section \<open>The loop and the queue\<close>

text \<open>The key tasks and the pauses that one result of \<open>next\<close> leads to.\<close>

definition result_tasks :: "watch_error + string \<times> string option \<Rightarrow> keyTask list" where
  "result_tasks r =
     (case r of Inl _ \<Rightarrow> []
      | Inr (key, v) \<Rightarrow> [\<lparr>kt_key = key, kt_value = v, kt_metadata = [(''source'', ''watcher'')]\<rparr>])"

definition result_effects :: "watch_error + string \<times> string option \<Rightarrow> int \<Rightarrow> watch_effect list" where
  "result_effects r delay =
     (case r of
        Inl err \<Rightarrow> [if strings_Contains (watch_error_text err) ''connection refused'' then Slept 60 else Slept 1]
      | Inr _ \<Rightarrow> if delay > 0 then [Paused delay] else [])"

lemma watcher_singleRun_next:
  assumes "kw_next inputs (wt_kw w) = Ret (r, inputs', kw')"
  shows "watcher_singleRun delay inputs w ch =
    Ret (result_effects r delay, inputs', w\<lparr>wt_kw := kw'\<rparr>, ch @ result_tasks r)"
  using assms
  by (cases r) (auto simp: watcher_singleRun_def result_effects_def result_tasks_def v3_processKey_def)

lemma watcher_loop_results:
  assumes "kw_run (length rs) inputs (wt_kw w) = Ret (rs, inputs', kw')"
    and "length ds = length rs"
  shows "watcher_loop (map (Pair False) ds @ looks) inputs w ch =
    go_bind (watcher_loop looks inputs' (w\<lparr>wt_kw := kw'\<rparr>) (ch @ concat (map result_tasks rs)))
      (\<lambda>(effects, rest). Ret (concat (map2 result_effects rs ds) @ effects, rest))"
  using assms
proof (induction rs arbitrary: inputs w ch ds)
  case Nil
  then show ?case by (cases "watcher_loop looks inputs' (w\<lparr>wt_kw := kw'\<rparr>) ch") auto
next
  case (Cons r rs)
  obtain d ds' where ds: "ds = d # ds'" using Cons.prems(2) by (cases ds) auto
  obtain i1 kw1 where nx: "kw_next inputs (wt_kw w) = Ret (r, i1, kw1)"
    "kw_run (length rs) i1 kw1 = Ret (rs, inputs', kw')"
    using Cons.prems(1) by (auto simp: go_simps)
  have "watcher_loop (map (Pair False) ds' @ looks) i1 (w\<lparr>wt_kw := kw1\<rparr>) (ch @ result_tasks r) =
    go_bind (watcher_loop looks inputs' (w\<lparr>wt_kw := kw'\<rparr>) ((ch @ result_tasks r) @ concat (map result_tasks rs)))
      (\<lambda>(effects, rest). Ret (concat (map2 result_effects rs ds') @ effects, rest))"
    using Cons.IH [of i1 "w\<lparr>wt_kw := kw1\<rparr>" ds' "ch @ result_tasks r"] nx(2) Cons.prems(2) ds by simp
  then show ?case
    by (simp add: ds watcher_singleRun_next [OF nx(1)] split_def)
qed

section \<open>Properties\<close>

text \<open>
  C23. The watcher submits what the watch delivers: while it is not told to stop, every event of
  every response becomes exactly one key task, in order and with its value (none for a delete),
  every error becomes a sleep of a second, or of a minute when the connection was refused, and
  nothing else reaches the key processor. A look that sees the stop flag ends the loop.
\<close>

theorem watcher_submits_every_event:
  assumes "kw_inv (wt_kw w)"
    and "rs = map event_result (kw_events (wt_kw w)) @ concat (map watch_results inputs)"
    and "length delays = length rs"
  shows "\<exists>w'. watcher_run (map (Pair False) delays @ [(True, d)]) inputs w kpChannel =
      Ret (concat (map2 result_effects rs delays), [], w', kpChannel @ concat (map result_tasks rs)) \<and>
    wt_stopped w' \<and> kw_inv (wt_kw w')"
proof -
  obtain kw' where kw': "kw_run (length rs) inputs (wt_kw w) = Ret (rs, [], kw')" "kw_inv kw'"
    using kw_run_results [OF assms(1,2)] by blast
  show ?thesis
    using watcher_loop_results [of rs inputs "w\<lparr>wt_stopped := False\<rparr>" "[]" kw' delays "[(True, d)]" kpChannel]
      kw' assms(3) by (simp add: watcher_run_def)
qed

theorem watcher_submits_every_event_witness:
  "\<exists>w'. watcher_run (map (Pair False) [0, 5, 0] @ [(True, 0)])
     [WatchResponse (Some ''connection refused'') [],
      WatchResponse None [\<lparr>ev_delete = False, ev_key = ''/a'', ev_value = ''1'', ev_size = 3\<rparr>,
        \<lparr>ev_delete = True, ev_key = ''/b'', ev_value = [], ev_size = 2\<rparr>]] (newV3Watcher ''/'') [] =
     Ret ([Slept 60, Paused 5], [], w',
       [\<lparr>kt_key = ''/a'', kt_value = Some ''1'', kt_metadata = [(''source'', ''watcher'')]\<rparr>,
        \<lparr>kt_key = ''/b'', kt_value = None, kt_metadata = [(''source'', ''watcher'')]\<rparr>]) \<and> wt_stopped w'"
proof -
  let ?in = "[WatchResponse (Some ''connection refused'') [],
      WatchResponse None [\<lparr>ev_delete = False, ev_key = ''/a'', ev_value = ''1'', ev_size = 3\<rparr>,
        \<lparr>ev_delete = True, ev_key = ''/b'', ev_value = [], ev_size = 2\<rparr>]]"
  let ?rs = "[Inl (ResponseError ''connection refused''), Inr (''/a'', Some ''1''), Inr (''/b'', None)]"
  let ?ds = "[0, 5, 0] :: int list"
  have i: "kw_inv (wt_kw (newV3Watcher ''/''))" by (simp add: newV3Watcher_def)
  have r: "?rs = map event_result (kw_events (wt_kw (newV3Watcher ''/''))) @ concat (map watch_results ?in)"
    by (simp add: newV3Watcher_def newEtcdV3KeyWatcher_def watch_results_def event_result_def)
  have l: "length ?ds = length ?rs" by simp
  have "concat (map2 result_effects ?rs ?ds) = [Slept 60, Paused 5]"
    by (simp add: result_effects_def strings_HasPrefix_def)
  moreover have "concat (map result_tasks ?rs) =
     [\<lparr>kt_key = ''/a'', kt_value = Some ''1'', kt_metadata = [(''source'', ''watcher'')]\<rparr>,
      \<lparr>kt_key = ''/b'', kt_value = None, kt_metadata = [(''source'', ''watcher'')]\<rparr>]"
    by (simp add: result_tasks_def)
  ultimately show ?thesis
    using watcher_submits_every_event [OF i r l, of 0 "[]"] by (elim exE conjE) (simp only: append_Nil, blast)
qed

end
