(* ===== verification/Worker.thy ===== *)
theory Worker
  imports KeyProcessor Locks
begin

text \<open>
  \<open>rules/worker.go\<close>: what a worker does with a work item. A run of \<open>doWork\<close> is a function
  of what the outside gives it: the two batches of reads, the two looks at the stop flag, the lock
  state and what the callback does. It returns the events in their order, the lock state and how it
  ended; \<open>Diverge\<close> stands for a callback that does not return.
\<close>

named_theorems worker_simps "unfolding of the worker's run"

section \<open>Definitions\<close>

datatype work_event =
    EvSatisfiedThenNot string
  | EvLockFailed string
  | EvLocked string
  | EvUnlocked string "lock_error option"
  | EvQueueWait
  | EvCallback nat "(string \<times> string) list"
  | EvCallbackDone string attributes

text \<open>What a run meets: reads before and after the lock, the stop flag at both checks, the callback.\<close>

record work_env =
  we_api1 :: "string list \<Rightarrow> string + read_get"
  we_stopping1 :: bool
  we_api2 :: "string list \<Rightarrow> string + read_get"
  we_stopping2 :: bool
  we_callback :: "nat \<Rightarrow> unit go"
  we_listener :: bool

text \<open>The map of the attributes for the log; a nil attribute is dereferenced.\<close>

definition attr_map :: "string range_order \<Rightarrow> attributes \<Rightarrow> (string \<times> string) list go" where
  "attr_map ord a =
     go_collect (map (\<lambda>n. go_bind (GetAttribute a n)
       (\<lambda>p. case p of Some v \<Rightarrow> Ret (n, v) | None \<Rightarrow> Panic)) (names ord a))"

text \<open>The part of \<open>doWork\<close> between locking and unlocking. A nil callback is called like any other.\<close>

definition doWork_locked ::
  "string range_order \<Rightarrow> work_env \<Rightarrow> v3RuleWork \<Rightarrow> work_event list \<times> unit go" where
  "doWork_locked ord env work =
     (case we_api2 env (getKeys (w_rule work)) of
        Inl err1 \<Rightarrow> ([], Ret ())
      | Inr capi \<Rightarrow>
          (case satisfied (w_rule work) capi of
             Inl err1 \<Rightarrow> ([], Ret ())
           | Inr sat \<Rightarrow>
               let pre = (if \<not> sat then [EvSatisfiedThenNot ''worker.doWorkAfterLock''] else []) @ [EvQueueWait]
               in if sat \<and> \<not> we_stopping2 env then
                    (case getAttributes (w_rule work) of
                       Ret attributes \<Rightarrow>
                         (case attr_map ord attributes of
                            Ret attrMap \<Rightarrow>
                              (case w_ruleTaskCallback work of
                                 None \<Rightarrow> (pre, Panic)
                               | Some cb \<Rightarrow>
                                   (case we_callback env cb of
                                      Ret _ \<Rightarrow>
                                        (pre @ [EvCallback cb attrMap] @
                                         (if we_listener env then [EvCallbackDone (w_ruleID work) attributes] else []),
                                         Ret ())
                                    | Panic \<Rightarrow> (pre @ [EvCallback cb attrMap], Panic)
                                    | Diverge \<Rightarrow> (pre @ [EvCallback cb attrMap], Diverge)))
                          | Panic \<Rightarrow> (pre, Panic)
                          | Diverge \<Rightarrow> (pre, Diverge))
                     | Panic \<Rightarrow> (pre, Panic)
                     | Diverge \<Rightarrow> (pre, Diverge))
                  else (pre, Ret ())))"

definition doWork ::
  "string range_order \<Rightarrow> 'e etcd_api \<Rightarrow> rule_locker \<Rightarrow> work_env \<Rightarrow> v3RuleWork \<Rightarrow> 'e lock_state \<Rightarrow>
   work_event list \<times> 'e lock_state \<times> unit go" where
  "doWork ord api locker env work st =
     (case we_api1 env (getKeys (w_rule work)) of
        Inl err1 \<Rightarrow> ([], st, Ret ())
      | Inr capi \<Rightarrow>
          (case satisfied (w_rule work) capi of
             Inl err1 \<Rightarrow> ([], st, Ret ())
           | Inr sat \<Rightarrow>
               if \<not> sat \<or> we_stopping1 env then
                 (if \<not> sat then [EvSatisfiedThenNot ''worker.doWorkBeforeLock''] else [], st, Ret ())
               else
                 (case Lock api locker (w_lockKey work)
                         [PatternForLock (w_keyPattern work), MethodForLock ''worker_lock''] st of
                    (Inl err2, st1) \<Rightarrow> ([EvLockFailed (w_lockKey work)], st1, Ret ())
                  | (Inr l, st1) \<Rightarrow>
                      (case doWork_locked ord env work of
                         (events, Diverge) \<Rightarrow> (EvLocked (w_lockKey work) # events, st1, Diverge)
                       | (events, outcome) \<Rightarrow>
                           (case Unlock api l [] st1 of (err, st2) \<Rightarrow>
                              (EvLocked (w_lockKey work) # events @ [EvUnlocked (w_lockKey work) err], st2, outcome))))))"

text \<open>
  \<open>singleRun\<close>: the select on the \<open>done\<close> channel and the work channel, the copy of the
  metadata with the worker's ID, and the goroutine that runs the work and recovers from its panics.
  The context provider is called first; a nil provider panics.
\<close>

datatype worker_selection = SelectDone | SelectWork v3RuleWork

definition addWorkerID :: "string \<Rightarrow> (string, string) gomap \<Rightarrow> (string, string) gomap" where
  "addWorkerID workerID ruleContext = gm_put ruleContext ''rule_worker'' workerID"

definition worker_singleRun ::
  "string range_order \<Rightarrow> 'e etcd_api \<Rightarrow> rule_locker \<Rightarrow> string \<Rightarrow> bool \<Rightarrow> work_env \<Rightarrow> worker_selection \<Rightarrow>
   'e lock_state \<Rightarrow> work_event list \<times> 'e lock_state \<times> unit go" where
  "worker_singleRun ord api locker workerID stopping env selection st =
     (case selection of
        SelectDone \<Rightarrow> ([], st, Ret ())
      | SelectWork work \<Rightarrow>
          if stopping then ([], st, Ret ())
          else
            (let newMetadata = addWorkerID workerID (w_metadata work);
                 work' = work\<lparr>w_metadata := newMetadata\<rparr>
             in case w_contextProvider work of
                  None \<Rightarrow> ([], st, Ret ())
                | Some cp \<Rightarrow>
                    (case doWork ord api locker env work' st of (events, st', outcome) \<Rightarrow>
                       (events, st', case outcome of Diverge \<Rightarrow> Diverge | _ \<Rightarrow> Ret ()))))"

section \<open>Attributes\<close>

lemma GetAttribute_eq: "attr_wf a \<Longrightarrow> GetAttribute a n = Ret (attr_lookup a n)"
proof -
  have "GetAttribute a n = FindAttribute a n"
    by (induction a) (auto split: option.splits)
  then show "attr_wf a \<Longrightarrow> GetAttribute a n = Ret (attr_lookup a n)" by (simp add: attr_wf_find)
qed

lemma attr_lookup_names: "attr_wf a \<Longrightarrow> n \<in> set (names ord a) \<Longrightarrow> attr_lookup a n \<noteq> None"
proof (induction a)
  case (RegexKeyMatch ms fm)
  then obtain i where "gm_get fm n = Some i" "i < length ms"
    by (auto simp: list_all_iff gm_get_None_iff split: option.splits dest!: bspec)
      (metis gm_get_None_iff option.exhaust)
  then show ?case by (simp add: attr_lookup_def go_index_def)
next
  case (MapAttributes kvs)
  then show ?case by (simp add: attr_lookup_def gm_get_None_iff)
next
  case (NestingAttributes a as)
  have "nesting_find as n \<noteq> None" if "n \<in> attr_key ` set as"
    using that by (induction as) auto
  then show ?case using NestingAttributes by (auto simp: attr_lookup_nesting split: option.splits)
qed

lemma attr_map_Ret:
  assumes "attr_wf a"
  shows "attr_map ord a = Ret (map (\<lambda>n. (n, the (attr_lookup a n))) (names ord a))"
  unfolding attr_map_def
proof (rule go_collect_cong_Ret)
  fix n assume "n \<in> set (names ord a)"
  then obtain v where "attr_lookup a n = Some v" using attr_lookup_names [OF assms] by blast
  then show "go_bind (GetAttribute a n) (\<lambda>p. case p of Some v \<Rightarrow> Ret (n, v) | None \<Rightarrow> Panic) =
      Ret (n, the (attr_lookup a n))" by (simp add: GetAttribute_eq [OF assms])
qed

section \<open>Runs\<close>

text \<open>The rule as the given batch of reads sees it.\<close>

definition sees_satisfied :: "(string list \<Rightarrow> string + read_get) \<Rightarrow> static_rule \<Rightarrow> bool" where
  "sees_satisfied getCachedAPI rule \<longleftrightarrow>
     (case getCachedAPI (getKeys rule) of Inr capi \<Rightarrow> satisfied rule capi = Inr True | Inl _ \<Rightarrow> False)"

abbreviation work_lock ::
  "'e etcd_api \<Rightarrow> rule_locker \<Rightarrow> v3RuleWork \<Rightarrow> 'e lock_state \<Rightarrow> (lock_error + rule_lock) \<times> 'e lock_state" where
  "work_lock api locker work st \<equiv>
     Lock api locker (w_lockKey work) [PatternForLock (w_keyPattern work), MethodForLock ''worker_lock''] st"

lemma doWork_not_locked:
  assumes "\<not> (sees_satisfied (we_api1 env) (w_rule work) \<and> \<not> we_stopping1 env)"
  shows "doWork ord api locker env work st = (fst (doWork ord api locker env work st), st, Ret ())"
    and "set (fst (doWork ord api locker env work st)) \<subseteq> {EvSatisfiedThenNot ''worker.doWorkBeforeLock''}"
  using assms by (auto simp: doWork_def sees_satisfied_def split: sum.splits)

lemma doWork_lock_failed:
  assumes "sees_satisfied (we_api1 env) (w_rule work)" and "\<not> we_stopping1 env"
    and "work_lock api locker work st = (Inl err, st1)"
  shows "doWork ord api locker env work st = ([EvLockFailed (w_lockKey work)], st1, Ret ())"
  using assms by (auto simp: doWork_def sees_satisfied_def split: sum.splits)

lemma doWork_with_lock:
  assumes "sees_satisfied (we_api1 env) (w_rule work)" and "\<not> we_stopping1 env"
    and "work_lock api locker work st = (Inr l, st1)"
    and "doWork_locked ord env work = (events, outcome)" and "outcome \<noteq> Diverge"
  shows "doWork ord api locker env work st =
    (EvLocked (w_lockKey work) # events @ [EvUnlocked (w_lockKey work) (fst (Unlock api l [] st1))],
     snd (Unlock api l [] st1), outcome)"
  using assms by (cases outcome) (auto simp: doWork_def sees_satisfied_def case_prod_beta split: sum.splits)

lemma doWork_diverges:
  assumes "sees_satisfied (we_api1 env) (w_rule work)" and "\<not> we_stopping1 env"
    and "work_lock api locker work st = (Inr l, st1)"
    and "doWork_locked ord env work = (events, Diverge)"
  shows "doWork ord api locker env work st = (EvLocked (w_lockKey work) # events, st1, Diverge)"
  using assms by (auto simp: doWork_def sees_satisfied_def split: sum.splits)

lemma doWork_locked_events:
  "set (fst (doWork_locked ord env work)) \<subseteq>
     {EvSatisfiedThenNot ''worker.doWorkAfterLock'', EvQueueWait} \<union>
     {e. \<exists>cb m. e = EvCallback cb m} \<union> {e. \<exists>i a. e = EvCallbackDone i a}"
  by (auto simp: doWork_locked_def Let_def split: sum.splits go.splits option.splits if_splits)

lemma doWork_locked_callback:
  assumes "EvCallback cb m \<in> set (fst (doWork_locked ord env work))"
  shows "sees_satisfied (we_api2 env) (w_rule work) \<and> \<not> we_stopping2 env \<and> w_ruleTaskCallback work = Some cb"
  using assms
  by (auto simp: doWork_locked_def sees_satisfied_def Let_def
      split: sum.splits go.splits option.splits if_splits)

lemma doWork_locked_runs:
  assumes "sees_satisfied (we_api2 env) (w_rule work)" and "\<not> we_stopping2 env"
    and "w_ruleTaskCallback work = Some cb" and "getAttributes (w_rule work) = Ret a" and "attr_wf a"
  shows "EvCallback cb (map (\<lambda>n. (n, the (attr_lookup a n))) (names ord a)) \<in> set (fst (doWork_locked ord env work))"
  using assms
  by (auto simp: doWork_locked_def sees_satisfied_def Let_def attr_map_Ret split: sum.splits go.splits)

lemma doWork_callback_ex:
  assumes "sees_satisfied (we_api1 env) (w_rule work)" and "sees_satisfied (we_api2 env) (w_rule work)"
    and "\<not> we_stopping1 env" and "\<not> we_stopping2 env"
    and "\<not> isl (fst (work_lock api locker work st))"
    and "w_ruleTaskCallback work = Some cb" and "getAttributes (w_rule work) = Ret a" and "attr_wf a"
  shows "\<exists>m. EvCallback cb m \<in> set (fst (doWork ord api locker env work st)) \<and>
    m = map (\<lambda>n. (n, the (attr_lookup a n))) (names ord a)"
proof -
  let ?m = "map (\<lambda>n. (n, the (attr_lookup a n))) (names ord a)"
  obtain l st1 where lock: "work_lock api locker work st = (Inr l, st1)"
    using assms(5) by (metis Inr_projr prod.collapse)
  obtain body out where body: "doWork_locked ord env work = (body, out)" by fastforce
  have "EvCallback cb ?m \<in> set body"
    using doWork_locked_runs [OF assms(2,4,6,7,8), of ord] body by simp
  then show ?thesis
    using doWork_with_lock [OF assms(1,3) lock body] doWork_diverges [OF assms(1,3) lock, of ord body] body
    by (cases "out = Diverge") auto
qed

section \<open>Properties\<close>

text \<open>
  C10. The callback of a work item runs only under the lock and only if the rule was seen satisfied
  twice, before and after the lock was taken, while the worker was not stopping; and when the run
  ends, be it by a panic of the callback, the last thing it did was to unlock, once, the lock it
  had taken.
\<close>

theorem doWork_callback_guarded:
  assumes "doWork ord api locker env work st = (events, st', outcome)" and "EvCallback cb m \<in> set events"
  shows "sees_satisfied (we_api1 env) (w_rule work) \<and> sees_satisfied (we_api2 env) (w_rule work) \<and>
    \<not> we_stopping1 env \<and> \<not> we_stopping2 env \<and> w_ruleTaskCallback work = Some cb \<and>
    (\<exists>l st1 body. work_lock api locker work st = (Inr l, st1) \<and> EvCallback cb m \<in> set body \<and>
       (\<forall>k e. EvUnlocked k e \<notin> set body) \<and> (\<forall>k. EvLocked k \<notin> set body) \<and>
       (outcome \<noteq> Diverge \<longrightarrow> st' = snd (Unlock api l [] st1) \<and>
          events = EvLocked (w_lockKey work) # body @ [EvUnlocked (w_lockKey work) (fst (Unlock api l [] st1))]))"
proof -
  have sees: "sees_satisfied (we_api1 env) (w_rule work)" "\<not> we_stopping1 env"
    using doWork_not_locked [of env work ord api locker st] assms by auto
  obtain r st1 where lock: "work_lock api locker work st = (r, st1)" by fastforce
  have "\<not> isl r" using doWork_lock_failed [OF sees, of api locker st _ st1 ord] lock assms by (cases r) auto
  then obtain l where l: "r = Inr l" by (cases r) auto
  note lock = lock [unfolded l]
  obtain body out where body: "doWork_locked ord env work = (body, out)" by fastforce
  have cb: "EvCallback cb m \<in> set body" and out: "outcome = out"
    using assms doWork_with_lock [OF sees lock body] doWork_diverges [OF sees lock, of ord body] body
    by (cases out; auto)+
  have "events = EvLocked (w_lockKey work) # body @ [EvUnlocked (w_lockKey work) (fst (Unlock api l [] st1))] \<and>
      st' = snd (Unlock api l [] st1)" if "outcome \<noteq> Diverge"
    using doWork_with_lock [OF sees lock body] that assms(1) out by simp
  moreover have "\<forall>k e. EvUnlocked k e \<notin> set body" "\<forall>k. EvLocked k \<notin> set body"
    using doWork_locked_events [of ord env work] body by auto
  ultimately show ?thesis
    using sees doWork_locked_callback [of cb m ord env work] cb body lock by auto
qed

theorem doWork_callback_guarded_witness:
  "let rule = CompareLiteralRule (MapAttributes [(''x'', ''7'')]) ''/a/7'' (newEqualsComparator (Some ''1'')) ''%s'';
       work = \<lparr>w_rule = rule, w_ruleID = ''id'', w_attr = MapAttributes [(''x'', ''7'')], w_metadata = [],
         w_ruleTaskCallback = Some 42, w_ruleIndex = 0, w_lockKey = ''/lock/7'', w_keyPattern = ''/lock/:x'',
         w_contextProvider = Some 0\<rparr>;
       reads = (\<lambda>keys. Inr (cacheReadAPI_get [(''/a/7'', ''1'')]));
       env = \<lparr>we_api1 = reads, we_stopping1 = False, we_api2 = reads, we_stopping2 = False,
         we_callback = (\<lambda>_. Panic), we_listener = False\<rparr>;
       st = \<lparr>ls_maps = (\<lambda>_. []), ls_cooloff = (\<lambda>_. []), ls_now = 0, ls_etcd = (), ls_events = []\<rparr>;
       run = doWork insertion_order undefined (ToggleLockerAdapter 0) env work st
   in EvCallback 42 [(''x'', ''7'')] \<in> set (fst run) \<and> sees_satisfied (we_api2 env) rule \<and>
      w_ruleTaskCallback work = Some 42 \<and>
      fst run = [EvLocked ''/lock/7'', EvQueueWait, EvCallback 42 [(''x'', ''7'')], EvUnlocked ''/lock/7'' None]"
proof -
  let ?rule = "CompareLiteralRule (MapAttributes [(''x'', ''7'')]) ''/a/7'' (newEqualsComparator (Some ''1'')) ''%s''"
  let ?work = "\<lparr>w_rule = ?rule, w_ruleID = ''id'', w_attr = MapAttributes [(''x'', ''7'')], w_metadata = [],
    w_ruleTaskCallback = Some 42, w_ruleIndex = 0, w_lockKey = ''/lock/7'', w_keyPattern = ''/lock/:x'',
    w_contextProvider = Some 0\<rparr>"
  let ?reads = "\<lambda>keys :: string list. Inr (cacheReadAPI_get [(''/a/7'', ''1'')]) :: string + read_get"
  let ?env = "\<lparr>we_api1 = ?reads, we_stopping1 = False, we_api2 = ?reads, we_stopping2 = False,
    we_callback = (\<lambda>_. Panic), we_listener = False\<rparr>"
  let ?st = "\<lparr>ls_maps = (\<lambda>_. []), ls_cooloff = (\<lambda>_. []), ls_now = 0, ls_etcd = (), ls_events = []\<rparr> :: unit lock_state"
  let ?run = "doWork insertion_order undefined (ToggleLockerAdapter 0) ?env ?work ?st"
  let ?tr = "[EvLocked ''/lock/7'', EvQueueWait, EvCallback 42 [(''x'', ''7'')], EvUnlocked ''/lock/7'' None]"
  have "fst ?run = ?tr"
    by (simp add: doWork_def doWork_locked_def newEqualsComparator_def cacheReadAPI_get_def gm_get_def
        toggle_Lock_def toggle_Unlock_def toggle_def Let_def attr_map_def gm_keys_def)
  moreover have run: "?run = (fst ?run, fst (snd ?run), snd (snd ?run))" by simp
  ultimately have cb: "EvCallback 42 [(''x'', ''7'')] \<in> set (fst ?run)" by simp
  show ?thesis
    using doWork_callback_guarded [OF run cb] cb \<open>fst ?run = ?tr\<close> unfolding Let_def by simp
qed

text \<open>
  A worker does run the callback: if both batches of reads see the rule satisfied, the worker is
  not stopping and the lock is free, the callback of the work item is called, with every attribute
  of the rule in its map.
\<close>

theorem doWork_runs_callback:
  assumes "sees_satisfied (we_api1 env) (w_rule work)" and "sees_satisfied (we_api2 env) (w_rule work)"
    and "\<not> we_stopping1 env" and "\<not> we_stopping2 env"
    and "\<not> isl (fst (work_lock api locker work st))"
    and "w_ruleTaskCallback work = Some cb" and "getAttributes (w_rule work) = Ret a" and "attr_wf a"
  shows "\<exists>m. EvCallback cb m \<in> set (fst (doWork ord api locker env work st)) \<and>
    (\<forall>n \<in> set (names ord a). \<exists>v. FindAttribute a n = Ret (Some v) \<and> (n, v) \<in> set m)"
proof -
  let ?m = "map (\<lambda>n. (n, the (attr_lookup a n))) (names ord a)"
  have "EvCallback cb ?m \<in> set (fst (doWork ord api locker env work st))"
    using doWork_callback_ex [OF assms] by simp
  moreover have "\<exists>v. FindAttribute a n = Ret (Some v) \<and> (n, v) \<in> set ?m" if "n \<in> set (names ord a)" for n
    using attr_lookup_names [OF assms(8) that] that by (force simp: attr_wf_find [OF assms(8)])
  ultimately show ?thesis by blast
qed

theorem doWork_runs_callback_witness:
  "let rule = CompareLiteralRule (MapAttributes [(''x'', ''7'')]) ''/a/7'' (newEqualsComparator (Some ''1'')) ''%s'';
       work = \<lparr>w_rule = rule, w_ruleID = ''id'', w_attr = MapAttributes [(''x'', ''7'')], w_metadata = [],
         w_ruleTaskCallback = Some 42, w_ruleIndex = 0, w_lockKey = ''/lock/7'', w_keyPattern = ''/lock/:x'',
         w_contextProvider = Some 0\<rparr>;
       reads = (\<lambda>keys. Inr (cacheReadAPI_get [(''/a/7'', ''1'')]));
       env = \<lparr>we_api1 = reads, we_stopping1 = False, we_api2 = reads, we_stopping2 = False,
         we_callback = (\<lambda>_. Diverge), we_listener = False\<rparr>;
       st = \<lparr>ls_maps = (\<lambda>_. []), ls_cooloff = (\<lambda>_. []), ls_now = 0, ls_etcd = (), ls_events = []\<rparr>
   in \<exists>m. EvCallback 42 m \<in> set (fst (doWork insertion_order undefined (ToggleLockerAdapter 0) env work st))"
proof -
  let ?rule = "CompareLiteralRule (MapAttributes [(''x'', ''7'')]) ''/a/7'' (newEqualsComparator (Some ''1'')) ''%s''"
  let ?work = "\<lparr>w_rule = ?rule, w_ruleID = ''id'', w_attr = MapAttributes [(''x'', ''7'')], w_metadata = [],
    w_ruleTaskCallback = Some 42, w_ruleIndex = 0, w_lockKey = ''/lock/7'', w_keyPattern = ''/lock/:x'',
    w_contextProvider = Some 0\<rparr>"
  let ?reads = "\<lambda>keys :: string list. Inr (cacheReadAPI_get [(''/a/7'', ''1'')]) :: string + read_get"
  let ?env = "\<lparr>we_api1 = ?reads, we_stopping1 = False, we_api2 = ?reads, we_stopping2 = False,
    we_callback = (\<lambda>_. Diverge), we_listener = False\<rparr>"
  let ?st = "\<lparr>ls_maps = (\<lambda>_. []), ls_cooloff = (\<lambda>_. []), ls_now = 0, ls_etcd = (), ls_events = []\<rparr> :: unit lock_state"
  have sees: "sees_satisfied (we_api1 ?env) (w_rule ?work)" "sees_satisfied (we_api2 ?env) (w_rule ?work)"
    by (simp_all add: sees_satisfied_def newEqualsComparator_def cacheReadAPI_get_def gm_get_def)
  have stop: "\<not> we_stopping1 ?env" "\<not> we_stopping2 ?env" by simp_all
  have lock: "\<not> isl (fst (work_lock undefined (ToggleLockerAdapter 0) ?work ?st))"
    by (simp add: toggle_Lock_def toggle_def Let_def gm_get_def)
  have cb: "w_ruleTaskCallback ?work = Some 42" by simp
  have at: "getAttributes (w_rule ?work) = Ret (MapAttributes [(''x'', ''7'')])" by simp
  have wf: "attr_wf (MapAttributes [(''x'', ''7'')])" by simp
  show ?thesis
    using doWork_runs_callback [OF sees stop lock cb at wf, of insertion_order] unfolding Let_def by blast
qed

end
