(* ===== verification/Engine.thy ===== *)
theory Engine
  imports Options Crawler Watcher Worker
begin

text \<open>
  \<open>rules/engine.go\<close> without its shutdown (theory \<open>Shutdown\<close>): the engine's state, the
  registration of rules with their options, key expansion and polling, and the parts that \<open>Run\<close>
  starts. The state includes the memory cells of the rule objects, since rules are pointers.

  The engine holds a copy of the rule manager whose address it gave to the key processor: the two
  copies have their own list of rules and prefixes, but share the index by slash counts, which is a
  map.
\<close>

named_theorems engine_simps "fields of an engine after an operation"

section \<open>Definitions\<close>

record v3Engine =
  en_options :: engineOptions
  en_ruleLockTTLs :: "(nat, int) gomap"
  en_ruleMgr :: ruleManager
  en_keyProc :: v3KeyProcessor
  en_locker :: rule_locker
  en_heap :: rule_heap
  en_next :: rule_ptr

text \<open>
  \<open>newV3Engine\<close>; a channel cannot have a negative buffer. The cells of the rule objects are empty
  at first (their contents do not matter).
\<close>

definition newV3Engine :: "engineOption list \<Rightarrow> nat \<Rightarrow> nat \<Rightarrow> v3Engine go" where
  "newV3Engine options mapAddr coolOffAddr =
     (let opts = makeEngineOptions options;
          ruleMgr = newRuleManager (eo_constraints opts) (eo_enhancedRuleFilter opts)
      in if eo_ruleWorkBuffer opts < 0 \<or> eo_keyProcBuffer opts < 0 then Panic
         else Ret \<lparr>en_options = opts, en_ruleLockTTLs = [], en_ruleMgr = ruleMgr,
                   en_keyProc = newV3KeyProcessor ruleMgr,
                   en_locker = engine_locker (eo_dontUseSharedLockSession opts) (eo_useTryLock opts)
                     (eo_lockCoolOff opts) mapAddr coolOffAddr,
                   en_heap = (\<lambda>_. NewAndRule insertion_order []), en_next = 0\<rparr>)"

text \<open>A new rule object.\<close>

definition new_rule :: "dynamic_rule \<Rightarrow> v3Engine \<Rightarrow> rule_ptr \<times> v3Engine" where
  "new_rule r en = (en_next en, en\<lparr>en_heap := (en_heap en)(en_next en := r), en_next := Suc (en_next en)\<rparr>)"

primrec new_rules :: "dynamic_rule list \<Rightarrow> v3Engine \<Rightarrow> rule_ptr list \<times> v3Engine" where
  "new_rules [] en = ([], en)"
| "new_rules (r # rs) en =
     (case new_rule r en of (p, en1) \<Rightarrow> case new_rules rs en1 of (ps, en2) \<Rightarrow> (p # ps, en2))"

text \<open>The manager after a call of \<open>addRule\<close>, and what the key processor's copy sees of it.\<close>

definition set_manager :: "ruleManager \<Rightarrow> v3Engine \<Rightarrow> v3Engine" where
  "set_manager rm en =
     en\<lparr>en_ruleMgr := rm,
        en_keyProc := (en_keyProc en)\<lparr>kp_rm := (kp_rm (en_keyProc en))\<lparr>rm_rulesBySlashCount := rm_rulesBySlashCount rm\<rparr>\<rparr>\<rparr>"

text \<open>
  \<open>addRule\<close>: the engine and how the call ended. The manager's \<open>addRule\<close> panics, after it has
  indexed the rule, for a constraint without characters; the engine's panics, after the rule has
  been registered, when the ID is missing. A nil context provider reads like an absent entry.
\<close>

definition engine_addRule ::
  "string range_order \<Rightarrow> v3Engine \<Rightarrow> rule_ptr \<Rightarrow> string \<Rightarrow> callback \<Rightarrow> ruleOption list \<Rightarrow> v3Engine \<times> unit go" where
  "engine_addRule ord en rule lockPattern cb options =
     (let rm = en_ruleMgr en
      in case addRule ord (en_heap en) rm rule of
           Panic \<Rightarrow>
             (set_manager (rm\<lparr>rm_rules := rm_rules rm @ [rule],
                rm_rulesBySlashCount := fold (index_pattern rule (rm_currentIndex rm))
                  (getPatterns (en_heap en rule)) (rm_rulesBySlashCount rm)\<rparr>) en, Panic)
         | Diverge \<Rightarrow> (en, Diverge)
         | Ret (rm', ruleIndex) \<Rightarrow>
             (let en1 = set_manager rm' en;
                  opts = makeRuleOptions options;
                  ttl = (if ro_lockTimeout opts > 0 then ro_lockTimeout opts else eo_lockTimeout (en_options en1));
                  cp = (case ro_contextProvider opts of None \<Rightarrow> eo_contextProvider (en_options en1) | Some c \<Rightarrow> Some c)
              in if ro_ruleID opts = defaultRuleID then (en1, Panic)
                 else
                   (let kp1 = setLockKeyPattern (setCallback (en_keyProc en1) ruleIndex cb) ruleIndex lockPattern;
                        kp2 = (case cp of Some c \<Rightarrow> setContextProvider kp1 ruleIndex c | None \<Rightarrow> kp1);
                        kp3 = setRuleID kp2 ruleIndex (ro_ruleID opts)
                    in (en1\<lparr>en_ruleLockTTLs := gm_put (en_ruleLockTTLs en1) ruleIndex ttl, en_keyProc := kp3\<rparr>, Ret ()))))"

primrec add_rules ::
  "string range_order \<Rightarrow> string \<Rightarrow> callback \<Rightarrow> ruleOption list \<Rightarrow> rule_ptr list \<Rightarrow> v3Engine \<Rightarrow> v3Engine \<times> unit go" where
  "add_rules ord lockPattern cb options [] en = (en, Ret ())"
| "add_rules ord lockPattern cb options (p # ps) en =
     (case engine_addRule ord en p lockPattern cb options of
        (en1, Ret _) \<Rightarrow> add_rules ord lockPattern cb options ps en1
      | (en1, Panic) \<Rightarrow> (en1, Panic)
      | (en1, Diverge) \<Rightarrow> (en1, Diverge))"

text \<open>
  \<open>AddRule\<close> (\<open>addRuleWithIface\<close>), with the budget of \<open>Expand\<close>. A rule that has nothing to
  expand is returned itself, otherwise all rules are new objects.
\<close>

definition AddRule ::
  "string range_order \<Rightarrow> nat \<Rightarrow> v3Engine \<Rightarrow> rule_ptr \<Rightarrow> string \<Rightarrow> callback \<Rightarrow> ruleOption list \<Rightarrow> v3Engine \<times> unit go" where
  "AddRule ord n en rule lockPattern cb options =
     (case eo_keyExpansion (en_options en) of
        Some (kv # kvs) \<Rightarrow>
          (case Expand ord n (en_heap en rule) (kv # kvs) of
             Ret (rules, expanded) \<Rightarrow>
               (case (if expanded then new_rules rules en else ([rule], en)) of
                  (ps, en1) \<Rightarrow> add_rules ord lockPattern cb options ps en1)
           | Panic \<Rightarrow> (en, Panic)
           | Diverge \<Rightarrow> (en, Diverge))
      | _ \<Rightarrow> engine_addRule ord en rule lockPattern cb options)"

definition pollingNamespace :: "string \<Rightarrow> string" where
  "pollingNamespace namespacePattern =
     (if strings_HasSuffix namespacePattern ''/'' then namespacePattern else namespacePattern @ ''/'')"

text \<open>\<open>AddPolling\<close>; the callback is the method \<open>doRule\<close> of a wrapper, here the number \<open>cbw\<close>.\<close>

definition AddPolling ::
  "string range_order \<Rightarrow> nat \<Rightarrow> v3Engine \<Rightarrow> string \<Rightarrow> rule_ptr \<Rightarrow> callback \<Rightarrow> v3Engine \<times> rule_error option go" where
  "AddPolling ord n en namespacePattern preconditions cbw =
     (let ns = pollingNamespace namespacePattern;
          ttlPathPattern = ns @ ''ttl''
      in case NewEqualsLiteralRule ttlPathPattern None of
           Inl err \<Rightarrow> (en, Ret (Some err))
         | Inr ttlRule \<Rightarrow>
             (case new_rule (NewAndRule ord [en_heap en preconditions, ttlRule]) en of (rule, en1) \<Rightarrow>
                (case AddRule ord n en1 rule (''/rule_locks'' @ ns @ ''lock'') cbw [RuleID ns] of
                   (en2, outcome) \<Rightarrow> (en2, go_bind outcome (\<lambda>_. Ret None)))))"

text \<open>
  \<open>doRule\<close> of the polling wrapper: the user's callback, then the key with a lease. The lease and the
  put are answers of the client.
\<close>

datatype poll_effect =
    PollCallback callback
  | PollGrant int
  | PollPut string string nat

definition doRule ::
  "callback \<Rightarrow> int \<Rightarrow> string \<Rightarrow> attributes \<Rightarrow> unit go \<Rightarrow> string + nat \<Rightarrow> poll_effect list \<times> unit go" where
  "doRule cb ttl ttlPathPattern attr cbResult leaseResp =
     (case cbResult of
        Panic \<Rightarrow> ([PollCallback cb], Panic)
      | Diverge \<Rightarrow> ([PollCallback cb], Diverge)
      | Ret _ \<Rightarrow>
          (case FormatWithAttributes ttlPathPattern attr of
             Panic \<Rightarrow> ([PollCallback cb], Panic)
           | Diverge \<Rightarrow> ([PollCallback cb], Diverge)
           | Ret path \<Rightarrow>
               (case leaseResp of
                  Inl leaseErr \<Rightarrow> ([PollCallback cb, PollGrant ttl], Ret ())
                | Inr leaseID \<Rightarrow> ([PollCallback cb, PollGrant ttl, PollPut path [] leaseID], Ret ()))))"

definition getLockTTLForRule :: "v3Engine \<Rightarrow> nat \<Rightarrow> int" where
  "getLockTTLForRule en index = (case gm_get (en_ruleLockTTLs en) index of Some t \<Rightarrow> t | None \<Rightarrow> 0)"

text \<open>What \<open>Run\<close> starts: a watcher for each prefix, one crawler for all of them, the workers.\<close>

fun fmt_nat :: "nat \<Rightarrow> string" where
  "fmt_nat n = (if n < 10 then [char_of (48 + n)] else fmt_nat (n div 10) @ [char_of (48 + n mod 10)])"

declare fmt_nat.simps [simp del]

record engine_parts =
  ep_watchers :: "watcher list"
  ep_crawler :: intCrawler
  ep_workers :: "string list"

definition engine_Run :: "string range_order \<Rightarrow> v3Engine \<Rightarrow> engine_parts" where
  "engine_Run ord en =
     (let prefixSlice = range_in ord (gm_keys (rm_prefixes (en_ruleMgr en)))
      in \<lparr>ep_watchers = map newV3Watcher prefixSlice,
          ep_crawler = newIntCrawler (eo_crawlMutex (en_options en)) prefixSlice,
          ep_workers = map (\<lambda>i. ''worker'' @ fmt_nat i) [0..<nat (eo_concurrency (en_options en))]\<rparr>)"

section \<open>Registration\<close>

text \<open>The settings of a rule, as the key processor and the engine hold them under its index.\<close>

definition registered :: "v3Engine \<Rightarrow> nat \<Rightarrow> string \<Rightarrow> callback \<Rightarrow> string \<Rightarrow> int \<Rightarrow> contextProvider option \<Rightarrow> bool" where
  "registered en i lockPattern cb ruleID ttl cp \<longleftrightarrow>
     gm_get (kp_callbacks (en_keyProc en)) i = Some cb \<and>
     gm_get (kp_lockKeyPatterns (en_keyProc en)) i = Some lockPattern \<and>
     gm_get (kp_ruleIDs (en_keyProc en)) i = Some ruleID \<and>
     gm_get (kp_contextProviders (en_keyProc en)) i = cp \<and>
     gm_get (en_ruleLockTTLs en) i = Some ttl"

definition rule_ttl :: "v3Engine \<Rightarrow> ruleOption list \<Rightarrow> int" where
  "rule_ttl en options =
     (if ro_lockTimeout (makeRuleOptions options) > 0 then ro_lockTimeout (makeRuleOptions options)
      else eo_lockTimeout (en_options en))"

definition rule_provider :: "v3Engine \<Rightarrow> ruleOption list \<Rightarrow> contextProvider option" where
  "rule_provider en options =
     (case ro_contextProvider (makeRuleOptions options) of None \<Rightarrow> eo_contextProvider (en_options en) | Some c \<Rightarrow> Some c)"

text \<open>
  The engine's consistency. If the engine has a context provider, every rule has one. Indices beyond
  the registered rules have no settings.
\<close>

definition engine_inv :: "string range_order \<Rightarrow> v3Engine \<Rightarrow> bool" where
  "engine_inv ord en \<longleftrightarrow>
     managed ord (en_heap en) (eo_constraints (en_options en)) (eo_enhancedRuleFilter (en_options en)) (en_ruleMgr en) \<and>
     rm_rulesBySlashCount (kp_rm (en_keyProc en)) = rm_rulesBySlashCount (en_ruleMgr en) \<and>
     rm_enhancedRuleFilter (kp_rm (en_keyProc en)) = rm_enhancedRuleFilter (en_ruleMgr en) \<and>
     (\<forall>r \<in> set (rm_rules (en_ruleMgr en)). r < en_next en) \<and>
     (\<forall>i < length (rm_rules (en_ruleMgr en)). \<exists>lp cb ruleID ttl cp.
        registered en i lp cb ruleID ttl cp \<and> ruleID \<noteq> defaultRuleID \<and>
        (eo_contextProvider (en_options en) \<noteq> None \<longrightarrow> cp \<noteq> None)) \<and>
     (\<forall>i \<ge> length (rm_rules (en_ruleMgr en)). gm_get (kp_contextProviders (en_keyProc en)) i = None)"

lemma managed_heap_cong:
  "managed ord heap cs enhanced rm \<Longrightarrow> (\<And>r. r \<in> set (rm_rules rm) \<Longrightarrow> heap' r = heap r) \<Longrightarrow>
     managed ord heap' cs enhanced rm"
proof (induction rule: managed.induct)
  case managed_new
  show ?case by (rule managed.managed_new)
next
  case (managed_add rm rule rm' i)
  have rules: "rm_rules rm' = rm_rules rm @ [rule]" using managed_add.hyps(2) by (rule addRule_Ret)
  then have "managed ord heap' cs enhanced rm" using managed_add by simp
  moreover have "addRule ord heap' rm rule = Ret (rm', i)"
    using managed_add.hyps(2) managed_add.prems [of rule] rules by (simp add: addRule_def)
  ultimately show ?case by (rule managed.managed_add)
qed

lemma engine_inv_new: "newV3Engine options a c = Ret en \<Longrightarrow> engine_inv ord en"
  by (auto simp: newV3Engine_def engine_inv_def newV3KeyProcessor_def newRuleManager_def Let_def
      intro: managed.managed_new [unfolded newRuleManager_def] split: if_splits)

lemma engine_inv_new_rule:
  assumes "engine_inv ord en" and "new_rule r en = (p, en')"
  shows "engine_inv ord en'" and "p < en_next en'" and "en_heap en' p = r" and "en_options en' = en_options en"
    and "en_next en' = Suc (en_next en)" and "en_ruleMgr en' = en_ruleMgr en"
proof -
  have en': "en' = en\<lparr>en_heap := (en_heap en)(en_next en := r), en_next := Suc (en_next en)\<rparr>" "p = en_next en"
    using assms(2) unfolding new_rule_def by blast+
  have "managed ord ((en_heap en)(en_next en := r)) (eo_constraints (en_options en))
      (eo_enhancedRuleFilter (en_options en)) (en_ruleMgr en)"
    by (rule managed_heap_cong [of ord "en_heap en"]) (use assms(1) in \<open>auto simp: engine_inv_def\<close>)
  then show "engine_inv ord en'"
    using assms(1) by (auto simp: en' engine_inv_def registered_def less_Suc_eq)
qed (use assms(2) in \<open>auto simp: new_rule_def\<close>)

lemma engine_inv_new_rules:
  "engine_inv ord en \<Longrightarrow> new_rules rs en = (ps, en') \<Longrightarrow>
     engine_inv ord en' \<and> (\<forall>p \<in> set ps. p < en_next en') \<and> en_next en \<le> en_next en' \<and> en_options en' = en_options en"
proof (induction rs arbitrary: en ps)
  case (Cons r rs)
  obtain p en1 where p: "new_rule r en = (p, en1)" by fastforce
  obtain ps' where ps': "new_rules rs en1 = (ps', en')" "ps = p # ps'"
    using Cons.prems(2) p by (auto split: prod.splits)
  note one = engine_inv_new_rule [OF Cons.prems(1) p]
  show ?case using Cons.IH [OF one(1) ps'(1)] one ps'(2) by auto
qed simp

text \<open>What a call of \<open>addRule\<close> that returns has done.\<close>

definition processor_after ::
  "v3Engine \<Rightarrow> ruleManager \<Rightarrow> nat \<Rightarrow> string \<Rightarrow> callback \<Rightarrow> ruleOption list \<Rightarrow> v3KeyProcessor" where
  "processor_after en rm' i lp cb options =
     (let kp = en_keyProc en
      in \<lparr>kp_contextProviders = (case rule_provider en options of
            Some c \<Rightarrow> gm_put (kp_contextProviders kp) i c | None \<Rightarrow> kp_contextProviders kp),
          kp_lockKeyPatterns = gm_put (kp_lockKeyPatterns kp) i lp,
          kp_ruleIDs = gm_put (kp_ruleIDs kp) i (ro_ruleID (makeRuleOptions options)),
          kp_rm = (kp_rm kp)\<lparr>rm_rulesBySlashCount := rm_rulesBySlashCount rm'\<rparr>,
          kp_callbacks = gm_put (kp_callbacks kp) i cb\<rparr>)"

lemma engine_addRule_Ret:
  assumes "engine_inv ord en" and "engine_addRule ord en rule lp cb options = (en', Ret ())"
  obtains rm' where "addRule ord (en_heap en) (en_ruleMgr en) rule = Ret (rm', length (rm_rules (en_ruleMgr en)))"
    and "ro_ruleID (makeRuleOptions options) \<noteq> defaultRuleID"
    and "en' = en\<lparr>en_ruleMgr := rm',
      en_ruleLockTTLs := gm_put (en_ruleLockTTLs en) (length (rm_rules (en_ruleMgr en))) (rule_ttl en options),
      en_keyProc := processor_after en rm' (length (rm_rules (en_ruleMgr en))) lp cb options\<rparr>"
proof -
  obtain rm' i where add: "addRule ord (en_heap en) (en_ruleMgr en) rule = Ret (rm', i)"
    using assms(2) by (auto simp: engine_addRule_def Let_def split: go.splits)
  have i: "i = rm_currentIndex (en_ruleMgr en)" using add by (rule addRule_Ret)
  have "rm_inv (en_heap en) (en_ruleMgr en)" using assms(1) managed_inv by (auto simp: engine_inv_def)
  then have n: "i = length (rm_rules (en_ruleMgr en))" using i by (simp add: rm_inv_def)
  have ids: "ro_ruleID (makeRuleOptions options) \<noteq> defaultRuleID"
    using assms(2) add by (auto simp: engine_addRule_def Let_def split: if_splits)
  have "en' = en\<lparr>en_ruleMgr := rm', en_ruleLockTTLs := gm_put (en_ruleLockTTLs en) i (rule_ttl en options),
      en_keyProc := processor_after en rm' i lp cb options\<rparr>"
    using assms(2) add ids
    by (cases "ro_contextProvider (makeRuleOptions options)"; cases "eo_contextProvider (en_options en)")
      (auto simp: engine_addRule_def Let_def set_manager_def processor_after_def setLockKeyPattern_def setCallback_def
        setContextProvider_def setRuleID_def rule_ttl_def rule_provider_def)
  then show thesis using that add ids unfolding n by blast
qed

lemma registered_after:
  assumes "en' = en\<lparr>en_ruleMgr := rm', en_ruleLockTTLs := gm_put (en_ruleLockTTLs en) n (rule_ttl en options),
      en_keyProc := processor_after en rm' n lp cb options\<rparr>"
  shows "gm_get (kp_contextProviders (en_keyProc en)) n = None \<Longrightarrow>
      registered en' n lp cb (ro_ruleID (makeRuleOptions options)) (rule_ttl en options) (rule_provider en options)"
    and "j \<noteq> n \<Longrightarrow> registered en' j lp' cb' ruleID ttl cp = registered en j lp' cb' ruleID ttl cp"
    and "j \<noteq> n \<Longrightarrow> gm_get (kp_contextProviders (en_keyProc en')) j = gm_get (kp_contextProviders (en_keyProc en)) j"
  unfolding assms
  by (simp_all add: registered_def processor_after_def Let_def gomap_simps split: option.split)

lemma engine_inv_addRule:
  assumes inv: "engine_inv ord en" and "rule < en_next en"
    and "engine_addRule ord en rule lp cb options = (en', Ret ())"
  shows "engine_inv ord en' \<and> en_options en' = en_options en \<and> en_next en' = en_next en"
proof -
  let ?n = "length (rm_rules (en_ruleMgr en))"
  obtain rm' where add: "addRule ord (en_heap en) (en_ruleMgr en) rule = Ret (rm', ?n)"
    and id: "ro_ruleID (makeRuleOptions options) \<noteq> defaultRuleID"
    and en': "en' = en\<lparr>en_ruleMgr := rm', en_ruleLockTTLs := gm_put (en_ruleLockTTLs en) ?n (rule_ttl en options),
      en_keyProc := processor_after en rm' ?n lp cb options\<rparr>"
    by (rule engine_addRule_Ret [OF inv assms(3)])
  note after = registered_after [OF en']
  have rules: "rm_rules rm' = rm_rules (en_ruleMgr en) @ [rule]" using add by (rule addRule_Ret)
  have filt: "rm_enhancedRuleFilter rm' = rm_enhancedRuleFilter (en_ruleMgr en)" using add by (rule addRule_Ret)
  have "managed ord (en_heap en) (eo_constraints (en_options en)) (eo_enhancedRuleFilter (en_options en)) rm'"
    using inv by (intro managed.managed_add [OF _ add]) (simp add: engine_inv_def)
  moreover have "gm_get (kp_contextProviders (en_keyProc en')) i = None" if "length (rm_rules rm') \<le> i" for i
    using after(3) [of i] that inv rules by (simp add: engine_inv_def)
  moreover have "\<exists>lp cb ruleID ttl cp. registered en' i lp cb ruleID ttl cp \<and> ruleID \<noteq> defaultRuleID \<and>
      (eo_contextProvider (en_options en) \<noteq> None \<longrightarrow> cp \<noteq> None)"
    if "i < length (rm_rules rm')" for i
  proof (cases "i = ?n")
    case True
    have "gm_get (kp_contextProviders (en_keyProc en)) ?n = None" using inv by (simp add: engine_inv_def)
    then have "registered en' i lp cb (ro_ruleID (makeRuleOptions options)) (rule_ttl en options) (rule_provider en options)"
      unfolding True by (rule after(1))
    moreover have "eo_contextProvider (en_options en) \<noteq> None \<longrightarrow> rule_provider en options \<noteq> None"
      by (simp add: rule_provider_def split: option.split)
    ultimately show ?thesis using id by blast
  next
    case False
    then have "i < ?n" using that rules by simp
    then show ?thesis using inv after(2) [OF False] by (simp add: engine_inv_def)
  qed
  moreover have "en_ruleMgr en' = rm'" "en_options en' = en_options en" "en_next en' = en_next en" "en_heap en' = en_heap en"
    "kp_rm (en_keyProc en') = (kp_rm (en_keyProc en))\<lparr>rm_rulesBySlashCount := rm_rulesBySlashCount rm'\<rparr>"
    by (simp_all add: en' processor_after_def Let_def)
  ultimately show ?thesis
    using inv assms(2) rules filt unfolding engine_inv_def by simp
qed

lemma engine_inv_add_rules:
  "engine_inv ord en \<Longrightarrow> (\<forall>p \<in> set ps. p < en_next en) \<Longrightarrow> add_rules ord lp cb options ps en = (en', Ret ()) \<Longrightarrow>
     engine_inv ord en' \<and> en_options en' = en_options en \<and> en_next en' = en_next en"
proof (induction ps arbitrary: en)
  case (Cons p ps)
  obtain en1 where en1: "engine_addRule ord en p lp cb options = (en1, Ret ())"
    "add_rules ord lp cb options ps en1 = (en', Ret ())"
    using Cons.prems(3) by (auto split: prod.splits go.splits)
  have "engine_inv ord en1 \<and> en_options en1 = en_options en \<and> en_next en1 = en_next en"
    using engine_inv_addRule [OF Cons.prems(1) _ en1(1)] Cons.prems(2) by simp
  then show ?case using Cons.IH [OF _ _ en1(2)] Cons.prems(2) by simp
qed simp

definition no_expansion :: "v3Engine \<Rightarrow> bool" where
  "no_expansion en \<longleftrightarrow> (case eo_keyExpansion (en_options en) of Some (kv # kvs) \<Rightarrow> False | _ \<Rightarrow> True)"

lemma AddRule_no_expansion:
  "no_expansion en \<Longrightarrow> AddRule ord n en rule lp cb options = engine_addRule ord en rule lp cb options"
  by (auto simp: no_expansion_def AddRule_def split: option.splits list.splits)

lemma engine_inv_AddRule:
  assumes "engine_inv ord en" and "rule < en_next en" and "AddRule ord n en rule lp cb options = (en', Ret ())"
  shows "engine_inv ord en'" and "en_next en \<le> en_next en'"
proof -
  have "engine_inv ord en' \<and> en_next en \<le> en_next en'"
  proof (cases "no_expansion en")
    case True
    then show ?thesis
      using engine_inv_addRule [OF assms(1,2)] assms(3) AddRule_no_expansion by fastforce
  next
    case False
    then obtain kv kvs where vm: "eo_keyExpansion (en_options en) = Some (kv # kvs)"
      by (auto simp: no_expansion_def split: option.splits list.splits)
    obtain rules expanded where ex: "Expand ord n (en_heap en rule) (kv # kvs) = Ret (rules, expanded)"
      using assms(3) vm by (auto simp: AddRule_def split: go.splits)
    obtain ps en1 where ps: "(if expanded then new_rules rules en else ([rule], en)) = (ps, en1)" by fastforce
    have "engine_inv ord en1 \<and> (\<forall>p \<in> set ps. p < en_next en1) \<and> en_next en \<le> en_next en1"
      using engine_inv_new_rules [OF assms(1), of rules ps en1] assms(1,2) ps by (auto split: if_splits)
    moreover have "add_rules ord lp cb options ps en1 = (en', Ret ())"
      using assms(3) vm ex ps by (simp add: AddRule_def)
    ultimately show ?thesis using engine_inv_add_rules [of ord en1 ps lp cb options en'] by auto
  qed
  then show "engine_inv ord en'" and "en_next en \<le> en_next en'" by auto
qed

lemma engine_inv_AddPolling:
  assumes "engine_inv ord en" and "AddPolling ord n en ns pre cbw = (en', Ret res)"
  shows "engine_inv ord en'"
proof (cases "NewEqualsLiteralRule (pollingNamespace ns @ ''ttl'') None")
  case (Inl err)
  then show ?thesis using assms by (simp add: AddPolling_def Let_def)
next
  case (Inr ttlRule)
  obtain rule en1 where new: "new_rule (NewAndRule ord [en_heap en pre, ttlRule]) en = (rule, en1)" by fastforce
  obtain en2 outcome where add: "AddRule ord n en1 rule (''/rule_locks'' @ pollingNamespace ns @ ''lock'') cbw
      [RuleID (pollingNamespace ns)] = (en2, outcome)" by fastforce
  have "en2 = en'" "outcome = Ret ()"
    using assms(2) Inr new add by (auto simp: AddPolling_def Let_def go_simps)
  then show ?thesis
    using engine_inv_AddRule(1) [OF engine_inv_new_rule(1,2) [OF assms(1) new]] add by blast
qed

text \<open>
  The engines that sequences of calls of the public methods lead to in which every call returns. A
  call of \<open>AddRule\<close> that panics, which a caller may recover, leaves an engine outside of this
  relation: see \<open>AddRule_missing_ID_leaves_rule\<close>.
\<close>

inductive engine_reach :: "string range_order \<Rightarrow> v3Engine \<Rightarrow> bool" for ord where
  reach_new: "newV3Engine options a c = Ret en \<Longrightarrow> engine_reach ord en"
| reach_rule: "engine_reach ord en \<Longrightarrow> engine_reach ord (snd (new_rule r en))"
| reach_add: "engine_reach ord en \<Longrightarrow> rule < en_next en \<Longrightarrow>
    AddRule ord n en rule lp cb options = (en', Ret ()) \<Longrightarrow> engine_reach ord en'"
| reach_polling: "engine_reach ord en \<Longrightarrow> pre < en_next en \<Longrightarrow>
    AddPolling ord n en ns pre cbw = (en', Ret res) \<Longrightarrow> engine_reach ord en'"

lemma engine_reach_inv: "engine_reach ord en \<Longrightarrow> engine_inv ord en"
proof (induction rule: engine_reach.induct)
  case (reach_rule en r)
  then show ?case using engine_inv_new_rule(1) [of ord en r "fst (new_rule r en)" "snd (new_rule r en)"] by simp
qed (auto intro: engine_inv_new engine_inv_AddRule engine_inv_AddPolling)

section \<open>The two copies of the rule manager\<close>

lemma getStaticRules_shared:
  "rm_rulesBySlashCount rm = rm_rulesBySlashCount rm' \<Longrightarrow> rm_enhancedRuleFilter rm = rm_enhancedRuleFilter rm' \<Longrightarrow>
     getStaticRules ord heap rm = getStaticRules ord heap rm'"
  unfolding getStaticRules_def fun_eq_iff by presburger

lemma dispatch_rules_rm: "dispatch_rules (kp\<lparr>kp_rm := rm\<rparr>) get metadata entries = dispatch_rules kp get metadata entries"
proof (induction entries)
  case (Cons entry entries)
  have "dispatchWork (kp\<lparr>kp_rm := rm\<rparr>) = dispatchWork kp" by (intro ext) (simp add: dispatchWork_def)
  moreover have "kp_lockKeyPatterns (kp\<lparr>kp_rm := rm\<rparr>) = kp_lockKeyPatterns kp"
    "kp_ruleIDs (kp\<lparr>kp_rm := rm\<rparr>) = kp_ruleIDs kp" by simp_all
  ultimately show ?case unfolding dispatch_rules.simps Cons.IH by presburger
qed simp

text \<open>The engine's key processor works as if it had the engine's own copy of the manager.\<close>

definition full_keyProc :: "v3Engine \<Rightarrow> v3KeyProcessor" where
  "full_keyProc en = (en_keyProc en)\<lparr>kp_rm := en_ruleMgr en\<rparr>"

lemma processKey_full:
  assumes "engine_inv ord en"
  shows "processKey o1 o2 heap (en_keyProc en) = processKey o1 o2 heap (full_keyProc en)"
    and "isWork o1 o2 heap (en_keyProc en) = isWork o1 o2 heap (full_keyProc en)"
proof -
  have "getStaticRules o1 heap (kp_rm (en_keyProc en)) = getStaticRules o1 heap (en_ruleMgr en)"
    using assms by (intro getStaticRules_shared) (simp_all add: engine_inv_def)
  then show "processKey o1 o2 heap (en_keyProc en) = processKey o1 o2 heap (full_keyProc en)"
    "isWork o1 o2 heap (en_keyProc en) = isWork o1 o2 heap (full_keyProc en)"
    unfolding processKey_def isWork_def full_keyProc_def dispatch_rules_rm fun_eq_iff by simp_all
qed

text \<open>The crawler asks the key processor only whether there is work.\<close>

lemma crawler_full:
  assumes "engine_inv ord en"
  shows "crawler_singleRun o1 o2 kord mord heap (en_keyProc en) = crawler_singleRun o1 o2 kord mord heap (full_keyProc en)"
proof -
  have "processData_loop o1 o2 heap (en_keyProc en) looks kvs i ks ch = processData_loop o1 o2 heap (full_keyProc en) looks kvs i ks ch"
    for looks kvs i ks ch
    by (induction ks arbitrary: i ch) (simp_all add: processKey_full(2) [OF assms] Let_def)
  then have "processData o1 o2 kord heap (en_keyProc en) = processData o1 o2 kord heap (full_keyProc en)"
    unfolding processData_def fun_eq_iff by simp
  then show ?thesis unfolding crawler_singleRun_def fun_eq_iff by presburger
qed

lemma full_keyProc_fields [engine_simps]:
  "kp_rm (full_keyProc en) = en_ruleMgr en" "kp_callbacks (full_keyProc en) = kp_callbacks (en_keyProc en)"
  "kp_lockKeyPatterns (full_keyProc en) = kp_lockKeyPatterns (en_keyProc en)"
  "kp_ruleIDs (full_keyProc en) = kp_ruleIDs (en_keyProc en)"
  "kp_contextProviders (full_keyProc en) = kp_contextProviders (en_keyProc en)"
  by (simp_all add: full_keyProc_def)

lemma engine_managed:
  "engine_inv ord en \<Longrightarrow> managed ord (en_heap en) (eo_constraints (en_options en)) (eo_enhancedRuleFilter (en_options en))
     (kp_rm (full_keyProc en))"
  by (simp add: engine_inv_def engine_simps)

text \<open>With a context provider of the engine, no dispatch meets a rule without one.\<close>

lemma engine_providers_set:
  assumes "engine_inv ord en" and "eo_contextProvider (en_options en) \<noteq> None"
  shows "providers_set (full_keyProc en)"
proof -
  have "gm_get (kp_contextProviders (en_keyProc en)) i \<noteq> None" if i: "i < length (rm_rules (en_ruleMgr en))" for i
  proof -
    obtain lp cb ruleID ttl cp where "registered en i lp cb ruleID ttl cp" "cp \<noteq> None"
      using assms i unfolding engine_inv_def by blast
    then show ?thesis by (simp add: registered_def)
  qed
  then show ?thesis by (simp add: providers_set_def engine_simps)
qed

section \<open>Polling\<close>

lemma satisfied_store: "satisfied r (\<lambda>k. Inr (s k)) = Inr (holds r s)"
proof (cases "satisfied r (\<lambda>k. Inr (s k))")
  case (Inl e)
  then show ?thesis using satisfied_Inl [OF Inl] by auto
next
  case (Inr b)
  then show ?thesis using satisfied_Inr [OF Inr, of s] by simp
qed

lemma literal_nil_holds:
  assumes "NewEqualsLiteralRule p None = Inr r"
  shows "holds (inst a r) s \<longleftrightarrow> s (path_format (attr_lookup a) p) = None"
proof -
  obtain krp t where "r = Leaf krp" "dr_patterns krp = [p]" "dr_factory krp = CompareLiteralRuleFactory (newEqualsComparator None) t"
    using assms by (auto simp: NewEqualsLiteralRule_def NewCompareLiteralRule_def newDynamicRule_def Let_def map_sum_Inr
        split: option.splits sum.splits)
  then show ?thesis by (simp add: leaf_inst_def newEqualsComparator_def split: option.splits)
qed


lemma holds_polling_rule:
  assumes "NewEqualsLiteralRule p None = Inr ttlRule"
  shows "holds (inst a (NewAndRule ord [pre, ttlRule])) s \<longleftrightarrow>
    holds (inst a pre) s \<and> s (path_format (attr_lookup a) p) = None"
  using literal_nil_holds [OF assms] by (simp add: NewAndRule_def split: prod.split)

section \<open>Registering a rule and its expansions\<close>

lemma compound_expand_same: "compound_expand Exp con nested dr vm keys = Ret (rs, False) \<Longrightarrow> rs = [dr]"
  by (induction keys) (auto simp: go_simps split: if_splits)

lemma Expand_same: "Expand ord n r vm = Ret (rs, False) \<Longrightarrow> rs = [r]"
  by (cases n; cases r) (auto simp: leaf_Expand_def go_simps split: option.splits dest: compound_expand_same)

text \<open>The contents of the registered rules, in the order of their indices.\<close>

definition rule_contents :: "v3Engine \<Rightarrow> dynamic_rule list" where
  "rule_contents en = map (en_heap en) (rm_rules (en_ruleMgr en))"

text \<open>All rules from index \<open>k\<close> on have these settings, those below have the settings of \<open>en\<close>.\<close>

definition extends ::
  "v3Engine \<Rightarrow> v3Engine \<Rightarrow> dynamic_rule list \<Rightarrow> string \<Rightarrow> callback \<Rightarrow> ruleOption list \<Rightarrow> bool" where
  "extends en en' rs lp cb options \<longleftrightarrow>
     en_options en' = en_options en \<and> rule_contents en' = rule_contents en @ rs \<and>
     (\<forall>i < length rs. registered en' (length (rule_contents en) + i) lp cb (ro_ruleID (makeRuleOptions options))
        (rule_ttl en options) (rule_provider en options)) \<and>
     (\<forall>i < length (rule_contents en). registered en' i = registered en i)"

lemma rule_settings_cong:
  "en_options en = en_options en' \<Longrightarrow> rule_ttl en = rule_ttl en' \<and> rule_provider en = rule_provider en'"
  unfolding rule_ttl_def rule_provider_def fun_eq_iff by presburger

lemma extends_engine_addRule:
  assumes inv: "engine_inv ord en" and "rule < en_next en"
    and "engine_addRule ord en rule lp cb options = (en', Ret ())"
  shows "extends en en' [en_heap en rule] lp cb options" and "en_heap en' = en_heap en"
proof -
  let ?n = "length (rm_rules (en_ruleMgr en))"
  obtain rm' where add: "addRule ord (en_heap en) (en_ruleMgr en) rule = Ret (rm', ?n)"
    and en': "en' = en\<lparr>en_ruleMgr := rm', en_ruleLockTTLs := gm_put (en_ruleLockTTLs en) ?n (rule_ttl en options),
      en_keyProc := processor_after en rm' ?n lp cb options\<rparr>"
    by (rule engine_addRule_Ret [OF inv assms(3)])
  note after = registered_after [OF en']
  have rules: "rm_rules rm' = rm_rules (en_ruleMgr en) @ [rule]" using add by (rule addRule_Ret)
  have "gm_get (kp_contextProviders (en_keyProc en)) ?n = None" using inv by (simp add: engine_inv_def)
  then have "registered en' ?n lp cb (ro_ruleID (makeRuleOptions options)) (rule_ttl en options) (rule_provider en options)"
    by (rule after(1))
  moreover have "registered en' i = registered en i" if "i < ?n" for i
    using after(2) [of i] that by (intro ext) simp
  moreover have "rule_contents en' = rule_contents en @ [en_heap en rule]" "en_options en' = en_options en"
    "length (rule_contents en) = ?n" using rules by (simp_all add: en' rule_contents_def)
  ultimately show "extends en en' [en_heap en rule] lp cb options" by (simp add: extends_def)
  show "en_heap en' = en_heap en" by (simp add: en')
qed

lemma extends_cons:
  assumes "extends en en1 [r] lp cb options" and "extends en1 en2 rs lp cb options"
  shows "extends en en2 (r # rs) lp cb options"
proof -
  let ?n = "length (rule_contents en)"
  note ext = assms [unfolded extends_def]
  have opts: "rule_ttl en1 options = rule_ttl en options" "rule_provider en1 options = rule_provider en options"
    using rule_settings_cong [of en1 en] ext by simp_all
  have "registered en2 (?n + i) lp cb (ro_ruleID (makeRuleOptions options)) (rule_ttl en options) (rule_provider en options)"
    if "i < length (r # rs)" for i
    using ext opts that by (cases i) simp_all
  then show ?thesis using ext by (simp add: extends_def)
qed

lemma extends_add_rules:
  "engine_inv ord en \<Longrightarrow> \<forall>p \<in> set ps. p < en_next en \<Longrightarrow> add_rules ord lp cb options ps en = (en', Ret ()) \<Longrightarrow>
     extends en en' (map (en_heap en) ps) lp cb options"
proof (induction ps arbitrary: en)
  case Nil
  then show ?case by (simp add: extends_def)
next
  case (Cons p ps)
  obtain en1 where en1: "engine_addRule ord en p lp cb options = (en1, Ret ())"
    "add_rules ord lp cb options ps en1 = (en', Ret ())"
    using Cons.prems(3) by (auto split: prod.splits go.splits)
  have p: "p < en_next en" using Cons.prems(2) by simp
  note one = extends_engine_addRule [OF Cons.prems(1) p en1(1)]
  have "engine_inv ord en1" "en_next en1 = en_next en" using engine_inv_addRule [OF Cons.prems(1) p en1(1)] by auto
  then have "extends en1 en' (map (en_heap en) ps) lp cb options"
    using Cons.IH [OF _ _ en1(2)] Cons.prems(2) one(2) by simp
  then show ?case using extends_cons [OF one(1)] by simp
qed

text \<open>New rule objects leave the registered rules as they are.\<close>

lemma new_rules_keep:
  "engine_inv ord en \<Longrightarrow> new_rules rs en = (ps, en') \<Longrightarrow>
     map (en_heap en') ps = rs \<and> rule_contents en' = rule_contents en \<and> registered en' = registered en \<and>
     (\<forall>q < en_next en. en_heap en' q = en_heap en q)"
proof (induction rs arbitrary: en ps)
  case (Cons r rs)
  obtain p en1 where p: "new_rule r en = (p, en1)" by fastforce
  obtain ps' where ps': "new_rules rs en1 = (ps', en')" "ps = p # ps'"
    using Cons.prems(2) p by (auto split: prod.splits)
  note one = engine_inv_new_rule [OF Cons.prems(1) p]
  note rest = Cons.IH [OF one(1) ps'(1)]
  have "rule_contents en1 = rule_contents en" "registered en1 = registered en" "\<forall>q < en_next en. en_heap en1 q = en_heap en q"
    using p Cons.prems(1) by (auto simp: new_rule_def rule_contents_def registered_def fun_eq_iff engine_inv_def)
  then show ?case using rest one ps'(2) by auto
qed simp

lemma extends_new_rules:
  assumes "engine_inv ord en" and "new_rules rs en = (ps, en1)" and "extends en1 en' rs' lp cb options"
  shows "extends en en' rs' lp cb options"
proof -
  have "en_options en1 = en_options en" "rule_contents en1 = rule_contents en" "registered en1 = registered en"
    using new_rules_keep [OF assms(1,2)] engine_inv_new_rules [OF assms(1,2)] by simp_all
  then show ?thesis using assms(3) rule_settings_cong [of en1 en] by (simp add: extends_def)
qed


section \<open>Registration returns\<close>

definition constraints_ok :: "(string, constraint) gomap \<Rightarrow> bool" where
  "constraints_ok cs \<longleftrightarrow> list_all (\<lambda>(k, c). chars c \<noteq> []) cs"

lemma constraints_ok_get: "constraints_ok cs \<Longrightarrow> gm_get cs k = Some c \<Longrightarrow> chars c \<noteq> []"
  unfolding constraints_ok_def gm_get_def by (auto simp: list_all_iff dest: map_of_SomeD)

lemma matcher_prefixes_Ret: "constraints_ok cs \<Longrightarrow> \<exists>ps. getPrefixesWithConstraints m cs = Ret ps"
  by (auto simp: getPrefixesWithConstraints_def Let_def buildPrefixes_eq constraints_ok_get split: option.split)

lemma go_collect_all_Ret: "(\<And>x. x \<in> set xs \<Longrightarrow> \<exists>y. f x = Ret y) \<Longrightarrow> \<exists>ys. go_collect (map f xs) = Ret ys"
  using go_collect_Ret_ex [of xs f "\<lambda>_ _. True"] by blast

lemma rule_prefixes_Ret:
  assumes "constraints_ok cs"
  shows "\<exists>ps. rule_getPrefixesWithConstraints r cs = Ret ps"
proof (induction r)
  case (Leaf krp)
  obtain pss where "go_collect (map (\<lambda>km. getPrefixesWithConstraints km cs) (dr_matchers krp)) = Ret pss"
    using go_collect_all_Ret [of "dr_matchers krp" "\<lambda>km. getPrefixesWithConstraints km cs"] matcher_prefixes_Ret [OF assms]
    by blast
  then show ?case by (simp add: leaf_getPrefixesWithConstraints_def)
next
  case (AndDynamicRule rs ps fs)
  then show ?case using go_collect_all_Ret [of rs "\<lambda>r. rule_getPrefixesWithConstraints r cs"] by auto
next
  case (OrDynamicRule rs ps fs)
  then show ?case using go_collect_all_Ret [of rs "\<lambda>r. rule_getPrefixesWithConstraints r cs"] by auto
qed auto

lemma addRule_returns:
  assumes "managed ord heap cs enhanced rm" and "constraints_ok cs"
  shows "\<exists>rm'. addRule ord heap rm rule = Ret (rm', length (rm_rules rm))"
proof -
  have "rm_constraints rm = cs" using managed_config [OF assms(1)] by simp
  moreover have "rm_currentIndex rm = length (rm_rules rm)" using managed_inv [OF assms(1)] by (simp add: rm_inv_def)
  ultimately show ?thesis using rule_prefixes_Ret [OF assms(2), of "heap rule"] by (auto simp: addRule_def Let_def)
qed

lemma engine_manager_returns:
  assumes "engine_inv ord en" and "constraints_ok (eo_constraints (en_options en))"
  shows "\<exists>rm'. addRule ord (en_heap en) (en_ruleMgr en) rule = Ret (rm', length (rm_rules (en_ruleMgr en)))"
  using assms(1) unfolding engine_inv_def by (blast intro: addRule_returns [OF _ assms(2)])

lemma engine_addRule_returns:
  assumes "engine_inv ord en" and "constraints_ok (eo_constraints (en_options en))"
    and "ro_ruleID (makeRuleOptions options) \<noteq> defaultRuleID"
  shows "\<exists>en'. engine_addRule ord en rule lp cb options = (en', Ret ())"
proof -
  obtain rm' where "addRule ord (en_heap en) (en_ruleMgr en) rule = Ret (rm', length (rm_rules (en_ruleMgr en)))"
    using engine_manager_returns [OF assms(1,2)] by blast
  then show ?thesis using assms(3) by (simp add: engine_addRule_def Let_def)
qed

lemma add_rules_returns:
  "engine_inv ord en \<Longrightarrow> \<forall>p \<in> set ps. p < en_next en \<Longrightarrow> constraints_ok (eo_constraints (en_options en)) \<Longrightarrow>
     ro_ruleID (makeRuleOptions options) \<noteq> defaultRuleID \<Longrightarrow> \<exists>en'. add_rules ord lp cb options ps en = (en', Ret ())"
proof (induction ps arbitrary: en)
  case (Cons p ps)
  obtain en1 where en1: "engine_addRule ord en p lp cb options = (en1, Ret ())"
    using engine_addRule_returns [OF Cons.prems(1,3,4)] by blast
  have "engine_inv ord en1 \<and> en_options en1 = en_options en \<and> en_next en1 = en_next en"
    using engine_inv_addRule [OF Cons.prems(1) _ en1] Cons.prems(2) by simp
  then show ?case using Cons.IH [of en1] Cons.prems(2,3,4) en1 by simp
qed simp

text \<open>The rules that \<open>AddRule\<close> registers for one rule.\<close>

definition rule_expansions :: "string range_order \<Rightarrow> nat \<Rightarrow> v3Engine \<Rightarrow> rule_ptr \<Rightarrow> dynamic_rule list go" where
  "rule_expansions ord n en rule =
     (case eo_keyExpansion (en_options en) of
        Some (kv # kvs) \<Rightarrow> go_bind (Expand ord n (en_heap en rule) (kv # kvs)) (\<lambda>(rs, expanded). Ret rs)
      | _ \<Rightarrow> Ret [en_heap en rule])"

text \<open>Either the rule itself or new objects for all expansions.\<close>

lemma AddRule_objects:
  assumes inv: "engine_inv ord en" and "rule < en_next en" and "rule_expansions ord n en rule = Ret rs"
  obtains en1 ps where "engine_inv ord en1" and "\<forall>p \<in> set ps. p < en_next en1" and "map (en_heap en1) ps = rs"
    and "AddRule ord n en rule lp cb options = add_rules ord lp cb options ps en1" and "en_options en1 = en_options en"
    and "\<And>en' rs' options'. extends en1 en' rs' lp cb options' \<Longrightarrow> extends en en' rs' lp cb options'"
proof (cases "no_expansion en")
  case True
  have "AddRule ord n en rule lp cb options = add_rules ord lp cb options [rule] en"
    unfolding AddRule_no_expansion [OF True] by (simp split: prod.split go.split)
  moreover have "rs = [en_heap en rule]"
    using True assms(3) by (auto simp: no_expansion_def rule_expansions_def split: option.splits list.splits)
  ultimately show thesis using that [of en "[rule]"] inv assms(2) by simp
next
  case False
  then obtain kv kvs where vm: "eo_keyExpansion (en_options en) = Some (kv # kvs)"
    by (auto simp: no_expansion_def split: option.splits list.splits)
  obtain expanded where ex: "Expand ord n (en_heap en rule) (kv # kvs) = Ret (rs, expanded)"
    using assms(3) vm by (auto simp: rule_expansions_def go_simps)
  show thesis
  proof (cases expanded)
    case True
    obtain ps en1 where new: "new_rules rs en = (ps, en1)" by fastforce
    have "AddRule ord n en rule lp cb options = add_rules ord lp cb options ps en1"
      using vm ex new True by (simp add: AddRule_def)
    moreover have "map (en_heap en1) ps = rs" using new_rules_keep [OF inv new] by simp
    moreover have "engine_inv ord en1" "\<forall>p \<in> set ps. p < en_next en1" "en_options en1 = en_options en"
      using engine_inv_new_rules [OF inv new] by simp_all
    ultimately show thesis using that [of en1 ps] extends_new_rules [OF inv new] by simp
  next
    case False
    then have "rs = [en_heap en rule]" using ex Expand_same [of ord n "en_heap en rule" "kv # kvs" rs] by simp
    moreover have "AddRule ord n en rule lp cb options = add_rules ord lp cb options [rule] en"
      using vm ex False by (simp add: AddRule_def)
    ultimately show thesis using that [of en "[rule]"] inv assms(2) by simp
  qed
qed


section \<open>Properties\<close>

lemma newV3Engine_Ret:
  assumes "0 \<le> eo_ruleWorkBuffer (makeEngineOptions options)" and "0 \<le> eo_keyProcBuffer (makeEngineOptions options)"
  shows "\<exists>en. newV3Engine options a c = Ret en \<and> engine_reach ord (snd (new_rule r en)) \<and>
     en_options (snd (new_rule r en)) = makeEngineOptions options \<and> en_heap (snd (new_rule r en)) 0 = r \<and>
     en_next (snd (new_rule r en)) = 1 \<and> rule_contents (snd (new_rule r en)) = []"
proof -
  obtain en where en: "newV3Engine options a c = Ret en" "en_options en = makeEngineOptions options" "en_next en = 0"
    "rule_contents en = []" using assms by (simp add: newV3Engine_def newRuleManager_def rule_contents_def Let_def)
  have "engine_reach ord (snd (new_rule r en))" using en(1) by (intro reach_rule reach_new)
  then show ?thesis using en by (simp add: new_rule_def rule_contents_def)
qed

lemma newV3Engine_default_reach:
  "\<exists>en. newV3Engine [] a c = Ret en \<and> engine_reach ord (snd (new_rule r en)) \<and>
     en_options (snd (new_rule r en)) = defaultEngineOptions \<and> en_heap (snd (new_rule r en)) 0 = r \<and>
     en_next (snd (new_rule r en)) = 1 \<and> rule_contents (snd (new_rule r en)) = []"
  using newV3Engine_Ret [of "[]" a c ord r] by (simp add: makeEngineOptions_def defaultEngineOptions_def)

lemma AddRule_extends:
  assumes "engine_reach ord en" and "rule < en_next en" and "constraints_ok (eo_constraints (en_options en))"
    and "ro_ruleID (makeRuleOptions options) \<noteq> defaultRuleID" and "rule_expansions ord n en rule = Ret rs"
  shows "\<exists>en'. AddRule ord n en rule lp cb options = (en', Ret ()) \<and> extends en en' rs lp cb options"
proof -
  note inv = engine_reach_inv [OF assms(1)]
  obtain en1 ps where obj: "engine_inv ord en1" "\<forall>p \<in> set ps. p < en_next en1" "map (en_heap en1) ps = rs"
      "AddRule ord n en rule lp cb options = add_rules ord lp cb options ps en1" "en_options en1 = en_options en"
    and lift: "\<And>en' rs' options'. extends en1 en' rs' lp cb options' \<Longrightarrow> extends en en' rs' lp cb options'"
    using AddRule_objects [OF inv assms(2,5), where lp = lp and cb = cb and options = options] by metis
  obtain en' where add: "add_rules ord lp cb options ps en1 = (en', Ret ())"
    using add_rules_returns [OF obj(1,2) _ assms(4)] assms(3) obj(5) by auto
  show ?thesis using lift extends_add_rules [OF obj(1,2) add] obj(3,4) add by auto
qed

text \<open>A default engine with one rule, for concrete instances.\<close>

lemma default_engine_with_rule:
  "\<exists>en. engine_reach ord en \<and> en_options en = defaultEngineOptions \<and> rule_contents en = [r] \<and>
     registered en 0 lp cb ''one'' 30 (Some defaultContextProvider)"
proof -
  let ?opts = "[RuleID ''one'']"
  obtain en0 where new: "newV3Engine [] 0 1 = Ret en0" "engine_reach ord (snd (new_rule r en0))"
    "en_options (snd (new_rule r en0)) = defaultEngineOptions" "en_heap (snd (new_rule r en0)) 0 = r"
    "en_next (snd (new_rule r en0)) = 1" "rule_contents (snd (new_rule r en0)) = []"
    using newV3Engine_default_reach [of 0 1 ord r] by (elim exE conjE)
  define en1 where "en1 = snd (new_rule r en0)"
  note en1 = new(2-6) [folded en1_def]
  have opts: "ro_ruleID (makeRuleOptions ?opts) = ''one''" "ro_lockTimeout (makeRuleOptions ?opts) = 0"
    "ro_contextProvider (makeRuleOptions ?opts) = None"
    by (simp_all add: makeRuleOptions_def RuleID_def)
  have id: "ro_ruleID (makeRuleOptions ?opts) \<noteq> defaultRuleID" unfolding opts by (simp add: defaultRuleID_def)
  have cs: "constraints_ok (eo_constraints (en_options en1))" and ex: "rule_expansions ord 1 en1 0 = Ret [r]"
    by (simp_all add: rule_expansions_def en1(2,3) defaultEngineOptions_def constraints_ok_def)
  have "(0 :: nat) < en_next en1" by (simp add: en1(4))
  from AddRule_extends [OF en1(1) this cs id ex, of lp cb] obtain en
    where add: "AddRule ord 1 en1 0 lp cb ?opts = (en, Ret ())" and ext: "extends en1 en [r] lp cb ?opts"
    by (elim exE conjE)
  have "engine_reach ord en" using reach_add [OF en1(1) _ add] en1(4) by simp
  moreover have "en_options en = defaultEngineOptions" "rule_contents en = [r]"
    using ext en1(2,5) by (simp_all add: extends_def)
  moreover have "registered en 0 lp cb ''one'' 30 (Some defaultContextProvider)"
    using ext en1(5) unfolding extends_def rule_ttl_def rule_provider_def opts en1(2) by (simp add: defaultEngineOptions_def)
  ultimately show ?thesis by blast
qed

text \<open>The key expansion of the engine; a nil map has no keys.\<close>

definition expansion_map :: "v3Engine \<Rightarrow> value_map" where
  "expansion_map en = (case eo_keyExpansion (en_options en) of Some vm \<Rightarrow> vm | None \<Rightarrow> [])"

lemma rule_expansions_Ret:
  assumes "built ord (en_heap en rule)" and "normal_rule (en_heap en rule)" and "vm_ok (expansion_map en)"
    and "rule_height (en_heap en rule) + card (rule_params (en_heap en rule) \<inter> vm_keys (expansion_map en)) < n"
  shows "\<exists>rs. rule_expansions ord n en rule = Ret rs \<and> expansion_of (en_heap en rule) (expansion_map en) rs \<and>
    (rule_params (en_heap en rule) \<inter> vm_keys (expansion_map en) = {} \<longrightarrow> rs = [en_heap en rule])"
proof (cases "expansion_map en")
  case Nil
  then have "rule_expansions ord n en rule = Ret [en_heap en rule]"
    by (auto simp: expansion_map_def rule_expansions_def split: option.splits)
  moreover have "expansion_of (en_heap en rule) (expansion_map en) [en_heap en rule]"
    using assms(1,2) Nil by (intro expansion_of_none) (simp_all add: built_wf built_fresh vm_keys_def gm_keys_def)
  ultimately show ?thesis by blast
next
  case (Cons kv kvs)
  then have vm: "eo_keyExpansion (en_options en) = Some (kv # kvs)" by (auto simp: expansion_map_def split: option.splits)
  have "expands_all ord n (en_heap en rule) (kv # kvs)"
    by (rule Expand_all) (use built_expandable [OF assms(1,2)] assms(3,4) Cons in simp_all)
  then obtain rs where rs: "expansion_of (en_heap en rule) (kv # kvs) rs"
    "Expand ord n (en_heap en rule) (kv # kvs) = Ret (rs, rule_params (en_heap en rule) \<inter> vm_keys (kv # kvs) \<noteq> {})"
    unfolding expands_all_def by blast
  then have "rule_params (en_heap en rule) \<inter> vm_keys (kv # kvs) = {} \<longrightarrow> rs = [en_heap en rule]"
    using Expand_same [of ord n "en_heap en rule" "kv # kvs" rs] by auto
  then show ?thesis using rs vm Cons by (simp add: rule_expansions_def)
qed

text \<open>
  C13. Registration: for a rule of the constructors with normal patterns and a key expansion whose
  values are single plain segments, \<open>AddRule\<close> with a rule ID returns in an engine whose constraints
  all have characters. Then the rule, or each of its expansions when the engine's key expansion has
  one of its parameters, has the next index and under it the given lock pattern and callback, its
  ID, its lock timeout or the engine's, and its context provider or the engine's; the rules
  registered before keep their indices and settings. The expansions are those for all choices of
  values, one for each if no parameter lists a value twice. The fuel of \<open>Expand\<close> is the height of the
  rule plus the number of its parameters in the key expansion.
\<close>

theorem AddRule_registers:
  assumes "engine_reach ord en" and "rule < en_next en" and "constraints_ok (eo_constraints (en_options en))"
    and "ro_ruleID (makeRuleOptions options) \<noteq> defaultRuleID"
    and "built ord (en_heap en rule)" and "normal_rule (en_heap en rule)" and "vm_ok (expansion_map en)"
    and "rule_height (en_heap en rule) + card (rule_params (en_heap en rule) \<inter> vm_keys (expansion_map en)) < n"
  shows "\<exists>en' rs \<sigma>s. AddRule ord n en rule lp cb options = (en', Ret ()) \<and> extends en en' rs lp cb options \<and>
    (rule_params (en_heap en rule) \<inter> vm_keys (expansion_map en) = {} \<longrightarrow> rs = [en_heap en rule]) \<and>
    list_all2 (\<lambda>\<sigma>. expands \<sigma> (en_heap en rule)) \<sigma>s rs \<and>
    set \<sigma>s = choices (rule_params (en_heap en rule)) (expansion_map en) \<and>
    (distinct_values (expansion_map en) \<longrightarrow> distinct \<sigma>s)"
proof -
  obtain rs where rs: "rule_expansions ord n en rule = Ret rs" "expansion_of (en_heap en rule) (expansion_map en) rs"
    "rule_params (en_heap en rule) \<inter> vm_keys (expansion_map en) = {} \<longrightarrow> rs = [en_heap en rule]"
    using rule_expansions_Ret [OF assms(5-8)] by blast
  obtain en' where "AddRule ord n en rule lp cb options = (en', Ret ())" "extends en en' rs lp cb options"
    using AddRule_extends [OF assms(1-4) rs(1)] by blast
  moreover obtain \<sigma>s where "list_all2 (\<lambda>\<sigma>. expands \<sigma> (en_heap en rule)) \<sigma>s rs"
    "set \<sigma>s = choices (rule_params (en_heap en rule)) (expansion_map en)"
    "distinct_values (expansion_map en) \<longrightarrow> distinct \<sigma>s" using rs(2) unfolding expansion_of_def by blast
  ultimately show ?thesis using rs(3) by blast
qed

theorem AddRule_registers_witness:
  "\<exists>en r en' na eu. newV3Engine [KeyExpansion insertion_order [(''geo'', [''na'', ''eu''])]] 0 1 = Ret en \<and>
     NewEqualsLiteralRule ''/:geo/:id'' (Some ''1'') = Inr r \<and>
     AddRule insertion_order 3 (snd (new_rule r en)) 0 ''/lock/:id'' 42 [RuleLockTimeout 7, RuleID ''one''] = (en', Ret ()) \<and>
     rule_contents en' = [na, eu] \<and> {na, eu} = {r'. \<exists>v \<in> {''na'', ''eu''}. expands [''geo'' \<mapsto> v] r r' \<and> r' \<in> {na, eu}} \<and>
     registered en' 0 ''/lock/:id'' 42 ''one'' 7 (Some defaultContextProvider) \<and>
     registered en' 1 ''/lock/:id'' 42 ''one'' 7 (Some defaultContextProvider)"
proof -
  let ?opts = "[RuleLockTimeout 7, RuleID ''one'']" and ?vm = "[(''geo'', [''na'', ''eu''])]"
  let ?eopts = "[KeyExpansion insertion_order ?vm]"
  define r where "r = projr (NewEqualsLiteralRule ''/:geo/:id'' (Some ''1''))"
  have r: "NewEqualsLiteralRule ''/:geo/:id'' (Some ''1'') = Inr r" unfolding r_def by (rule Inr_projr) code_simp
  have eo: "makeEngineOptions ?eopts = defaultEngineOptions\<lparr>eo_keyExpansion := Some ?vm\<rparr>"
    by (simp add: makeEngineOptions_def KeyExpansion_def defaultEngineOptions_def)
  obtain en where en: "newV3Engine ?eopts 0 1 = Ret en" "engine_reach insertion_order (snd (new_rule r en))"
    "en_options (snd (new_rule r en)) = makeEngineOptions ?eopts" "en_heap (snd (new_rule r en)) 0 = r"
    "en_next (snd (new_rule r en)) = 1" "rule_contents (snd (new_rule r en)) = []"
    using newV3Engine_Ret [of ?eopts 0 1 insertion_order r] unfolding eo by (auto simp: defaultEngineOptions_def)
  define en1 where "en1 = snd (new_rule r en)"
  note en1 = en(2-6) [folded en1_def]
  have opts: "ro_ruleID (makeRuleOptions ?opts) = ''one''" "ro_lockTimeout (makeRuleOptions ?opts) = 7"
    "ro_contextProvider (makeRuleOptions ?opts) = None"
    by (simp_all add: makeRuleOptions_def RuleID_def RuleLockTimeout_def)
  have vm: "expansion_map en1 = ?vm" by (simp add: expansion_map_def en1(2) eo)
  have ok: "constraints_ok (eo_constraints (en_options en1))"
    unfolding en1(2) eo by (simp add: defaultEngineOptions_def constraints_ok_def)
  have id: "ro_ruleID (makeRuleOptions ?opts) \<noteq> defaultRuleID" unfolding opts by (simp add: defaultRuleID_def)
  have b: "built insertion_order (en_heap en1 0)" unfolding en1(3) using r by (rule built_literal)
  have nr: "normal_rule (en_heap en1 0)" unfolding en1(3) r_def by code_simp
  have vok: "vm_ok (expansion_map en1)" unfolding vm by code_simp
  have d: "distinct_values (expansion_map en1)" by (simp add: vm distinct_values_def)
  have h: "rule_height r = 0" and g: "''geo'' \<in> rule_params r" unfolding r_def by code_simp+
  have keys: "vm_keys ?vm = {''geo''}" by (simp add: vm_keys_def gm_keys_def)
  then have inter: "rule_params r \<inter> vm_keys ?vm = {''geo''}" using g by blast
  have fuel: "rule_height (en_heap en1 0) + card (rule_params (en_heap en1 0) \<inter> vm_keys (expansion_map en1)) < 3"
    unfolding en1(3) vm inter h by simp
  have "(rule_params r - {''geo''}) \<inter> vm_keys ?vm = {}" unfolding keys by blast
  then have "choices (rule_params r - {''geo''}) ?vm = {Map.empty}" using choices_none by blast
  moreover have "gm_get ?vm ''geo'' = Some [''na'', ''eu'']" by (simp add: gm_get_def)
  ultimately have c: "choices (rule_params r) ?vm = {[''geo'' \<mapsto> ''na''], [''geo'' \<mapsto> ''eu'']}"
    using choices_union [OF g] by auto
  obtain en' rs \<sigma>s where a: "AddRule insertion_order 3 en1 0 ''/lock/:id'' 42 ?opts = (en', Ret ())"
    and ext: "extends en1 en' rs ''/lock/:id'' 42 ?opts" and e: "list_all2 (\<lambda>\<sigma>. expands \<sigma> r) \<sigma>s rs"
    and \<sigma>s: "set \<sigma>s = {[''geo'' \<mapsto> ''na''], [''geo'' \<mapsto> ''eu'']}" "distinct \<sigma>s"
    using AddRule_registers [OF en1(1) _ ok id b nr vok fuel, of "''/lock/:id''" 42] d en1(4) unfolding en1(3) vm c by auto
  have "[''geo'' \<mapsto> ''na''] \<noteq> [''geo'' \<mapsto> ''eu'']" by (simp add: fun_eq_iff)
  then have "length \<sigma>s = 2" using distinct_card [OF \<sigma>s(2)] unfolding \<sigma>s(1) by (simp add: card_insert_if)
  then obtain \<sigma>1 \<sigma>2 na eu where two: "\<sigma>s = [\<sigma>1, \<sigma>2]" "rs = [na, eu]" "expands \<sigma>1 r na" "expands \<sigma>2 r eu"
    using e list_all2_lengthD [OF e] by (auto simp: numeral_2_eq_2 length_Suc_conv)
  have "\<sigma>1 \<in> {[''geo'' \<mapsto> ''na''], [''geo'' \<mapsto> ''eu'']}" "\<sigma>2 \<in> {[''geo'' \<mapsto> ''na''], [''geo'' \<mapsto> ''eu'']}"
    unfolding \<sigma>s(1) [symmetric] two(1) by simp_all
  then have "{na, eu} = {r'. \<exists>v \<in> {''na'', ''eu''}. expands [''geo'' \<mapsto> v] r r' \<and> r' \<in> {na, eu}}"
    using two(3,4) by blast
  moreover have "rule_contents en' = [na, eu]" "registered en' 0 ''/lock/:id'' 42 ''one'' 7 (Some defaultContextProvider)"
    "registered en' 1 ''/lock/:id'' 42 ''one'' 7 (Some defaultContextProvider)"
    using ext en1(5) two(2) unfolding extends_def rule_ttl_def rule_provider_def opts en1(2) eo
    by (auto simp: defaultEngineOptions_def)
  ultimately show ?thesis using en(1) r a unfolding en1_def by blast
qed


text \<open>
  C12. The engine's invariant over all sequences of returning calls that create rules, register them,
  with or without expansion, and add pollings: every index in use has a callback, a lock pattern, a
  lock timeout, an ID that is not the default and, if the engine has one, a context provider; and the
  key processor, which has a copy of the rule manager, processes every key as with the engine's own
  manager.
\<close>

theorem engine_registrations_complete:
  assumes "engine_reach ord en"
  shows "(\<forall>i < length (rule_contents en). \<exists>lp cb ruleID cp.
      registered en i lp cb ruleID (getLockTTLForRule en i) cp \<and> ruleID \<noteq> defaultRuleID \<and>
      (eo_contextProvider (en_options en) \<noteq> None \<longrightarrow> cp \<noteq> None)) \<and>
    processKey o1 o2 (en_heap en) (en_keyProc en) = processKey o1 o2 (en_heap en) ((en_keyProc en)\<lparr>kp_rm := en_ruleMgr en\<rparr>)"
proof -
  note inv = engine_reach_inv [OF assms]
  have "\<exists>lp cb ruleID cp. registered en i lp cb ruleID (getLockTTLForRule en i) cp \<and> ruleID \<noteq> defaultRuleID \<and>
      (eo_contextProvider (en_options en) \<noteq> None \<longrightarrow> cp \<noteq> None)"
    if "i < length (rule_contents en)" for i
  proof -
    obtain lp cb ruleID ttl cp where reg: "registered en i lp cb ruleID ttl cp" "ruleID \<noteq> defaultRuleID"
      "eo_contextProvider (en_options en) \<noteq> None \<longrightarrow> cp \<noteq> None"
      using inv \<open>i < length (rule_contents en)\<close> unfolding engine_inv_def rule_contents_def length_map by blast
    have "getLockTTLForRule en i = ttl" using reg(1) by (simp add: registered_def getLockTTLForRule_def)
    then show ?thesis using reg by blast
  qed
  then show ?thesis using processKey_full(1) [OF inv] by (simp add: full_keyProc_def)
qed

theorem engine_registrations_complete_witness:
  "\<exists>r en lp cb ruleID cp. NewEqualsLiteralRule ''/a/:x'' (Some ''1'') = Inr r \<and> engine_reach insertion_order en \<and>
     rule_contents en = [r] \<and> registered en 0 lp cb ruleID 30 (Some cp) \<and> ruleID \<noteq> defaultRuleID \<and>
     processKey insertion_order insertion_order (en_heap en) (en_keyProc en) =
     processKey insertion_order insertion_order (en_heap en) ((en_keyProc en)\<lparr>kp_rm := en_ruleMgr en\<rparr>)"
proof -
  define r where "r = projr (NewEqualsLiteralRule ''/a/:x'' (Some ''1''))"
  have r: "NewEqualsLiteralRule ''/a/:x'' (Some ''1'') = Inr r" unfolding r_def by (rule Inr_projr) code_simp
  obtain en where en: "engine_reach insertion_order en" "en_options en = defaultEngineOptions" "rule_contents en = [r]"
    "registered en 0 ''/lock/:x'' 42 ''one'' 30 (Some defaultContextProvider)"
    using default_engine_with_rule [of insertion_order r "''/lock/:x''" 42] by blast
  note c = engine_registrations_complete [OF en(1), of insertion_order insertion_order]
  have "(0 :: nat) < length (rule_contents en)" unfolding en(3) by simp
  then obtain lp cb ruleID cp where reg: "registered en 0 lp cb ruleID (getLockTTLForRule en 0) cp" "ruleID \<noteq> defaultRuleID"
    "eo_contextProvider (en_options en) \<noteq> None \<longrightarrow> cp \<noteq> None" using conjunct1 [OF c] by blast
  have "getLockTTLForRule en 0 = 30" using en(4) by (simp add: registered_def getLockTTLForRule_def)
  moreover obtain cp' where "cp = Some cp'" using reg(3) en(2) by (auto simp: defaultEngineOptions_def)
  ultimately show ?thesis using r en(1,3) reg(1,2) conjunct2 [OF c] by metis
qed

text \<open>
  The missing rule ID: \<open>AddRule\<close> panics, but the rule has been registered by then. It is in
  the rule manager, the key processor finds it under its slash counts with the next index, and no
  settings exist for the index.
\<close>

theorem AddRule_missing_ID_leaves_rule:
  assumes "engine_reach ord en" and "no_expansion en" and "constraints_ok (eo_constraints (en_options en))"
    and "ro_ruleID (makeRuleOptions options) = defaultRuleID"
  shows "\<exists>en'. AddRule ord n en rule lp cb options = (en', Panic) \<and>
    rule_contents en' = rule_contents en @ [en_heap en rule] \<and> registered en' = registered en \<and>
    (\<forall>k. has_slashes (en_heap en rule) k \<longrightarrow> index_of (kp_rm (en_keyProc en')) k rule = Some (length (rule_contents en)))"
proof -
  note inv = engine_reach_inv [OF assms(1)]
  obtain rm' where add: "addRule ord (en_heap en) (en_ruleMgr en) rule = Ret (rm', length (rm_rules (en_ruleMgr en)))"
    using engine_manager_returns [OF inv assms(3)] by blast
  have rules: "rm_rules rm' = rm_rules (en_ruleMgr en) @ [rule]"
    and cur: "length (rm_rules (en_ruleMgr en)) = rm_currentIndex (en_ruleMgr en)"
    and idx: "index_of rm' k r = (if r = rule \<and> has_slashes (en_heap en rule) k then Some (rm_currentIndex (en_ruleMgr en))
      else index_of (en_ruleMgr en) k r)" for k r
    using addRule_Ret [OF add] by metis+
  have "AddRule ord n en rule lp cb options = (set_manager rm' en, Panic)"
    using AddRule_no_expansion [OF assms(2)] add assms(4) by (simp add: engine_addRule_def Let_def)
  moreover have "rule_contents (set_manager rm' en) = rule_contents en @ [en_heap en rule]"
    "registered (set_manager rm' en) = registered en"
    by (simp_all add: set_manager_def rule_contents_def rules registered_def fun_eq_iff)
  moreover have "index_of (kp_rm (en_keyProc (set_manager rm' en))) k rule = Some (length (rule_contents en))"
    if "has_slashes (en_heap en rule) k" for k
    using idx [of k rule] that cur by (simp add: set_manager_def index_of_def rule_contents_def)
  ultimately show ?thesis by blast
qed

theorem AddRule_missing_ID_leaves_rule_witness:
  "\<exists>en r en'. newV3Engine [] 0 1 = Ret en \<and> NewEqualsLiteralRule ''/a/:x'' (Some ''1'') = Inr r \<and>
     AddRule insertion_order 1 (snd (new_rule r en)) 0 ''/lock/:x'' 42 [] = (en', Panic) \<and>
     rule_contents en' = [r] \<and> index_of (kp_rm (en_keyProc en')) 2 0 = Some 0"
proof -
  define r where "r = projr (NewEqualsLiteralRule ''/a/:x'' (Some ''1''))"
  have r: "NewEqualsLiteralRule ''/a/:x'' (Some ''1'') = Inr r" unfolding r_def by (rule Inr_projr) code_simp
  have sl: "has_slashes r 2" unfolding r_def by code_simp
  obtain en where en: "newV3Engine [] 0 1 = Ret en" "engine_reach insertion_order (snd (new_rule r en))"
    "en_options (snd (new_rule r en)) = defaultEngineOptions" "en_heap (snd (new_rule r en)) 0 = r"
    "en_next (snd (new_rule r en)) = 1" "rule_contents (snd (new_rule r en)) = []"
    using newV3Engine_default_reach [of 0 1 insertion_order r] by (elim exE conjE)
  have "no_expansion (snd (new_rule r en))" "constraints_ok (eo_constraints (en_options (snd (new_rule r en))))"
    unfolding no_expansion_def en(3) by (simp_all add: defaultEngineOptions_def constraints_ok_def)
  moreover have "ro_ruleID (makeRuleOptions []) = defaultRuleID" by (simp add: makeRuleOptions_def)
  ultimately show ?thesis
    using AddRule_missing_ID_leaves_rule [OF en(2), of "[]" 1 0 "''/lock/:x''" 42] en(1,4,6) r sl by auto
qed





end
