(* ===== verification/Shutdown.thy ===== *)
theory Shutdown
  imports Engine
begin

text \<open>
  The start and stop protocol of the engine: the loops \<open>run\<close> of the crawler, the watchers and the
  workers as program counters, the flags \<open>stopping\<close> and \<open>stopped\<close> (\<open>rules/atomic.go\<close>), the
  channels \<open>stopCh\<close> (unbuffered) and \<open>done\<close> (one message), and the goroutines that execute
  \<open>stop\<close> of \<open>rules/engine.go\<close>, all interleaved in one step relation.

  What an iteration of a loop does between its visible actions is one step of arbitrary length. The
  busy waiting of \<open>stopstoppables\<close> is a step that is enabled when all \<open>stopped\<close> flags are set: the
  flags are read one after the other, but none is ever taken back. The cancellation of the crawler's
  context only shortens a step.
\<close>

section \<open>Definitions\<close>

subsection \<open>The loops\<close>

datatype crawler_pc = CrStart | CrLoop | CrBody | CrEnd | CrDone

record crawler_proc =
  cr_pc :: crawler_pc
  cr_stopping :: bool
  cr_stopped :: bool

inductive crawler_step :: "crawler_proc \<Rightarrow> crawler_proc \<Rightarrow> bool" where
  cr_start: "cr_pc c = CrStart \<Longrightarrow> crawler_step c (c\<lparr>cr_pc := CrLoop, cr_stopped := False\<rparr>)"
| cr_again: "cr_pc c = CrLoop \<Longrightarrow> \<not> cr_stopping c \<Longrightarrow> crawler_step c (c\<lparr>cr_pc := CrBody\<rparr>)"
| cr_body: "cr_pc c = CrBody \<Longrightarrow> crawler_step c (c\<lparr>cr_pc := CrLoop\<rparr>)"
| cr_leave: "cr_pc c = CrLoop \<Longrightarrow> cr_stopping c \<Longrightarrow> crawler_step c (c\<lparr>cr_pc := CrEnd\<rparr>)"
| cr_end: "cr_pc c = CrEnd \<Longrightarrow> crawler_step c (c\<lparr>cr_pc := CrDone, cr_stopped := True\<rparr>)"

text \<open>
  A watcher: \<open>next\<close> hands out an event that is left in the buffer (\<open>wa_events\<close> of them) or waits
  for a response of etcd or the stop channel; then \<open>singleRun\<close> sleeps or passes the key on.
\<close>

datatype watcher_pc = WaStart | WaLoop | WaNext | WaSelect | WaRest | WaEnd | WaDone

record watcher_proc =
  wa_pc :: watcher_pc
  wa_events :: nat
  wa_stopping :: bool
  wa_stopped :: bool

inductive watcher_step :: "watcher_proc \<Rightarrow> watcher_proc \<Rightarrow> bool" where
  wa_start: "wa_pc w = WaStart \<Longrightarrow> watcher_step w (w\<lparr>wa_pc := WaLoop, wa_stopped := False\<rparr>)"
| wa_again: "wa_pc w = WaLoop \<Longrightarrow> \<not> wa_stopping w \<Longrightarrow> watcher_step w (w\<lparr>wa_pc := WaNext\<rparr>)"
| wa_buffered: "wa_pc w = WaNext \<Longrightarrow> wa_events w = Suc n \<Longrightarrow> watcher_step w (w\<lparr>wa_pc := WaRest, wa_events := n\<rparr>)"
| wa_select: "wa_pc w = WaNext \<Longrightarrow> wa_events w = 0 \<Longrightarrow> watcher_step w (w\<lparr>wa_pc := WaSelect\<rparr>)"
| wa_response: "wa_pc w = WaSelect \<Longrightarrow> watcher_step w (w\<lparr>wa_pc := WaRest, wa_events := n\<rparr>)"
| wa_rest: "wa_pc w = WaRest \<Longrightarrow> watcher_step w (w\<lparr>wa_pc := WaLoop\<rparr>)"
| wa_leave: "wa_pc w = WaLoop \<Longrightarrow> wa_stopping w \<Longrightarrow> watcher_step w (w\<lparr>wa_pc := WaEnd\<rparr>)"
| wa_end: "wa_pc w = WaEnd \<Longrightarrow> watcher_step w (w\<lparr>wa_pc := WaDone, wa_stopped := True\<rparr>)"

text \<open>A worker: it waits for the channel \<open>done\<close> or work, and looks at its flag again before it works.\<close>

datatype worker_pc = WkStart | WkLoop | WkSelect | WkGot | WkBusy | WkEnd | WkDone

record worker_proc =
  wk_pc :: worker_pc
  wk_done :: nat
  wk_stopping :: bool
  wk_stopped :: bool

inductive worker_step :: "worker_proc \<Rightarrow> worker_proc \<Rightarrow> bool" where
  wk_start: "wk_pc w = WkStart \<Longrightarrow> worker_step w (w\<lparr>wk_pc := WkLoop, wk_stopped := False\<rparr>)"
| wk_again: "wk_pc w = WkLoop \<Longrightarrow> \<not> wk_stopping w \<Longrightarrow> worker_step w (w\<lparr>wk_pc := WkSelect\<rparr>)"
| wk_receive: "wk_pc w = WkSelect \<Longrightarrow> wk_done w = Suc n \<Longrightarrow> worker_step w (w\<lparr>wk_pc := WkLoop, wk_done := n\<rparr>)"
| wk_work: "wk_pc w = WkSelect \<Longrightarrow> worker_step w (w\<lparr>wk_pc := WkGot\<rparr>)"
| wk_drop: "wk_pc w = WkGot \<Longrightarrow> wk_stopping w \<Longrightarrow> worker_step w (w\<lparr>wk_pc := WkLoop\<rparr>)"
| wk_do: "wk_pc w = WkGot \<Longrightarrow> \<not> wk_stopping w \<Longrightarrow> worker_step w (w\<lparr>wk_pc := WkBusy\<rparr>)"
| wk_finish: "wk_pc w = WkBusy \<Longrightarrow> worker_step w (w\<lparr>wk_pc := WkLoop\<rparr>)"
| wk_leave: "wk_pc w = WkLoop \<Longrightarrow> wk_stopping w \<Longrightarrow> worker_step w (w\<lparr>wk_pc := WkEnd\<rparr>)"
| wk_end: "wk_pc w = WkEnd \<Longrightarrow> worker_step w (w\<lparr>wk_pc := WkDone, wk_stopped := True\<rparr>)"

subsection \<open>Stopping\<close>

text \<open>The actions of a goroutine that executes \<open>stop\<close>.\<close>

datatype stop_action =
    FlagCrawler nat
  | FlagWatcher nat
  | SendStopCh nat
  | FlagWorker nat
  | SendDone nat
  | AwaitCrawlers
  | AwaitWatchers
  | AwaitWorkers
  | MarkStopped

record engine_procs =
  er_crawlers :: "crawler_proc list"
  er_watchers :: "watcher_proc list"
  er_workers :: "worker_proc list"
  er_stoppers :: "stop_action list list"
  er_stopped :: bool

definition crawler_stop :: "nat \<Rightarrow> stop_action list" where
  "crawler_stop i = [FlagCrawler i]"

definition watcher_stop :: "nat \<Rightarrow> stop_action list" where
  "watcher_stop i = [FlagWatcher i, SendStopCh i]"

definition worker_stop :: "nat \<Rightarrow> stop_action list" where
  "worker_stop i = [FlagWorker i, SendDone i]"

definition stopstoppables :: "(nat \<Rightarrow> stop_action list) \<Rightarrow> nat \<Rightarrow> stop_action \<Rightarrow> stop_action list" where
  "stopstoppables stop n await = concat (map stop [0..<n]) @ [await]"

definition engine_stop :: "engine_procs \<Rightarrow> stop_action list" where
  "engine_stop s =
     stopstoppables crawler_stop (length (er_crawlers s)) AwaitCrawlers @
     stopstoppables watcher_stop (length (er_watchers s)) AwaitWatchers @
     concat (map worker_stop [0..<length (er_workers s)]) @
     stopstoppables worker_stop (length (er_workers s)) AwaitWorkers @
     [MarkStopped]"

text \<open>One action; \<open>None\<close> when it blocks.\<close>

primrec do_action :: "stop_action \<Rightarrow> engine_procs \<Rightarrow> engine_procs option" where
  "do_action (FlagCrawler i) s = Some (s\<lparr>er_crawlers := (er_crawlers s)[i := (er_crawlers s ! i)\<lparr>cr_stopping := True\<rparr>]\<rparr>)"
| "do_action (FlagWatcher i) s = Some (s\<lparr>er_watchers := (er_watchers s)[i := (er_watchers s ! i)\<lparr>wa_stopping := True\<rparr>]\<rparr>)"
| "do_action (SendStopCh i) s =
     (if wa_pc (er_watchers s ! i) = WaSelect
      then Some (s\<lparr>er_watchers := (er_watchers s)[i := (er_watchers s ! i)\<lparr>wa_pc := WaRest\<rparr>]\<rparr>) else None)"
| "do_action (FlagWorker i) s = Some (s\<lparr>er_workers := (er_workers s)[i := (er_workers s ! i)\<lparr>wk_stopping := True\<rparr>]\<rparr>)"
| "do_action (SendDone i) s =
     (if wk_done (er_workers s ! i) = 0
      then Some (s\<lparr>er_workers := (er_workers s)[i := (er_workers s ! i)\<lparr>wk_done := 1\<rparr>]\<rparr>) else None)"
| "do_action AwaitCrawlers s = (if list_all cr_stopped (er_crawlers s) then Some s else None)"
| "do_action AwaitWatchers s = (if list_all wa_stopped (er_watchers s) then Some s else None)"
| "do_action AwaitWorkers s = (if list_all wk_stopped (er_workers s) then Some s else None)"
| "do_action MarkStopped s = Some (s\<lparr>er_stopped := True\<rparr>)"

text \<open>
  The steps of the whole engine. \<open>Stop\<close> and \<open>Shutdown\<close> start one more goroutine that executes
  \<open>stop\<close>.
\<close>

inductive engine_step :: "engine_procs \<Rightarrow> engine_procs \<Rightarrow> bool" where
  step_crawler: "i < length (er_crawlers s) \<Longrightarrow> crawler_step (er_crawlers s ! i) c \<Longrightarrow>
    engine_step s (s\<lparr>er_crawlers := (er_crawlers s)[i := c]\<rparr>)"
| step_watcher: "i < length (er_watchers s) \<Longrightarrow> watcher_step (er_watchers s ! i) w \<Longrightarrow>
    engine_step s (s\<lparr>er_watchers := (er_watchers s)[i := w]\<rparr>)"
| step_worker: "i < length (er_workers s) \<Longrightarrow> worker_step (er_workers s ! i) w' \<Longrightarrow>
    engine_step s (s\<lparr>er_workers := (er_workers s)[i := w']\<rparr>)"
| step_call: "engine_step s (s\<lparr>er_stoppers := er_stoppers s @ [engine_stop s]\<rparr>)"
| step_stop: "j < length (er_stoppers s) \<Longrightarrow> er_stoppers s ! j = a # rest \<Longrightarrow> do_action a s = Some s' \<Longrightarrow>
    engine_step s (s'\<lparr>er_stoppers := (er_stoppers s)[j := rest]\<rparr>)"

text \<open>The engine when \<open>Run\<close> has started its parts.\<close>

definition run_start :: "engine_parts \<Rightarrow> engine_procs" where
  "run_start parts =
     \<lparr>er_crawlers = [\<lparr>cr_pc = CrStart, cr_stopping = False, cr_stopped = False\<rparr>],
      er_watchers = map (\<lambda>_. \<lparr>wa_pc = WaStart, wa_events = 0, wa_stopping = False, wa_stopped = False\<rparr>) (ep_watchers parts),
      er_workers = map (\<lambda>_. \<lparr>wk_pc = WkStart, wk_done = 0, wk_stopping = False, wk_stopped = False\<rparr>) (ep_workers parts),
      er_stoppers = [], er_stopped = False\<rparr>"

text \<open>
  \<open>Shutdown\<close> over what it sees at each round: the engine, and whether the context or the ticker ends
  the \<open>select\<close>. \<open>None\<close> is a call that still waits; the error is the context's.
\<close>

datatype shutdown_select = CtxDone string | Tick

fun Shutdown_loop :: "(engine_procs \<times> shutdown_select) list \<Rightarrow> string option option" where
  "Shutdown_loop [] = None"
| "Shutdown_loop ((s, sel) # rest) =
     (if er_stopped s then Some None
      else case sel of CtxDone err \<Rightarrow> Some (Some err) | Tick \<Rightarrow> Shutdown_loop rest)"


section \<open>Stopped means finished\<close>

inductive_cases crawler_step_cases: "crawler_step c c'"
inductive_cases watcher_step_cases: "watcher_step w w'"
inductive_cases worker_step_cases: "worker_step w w'"

lemma in_set_update: "x \<in> set (xs[i := y]) \<Longrightarrow> i < length xs \<and> x = y \<or> x \<in> set xs"
  using set_update_subset_insert [of xs i y] by (cases "i < length xs") (auto simp: not_less list_update_beyond)

text \<open>Only a loop that has ended has its flag set, and an ended loop takes no more steps.\<close>

definition flags_ok :: "engine_procs \<Rightarrow> bool" where
  "flags_ok s \<longleftrightarrow>
     (\<forall>c \<in> set (er_crawlers s). cr_stopped c \<longrightarrow> cr_pc c = CrDone) \<and>
     (\<forall>w \<in> set (er_watchers s). wa_stopped w \<longrightarrow> wa_pc w = WaDone) \<and>
     (\<forall>w \<in> set (er_workers s). wk_stopped w \<longrightarrow> wk_pc w = WkDone)"

text \<open>
  The interface \<open>stoppable\<close>: the flag that \<open>isStopped\<close> reads is only set by the last step of a
  loop, and a loop that has ended takes no more steps.
\<close>

locale stoppable =
  fixes step :: "'x \<Rightarrow> 'x \<Rightarrow> bool" and is_stopped :: "'x \<Rightarrow> bool" and ended :: "'x \<Rightarrow> bool"
  assumes flag_last: "step x x' \<Longrightarrow> is_stopped x' \<Longrightarrow> is_stopped x \<or> ended x'"
    and ended_stays: "ended x \<Longrightarrow> \<not> step x x'"
begin

text \<open>What a step of one of several loops means for all of them.\<close>

lemma step_in_list:
  assumes "i < length xs" and "step (xs ! i) x" and "\<forall>y \<in> set xs. is_stopped y \<longrightarrow> ended y"
  shows "\<not> list_all is_stopped xs \<and> (\<forall>y \<in> set (xs[i := x]). is_stopped y \<longrightarrow> ended y)"
proof -
  have "\<not> is_stopped (xs ! i)" using assms ended_stays nth_mem by blast
  then have "is_stopped x \<longrightarrow> ended x" using flag_last [OF assms(2)] by blast
  then show ?thesis
    using \<open>\<not> is_stopped (xs ! i)\<close> assms(1,3) by (auto simp: list_all_length dest!: in_set_update)
qed

end

interpretation crawlers: stoppable crawler_step cr_stopped "\<lambda>c. cr_pc c = CrDone"
  by unfold_locales (auto elim: crawler_step_cases)

interpretation watchers: stoppable watcher_step wa_stopped "\<lambda>w. wa_pc w = WaDone"
  by unfold_locales (auto elim: watcher_step_cases)

interpretation workers: stoppable worker_step wk_stopped "\<lambda>w. wk_pc w = WkDone"
  by unfold_locales (auto elim: worker_step_cases)

text \<open>The actions of \<open>stop\<close> leave flags and counters alone, apart from a watcher that receives.\<close>

definition all_stopped :: "engine_procs \<Rightarrow> bool" where
  "all_stopped s \<longleftrightarrow> list_all cr_stopped (er_crawlers s) \<and> list_all wa_stopped (er_watchers s) \<and> list_all wk_stopped (er_workers s)"

lemma map_update_same: "f y = f (xs ! i) \<Longrightarrow> map f (xs[i := y]) = map f xs"
  by (metis list_update_id map_update)

lemma do_action_flags:
  assumes "do_action a s = Some s'"
  shows "map cr_stopped (er_crawlers s') = map cr_stopped (er_crawlers s)"
    and "map wa_stopped (er_watchers s') = map wa_stopped (er_watchers s)"
    and "map wk_stopped (er_workers s') = map wk_stopped (er_workers s)"
    and "er_stoppers s' = er_stoppers s" and "er_stopped s' \<longleftrightarrow> er_stopped s \<or> a = MarkStopped"
  using assms by (cases a; auto simp: map_update_same split: if_splits)+


lemma do_action_flags_ok: "do_action a s = Some s' \<Longrightarrow> flags_ok s \<Longrightarrow> flags_ok s'"
  unfolding flags_ok_def by (cases a) (auto split: if_splits dest!: in_set_update dest: nth_mem)

text \<open>
  A goroutine that has passed a waiting point has seen all flags of the kind set, and marking the
  engine as stopped is its last action.
\<close>

definition stopper_ok :: "engine_procs \<Rightarrow> stop_action list \<Rightarrow> bool" where
  "stopper_ok s p \<longleftrightarrow>
     (AwaitCrawlers \<in> set p \<or> list_all cr_stopped (er_crawlers s)) \<and>
     (AwaitWatchers \<in> set p \<or> list_all wa_stopped (er_watchers s)) \<and>
     (AwaitWorkers \<in> set p \<or> list_all wk_stopped (er_workers s)) \<and>
     (p \<noteq> [] \<longrightarrow> last p = MarkStopped \<and> MarkStopped \<notin> set (butlast p))"

definition shutdown_inv :: "engine_procs \<Rightarrow> bool" where
  "shutdown_inv s \<longleftrightarrow> flags_ok s \<and> (\<forall>p \<in> set (er_stoppers s). stopper_ok s p) \<and> (er_stopped s \<longrightarrow> all_stopped s)"

lemma stopper_ok_engine_stop: "stopper_ok s (engine_stop s)"
  by (auto simp: stopper_ok_def engine_stop_def stopstoppables_def crawler_stop_def watcher_stop_def worker_stop_def
      butlast_append)

lemma stopper_ok_mono:
  assumes "stopper_ok s p"
    and "list_all cr_stopped (er_crawlers s) \<Longrightarrow> list_all cr_stopped (er_crawlers s')"
    and "list_all wa_stopped (er_watchers s) \<Longrightarrow> list_all wa_stopped (er_watchers s')"
    and "list_all wk_stopped (er_workers s) \<Longrightarrow> list_all wk_stopped (er_workers s')"
  shows "stopper_ok s' p"
  using assms by (auto simp: stopper_ok_def)

lemma stopper_ok_rest: "stopper_ok s (a # rest) \<Longrightarrow> do_action a s = Some s' \<Longrightarrow> stopper_ok s rest"
  by (cases a) (auto simp: stopper_ok_def split: if_splits)

lemma list_all_map_cong: "map f xs = map f ys \<Longrightarrow> list_all f xs = list_all f ys"
  unfolding list_all_iff by (metis (mono_tags) imageE imageI set_map)

lemma shutdown_inv_step:
  assumes "engine_step s s'" and "shutdown_inv s"
  shows "shutdown_inv s'"
  using assms
proof (induction rule: engine_step.induct)
  case (step_crawler i s c)
  have "\<not> list_all cr_stopped (er_crawlers s) \<and> (\<forall>y \<in> set ((er_crawlers s)[i := c]). cr_stopped y \<longrightarrow> cr_pc y = CrDone)"
    using step_crawler by (intro crawlers.step_in_list) (simp_all add: shutdown_inv_def flags_ok_def)
  then show ?case
    using step_crawler(3) by (auto simp: shutdown_inv_def flags_ok_def all_stopped_def elim!: stopper_ok_mono)
next
  case (step_watcher i s w)
  have "\<not> list_all wa_stopped (er_watchers s) \<and> (\<forall>y \<in> set ((er_watchers s)[i := w]). wa_stopped y \<longrightarrow> wa_pc y = WaDone)"
    using step_watcher by (intro watchers.step_in_list) (simp_all add: shutdown_inv_def flags_ok_def)
  then show ?case
    using step_watcher(3) by (auto simp: shutdown_inv_def flags_ok_def all_stopped_def elim!: stopper_ok_mono)
next
  case (step_worker i s w)
  have "\<not> list_all wk_stopped (er_workers s) \<and> (\<forall>y \<in> set ((er_workers s)[i := w]). wk_stopped y \<longrightarrow> wk_pc y = WkDone)"
    using step_worker by (intro workers.step_in_list) (simp_all add: shutdown_inv_def flags_ok_def)
  then show ?case
    using step_worker(3) by (auto simp: shutdown_inv_def flags_ok_def all_stopped_def elim!: stopper_ok_mono)
next
  case (step_call s)
  then show ?case
    using stopper_ok_engine_stop [of s]
    by (auto simp: shutdown_inv_def flags_ok_def all_stopped_def elim!: stopper_ok_mono)
next
  case (step_stop j s a rest s')
  have now: "stopper_ok s (a # rest)" using step_stop by (auto simp: shutdown_inv_def dest: nth_mem)
  note flags = do_action_flags [OF step_stop(3)]
  note same = flags(1-3) [THEN list_all_map_cong]
  have "\<forall>p \<in> set ((er_stoppers s)[j := rest]). stopper_ok s p"
    using step_stop(4) stopper_ok_rest [OF now step_stop(3)] by (auto simp: shutdown_inv_def dest!: in_set_update)
  then have "\<forall>p \<in> set ((er_stoppers s)[j := rest]). stopper_ok (s'\<lparr>er_stoppers := (er_stoppers s)[j := rest]\<rparr>) p"
    using same by (auto elim!: stopper_ok_mono)
  moreover have "all_stopped s" if "a = MarkStopped" using now that by (cases rest) (auto simp: stopper_ok_def all_stopped_def)
  moreover have "flags_ok s'" using do_action_flags_ok [OF step_stop(3)] step_stop(4) by (simp add: shutdown_inv_def)
  ultimately show ?case
    using step_stop(4) same flags(5) by (auto simp: shutdown_inv_def all_stopped_def flags_ok_def)
qed


section \<open>Runs\<close>

lemma run_shutdown_inv: "engine_step\<^sup>*\<^sup>* s s' \<Longrightarrow> shutdown_inv s \<Longrightarrow> shutdown_inv s'"
  by (induction rule: rtranclp_induct) (auto intro: shutdown_inv_step)

lemma run_start_inv: "shutdown_inv (run_start parts)"
  by (auto simp: shutdown_inv_def run_start_def flags_ok_def)

lemma step_stopped: "engine_step s s' \<Longrightarrow> er_stopped s \<Longrightarrow> er_stopped s'"
  by (induction rule: engine_step.induct) (auto simp: do_action_flags)

lemma run_stopped: "engine_step\<^sup>*\<^sup>* s s' \<Longrightarrow> er_stopped s \<Longrightarrow> er_stopped s'"
  by (induction rule: rtranclp_induct) (auto intro: step_stopped)

definition finished :: "engine_procs \<Rightarrow> bool" where
  "finished s \<longleftrightarrow> list_all (\<lambda>c. cr_pc c = CrDone) (er_crawlers s) \<and> list_all (\<lambda>w. wa_pc w = WaDone) (er_watchers s) \<and>
     list_all (\<lambda>w. wk_pc w = WkDone) (er_workers s)"

lemma inv_finished: "shutdown_inv s \<Longrightarrow> er_stopped s \<Longrightarrow> finished s"
  by (auto simp: shutdown_inv_def all_stopped_def flags_ok_def finished_def list_all_iff)

text \<open>The steps of one part are steps of the engine.\<close>

lemma crawler_runs:
  assumes "crawler_step\<^sup>*\<^sup>* c c'" and "i < length (er_crawlers s)" and "er_crawlers s ! i = c"
  shows "engine_step\<^sup>*\<^sup>* s (s\<lparr>er_crawlers := (er_crawlers s)[i := c']\<rparr>)"
  using assms
proof (induction rule: rtranclp_induct)
  case (step c1 c2)
  let ?s = "s\<lparr>er_crawlers := (er_crawlers s)[i := c1]\<rparr>"
  have "engine_step ?s (?s\<lparr>er_crawlers := (er_crawlers ?s)[i := c2]\<rparr>)"
    using step by (intro step_crawler) simp_all
  then show ?case using step by (simp add: rtranclp.rtrancl_into_rtrancl)
qed auto

lemma watcher_runs:
  assumes "watcher_step\<^sup>*\<^sup>* w w'" and "i < length (er_watchers s)" and "er_watchers s ! i = w"
  shows "engine_step\<^sup>*\<^sup>* s (s\<lparr>er_watchers := (er_watchers s)[i := w']\<rparr>)"
  using assms
proof (induction rule: rtranclp_induct)
  case (step w1 w2)
  let ?s = "s\<lparr>er_watchers := (er_watchers s)[i := w1]\<rparr>"
  have "engine_step ?s (?s\<lparr>er_watchers := (er_watchers ?s)[i := w2]\<rparr>)"
    using step by (intro step_watcher) simp_all
  then show ?case using step by (simp add: rtranclp.rtrancl_into_rtrancl)
qed auto

lemma worker_runs:
  assumes "worker_step\<^sup>*\<^sup>* w w'" and "i < length (er_workers s)" and "er_workers s ! i = w"
  shows "engine_step\<^sup>*\<^sup>* s (s\<lparr>er_workers := (er_workers s)[i := w']\<rparr>)"
  using assms
proof (induction rule: rtranclp_induct)
  case (step w1 w2)
  let ?s = "s\<lparr>er_workers := (er_workers s)[i := w1]\<rparr>"
  have "engine_step ?s (?s\<lparr>er_workers := (er_workers ?s)[i := w2]\<rparr>)"
    using step by (intro step_worker) simp_all
  then show ?case using step by (simp add: rtranclp.rtrancl_into_rtrancl)
qed auto

lemma stopper_acts:
  assumes "j < length (er_stoppers s)" and "er_stoppers s ! j = a # rest" and "do_action a s = Some s'"
  shows "engine_step\<^sup>*\<^sup>* s (s'\<lparr>er_stoppers := (er_stoppers s)[j := rest]\<rparr>)"
  using step_stop [OF assms] by blast

section \<open>Blocked sends\<close>

text \<open>A watcher that has ended receives no more: every goroutine that still has to send to it waits forever.\<close>

definition stuck_watcher :: "nat \<Rightarrow> engine_procs \<Rightarrow> bool" where
  "stuck_watcher i s \<longleftrightarrow> shutdown_inv s \<and> i < length (er_watchers s) \<and> wa_pc (er_watchers s ! i) = WaDone \<and>
     \<not> er_stopped s \<and> (\<forall>p \<in> set (er_stoppers s). SendStopCh i \<in> set p)"

text \<open>The same for a worker that has ended with a message left in its channel.\<close>

definition stuck_worker :: "nat \<Rightarrow> engine_procs \<Rightarrow> bool" where
  "stuck_worker i s \<longleftrightarrow> shutdown_inv s \<and> i < length (er_workers s) \<and> wk_pc (er_workers s ! i) = WkDone \<and>
     wk_done (er_workers s ! i) = 1 \<and> \<not> er_stopped s \<and> (\<forall>p \<in> set (er_stoppers s). SendDone i \<in> set p)"

lemma engine_stop_sends:
  "i < length (er_watchers s) \<Longrightarrow> SendStopCh i \<in> set (engine_stop s)"
  "i < length (er_workers s) \<Longrightarrow> SendDone i \<in> set (engine_stop s)"
  by (auto simp: engine_stop_def stopstoppables_def watcher_stop_def worker_stop_def)

lemma send_not_last: "stopper_ok s (MarkStopped # rest) \<Longrightarrow> rest = []"
  by (cases rest) (auto simp: stopper_ok_def)

text \<open>One lemma for both: an action that stays blocked keeps the engine from being marked.\<close>

lemma blocked_action_stays:
  assumes "shutdown_inv s" and "\<forall>p \<in> set (er_stoppers s). b \<in> set p" and "b \<noteq> MarkStopped"
    and "j < length (er_stoppers s)" and "er_stoppers s ! j = a # rest" and "do_action a s = Some s'"
    and "do_action b s = None"
  shows "a \<noteq> MarkStopped \<and> (\<forall>p \<in> set ((er_stoppers s)[j := rest]). b \<in> set p)"
proof -
  have mem: "a # rest \<in> set (er_stoppers s)" using assms(4,5) nth_mem by metis
  then have "b \<in> set (a # rest)" using assms(2) by blast
  moreover have "a \<noteq> b" using assms(6,7) by auto
  ultimately have "b \<in> set rest" by auto
  moreover have "stopper_ok s (a # rest)" using mem assms(1) by (simp add: shutdown_inv_def)
  ultimately show ?thesis using assms(2) send_not_last [of s rest] by (auto dest!: in_set_update)
qed

lemma nth_list_update_if: "xs[i := y] ! j = (if i = j \<and> j < length xs then y else xs ! j)"
  by (cases "i < length xs") (auto simp: nth_list_update not_less list_update_beyond)

lemma do_action_watcher_pc:
  "do_action a s = Some s' \<Longrightarrow> i < length (er_watchers s) \<Longrightarrow> wa_pc (er_watchers s ! i) = WaDone \<Longrightarrow>
     length (er_watchers s') = length (er_watchers s) \<and> wa_pc (er_watchers s' ! i) = WaDone"
  by (cases a) (auto simp: nth_list_update_if split: if_splits)

lemma do_action_worker_pc:
  "do_action a s = Some s' \<Longrightarrow> i < length (er_workers s) \<Longrightarrow> wk_pc (er_workers s ! i) = WkDone \<Longrightarrow>
     wk_done (er_workers s ! i) = 1 \<Longrightarrow>
     length (er_workers s') = length (er_workers s) \<and> wk_pc (er_workers s' ! i) = WkDone \<and> wk_done (er_workers s' ! i) = 1"
  by (cases a) (auto simp: nth_list_update_if split: if_splits)

lemma stuck_watcher_step: "engine_step s s' \<Longrightarrow> stuck_watcher i s \<Longrightarrow> stuck_watcher i s'"
proof -
  assume step: "engine_step s s'" and stuck: "stuck_watcher i s"
  have inv: "shutdown_inv s'" using shutdown_inv_step [OF step] stuck by (simp add: stuck_watcher_def)
  from step show "stuck_watcher i s'"
  proof (cases rule: engine_step.cases)
    case (step_watcher k w)
    then have "k \<noteq> i" using stuck watchers.ended_stays by (auto simp: stuck_watcher_def)
    then show ?thesis using step_watcher stuck inv by (simp add: stuck_watcher_def)
  next
    case (step_stop j a rest s1)
    have "do_action (SendStopCh i) s = None" using stuck by (simp add: stuck_watcher_def)
    then have "a \<noteq> MarkStopped \<and> (\<forall>p \<in> set ((er_stoppers s)[j := rest]). SendStopCh i \<in> set p)"
      using blocked_action_stays [of s "SendStopCh i", OF _ _ _ step_stop(2,3,4)] stuck unfolding stuck_watcher_def by blast
    then show ?thesis
      using do_action_watcher_pc [OF step_stop(4), of i] do_action_flags(5) [OF step_stop(4)] stuck inv step_stop(1)
      by (simp add: stuck_watcher_def)
  qed (use stuck inv engine_stop_sends(1) in \<open>auto simp: stuck_watcher_def\<close>)
qed

lemma stuck_worker_step: "engine_step s s' \<Longrightarrow> stuck_worker i s \<Longrightarrow> stuck_worker i s'"
proof -
  assume step: "engine_step s s'" and stuck: "stuck_worker i s"
  have inv: "shutdown_inv s'" using shutdown_inv_step [OF step] stuck by (simp add: stuck_worker_def)
  from step show "stuck_worker i s'"
  proof (cases rule: engine_step.cases)
    case (step_worker k w)
    then have "k \<noteq> i" using stuck workers.ended_stays by (auto simp: stuck_worker_def)
    then show ?thesis using step_worker stuck inv by (simp add: stuck_worker_def)
  next
    case (step_stop j a rest s1)
    have "do_action (SendDone i) s = None" using stuck by (simp add: stuck_worker_def)
    then have "a \<noteq> MarkStopped \<and> (\<forall>p \<in> set ((er_stoppers s)[j := rest]). SendDone i \<in> set p)"
      using blocked_action_stays [of s "SendDone i", OF _ _ _ step_stop(2,3,4)] stuck unfolding stuck_worker_def by blast
    then show ?thesis
      using do_action_worker_pc [OF step_stop(4), of i] do_action_flags(5) [OF step_stop(4)] stuck inv step_stop(1)
      by (simp add: stuck_worker_def)
  qed (use stuck inv engine_stop_sends(2) in \<open>auto simp: stuck_worker_def\<close>)
qed

lemma stuck_forever:
  "engine_step\<^sup>*\<^sup>* s s' \<Longrightarrow> stuck_watcher i s \<Longrightarrow> \<not> er_stopped s'"
  "engine_step\<^sup>*\<^sup>* s s' \<Longrightarrow> stuck_worker i s \<Longrightarrow> \<not> er_stopped s'"
proof -
  have "stuck_watcher i s'" if "engine_step\<^sup>*\<^sup>* s s'" "stuck_watcher i s"
    using that by (induction rule: rtranclp_induct) (auto intro: stuck_watcher_step)
  then show "engine_step\<^sup>*\<^sup>* s s' \<Longrightarrow> stuck_watcher i s \<Longrightarrow> \<not> er_stopped s'" by (simp add: stuck_watcher_def)
  have "stuck_worker i s'" if "engine_step\<^sup>*\<^sup>* s s'" "stuck_worker i s"
    using that by (induction rule: rtranclp_induct) (auto intro: stuck_worker_step)
  then show "engine_step\<^sup>*\<^sup>* s s' \<Longrightarrow> stuck_worker i s \<Longrightarrow> \<not> er_stopped s'" by (simp add: stuck_worker_def)
qed

section \<open>Stopping idle parts\<close>

text \<open>What is done for one part after the other, with the part of the goroutine's program that is for it.\<close>

lemma phase:
  assumes one: "\<And>xs i rest. i < length xs \<Longrightarrow> P (xs ! i) \<Longrightarrow>
      engine_step\<^sup>*\<^sup>* (F xs (prog i @ rest)) (F (xs[i := f (xs ! i)]) rest)"
    and "list_all P xs"
  shows "engine_step\<^sup>*\<^sup>* (F xs (concat (map prog [0..<length xs]) @ rest)) (F (map f xs) rest)"
proof -
  have "engine_step\<^sup>*\<^sup>* (F (map f (take k xs) @ drop k xs) (concat (map prog [k..<length xs]) @ rest)) (F (map f xs) rest)"
    if "k \<le> length xs" for k
    using that
  proof (induction rule: inc_induct)
    case (step k)
    let ?xs = "map f (take k xs) @ drop k xs"
    have k: "k < length ?xs" "?xs ! k = xs ! k" "?xs[k := f (xs ! k)] = map f (take (Suc k) xs) @ drop (Suc k) xs"
      using step(2) by (simp_all add: nth_append list_update_append take_Suc_conv_app_nth Cons_nth_drop_Suc [symmetric])
    have "engine_step\<^sup>*\<^sup>* (F ?xs (prog k @ concat (map prog [Suc k..<length xs]) @ rest))
        (F (map f (take (Suc k) xs) @ drop (Suc k) xs) (concat (map prog [Suc k..<length xs]) @ rest))"
      using one [OF k(1)] k(2,3) assms(2) step(2) by (simp add: list_all_length)
    then show ?case using step(2,3) by (simp add: upt_conv_Cons)
  qed simp
  from this [of 0] show ?thesis by simp
qed

definition ended_crawler :: "crawler_proc \<Rightarrow> crawler_proc" where
  "ended_crawler c = c\<lparr>cr_pc := CrDone, cr_stopping := True, cr_stopped := True\<rparr>"

definition ended_watcher :: "watcher_proc \<Rightarrow> watcher_proc" where
  "ended_watcher w = w\<lparr>wa_pc := WaDone, wa_stopping := True, wa_stopped := True\<rparr>"

definition ended_worker :: "worker_proc \<Rightarrow> worker_proc" where
  "ended_worker w = w\<lparr>wk_pc := WkDone, wk_stopping := True, wk_stopped := True\<rparr>"

lemma crawler_ends: "cr_pc c = CrLoop \<Longrightarrow> cr_stopping c \<Longrightarrow> crawler_step\<^sup>*\<^sup>* c (ended_crawler c)"
  using cr_leave [of c] cr_end [of "c\<lparr>cr_pc := CrEnd\<rparr>"]
  by (cases c rule: crawler_proc.cases) (simp add: ended_crawler_def converse_rtranclp_into_rtranclp)

lemma watcher_ends: "wa_pc w = WaRest \<Longrightarrow> wa_stopping w \<Longrightarrow> watcher_step\<^sup>*\<^sup>* w (ended_watcher w)"
  using wa_rest [of w] wa_leave [of "w\<lparr>wa_pc := WaLoop\<rparr>"] wa_end [of "w\<lparr>wa_pc := WaEnd\<rparr>"]
  by (cases w rule: watcher_proc.cases) (auto simp: ended_watcher_def intro: converse_rtranclp_into_rtranclp)

lemma worker_ends: "wk_pc w = WkLoop \<Longrightarrow> wk_stopping w \<Longrightarrow> worker_step\<^sup>*\<^sup>* w (ended_worker w)"
  using wk_leave [of w] wk_end [of "w\<lparr>wk_pc := WkEnd\<rparr>"]
  by (cases w rule: worker_proc.cases) (simp add: ended_worker_def converse_rtranclp_into_rtranclp)

lemma watcher_starts:
  "wa_pc w = WaStart \<Longrightarrow> \<not> wa_stopping w \<Longrightarrow> wa_events w = 0 \<Longrightarrow>
     watcher_step\<^sup>*\<^sup>* w (w\<lparr>wa_pc := WaSelect, wa_stopped := False\<rparr>)"
  using wa_start [of w] wa_again [of "w\<lparr>wa_pc := WaLoop, wa_stopped := False\<rparr>"]
    wa_select [of "w\<lparr>wa_pc := WaNext, wa_stopped := False\<rparr>"]
  by (cases w rule: watcher_proc.cases) (auto intro: converse_rtranclp_into_rtranclp)

lemma worker_starts:
  "wk_pc w = WkStart \<Longrightarrow> \<not> wk_stopping w \<Longrightarrow> worker_step\<^sup>*\<^sup>* w (w\<lparr>wk_pc := WkSelect, wk_stopped := False\<rparr>)"
  using wk_start [of w] wk_again [of "w\<lparr>wk_pc := WkLoop, wk_stopped := False\<rparr>"]
  by (cases w rule: worker_proc.cases) (auto intro: converse_rtranclp_into_rtranclp)

text \<open>The engine with one goroutine that executes \<open>stop\<close>.\<close>

definition stopping_run :: "crawler_proc list \<Rightarrow> watcher_proc list \<Rightarrow> worker_proc list \<Rightarrow> stop_action list \<Rightarrow> engine_procs" where
  "stopping_run cs ws ks p = \<lparr>er_crawlers = cs, er_watchers = ws, er_workers = ks, er_stoppers = [p], er_stopped = False\<rparr>"

lemma stopping_acts:
  "do_action a (stopping_run cs ws ks (a # p)) = Some s' \<Longrightarrow>
     engine_step\<^sup>*\<^sup>* (stopping_run cs ws ks (a # p)) (s'\<lparr>er_stoppers := [p]\<rparr>)"
  using stopper_acts [of 0 "stopping_run cs ws ks (a # p)" a p s'] by (simp add: stopping_run_def)

lemma stopping_crawler_runs:
  "crawler_step\<^sup>*\<^sup>* (cs ! i) c \<Longrightarrow> i < length cs \<Longrightarrow>
     engine_step\<^sup>*\<^sup>* (stopping_run cs ws ks p) (stopping_run (cs[i := c]) ws ks p)"
  using crawler_runs [of "cs ! i" c i "stopping_run cs ws ks p"] by (simp add: stopping_run_def)

lemma stopping_watcher_runs:
  "watcher_step\<^sup>*\<^sup>* (ws ! i) w \<Longrightarrow> i < length ws \<Longrightarrow>
     engine_step\<^sup>*\<^sup>* (stopping_run cs ws ks p) (stopping_run cs (ws[i := w]) ks p)"
  using watcher_runs [of "ws ! i" w i "stopping_run cs ws ks p"] by (simp add: stopping_run_def)

lemma stopping_worker_runs:
  "worker_step\<^sup>*\<^sup>* (ks ! i) k \<Longrightarrow> i < length ks \<Longrightarrow>
     engine_step\<^sup>*\<^sup>* (stopping_run cs ws ks p) (stopping_run cs ws (ks[i := k]) p)"
  using worker_runs [of "ks ! i" k i "stopping_run cs ws ks p"] by (simp add: stopping_run_def)

text \<open>How one idle part is stopped.\<close>

lemma stop_one_crawler:
  assumes "i < length cs" and "cr_pc (cs ! i) = CrLoop"
  shows "engine_step\<^sup>*\<^sup>* (stopping_run cs ws ks (crawler_stop i @ p)) (stopping_run (cs[i := ended_crawler (cs ! i)]) ws ks p)"
proof -
  let ?c = "(cs ! i)\<lparr>cr_stopping := True\<rparr>"
  have "engine_step\<^sup>*\<^sup>* (stopping_run cs ws ks (crawler_stop i @ p)) (stopping_run (cs[i := ?c]) ws ks p)"
    using stopping_acts [of "FlagCrawler i" cs ws ks p] by (simp add: crawler_stop_def stopping_run_def)
  also have "engine_step\<^sup>*\<^sup>* (stopping_run (cs[i := ?c]) ws ks p) (stopping_run (cs[i := ?c, i := ended_crawler ?c]) ws ks p)"
    using assms crawler_ends [of ?c] by (intro stopping_crawler_runs) simp_all
  finally show ?thesis by (simp add: ended_crawler_def)
qed

lemma stop_one_watcher:
  assumes "i < length ws" and "wa_pc (ws ! i) = WaSelect"
  shows "engine_step\<^sup>*\<^sup>* (stopping_run cs ws ks (watcher_stop i @ p)) (stopping_run cs (ws[i := ended_watcher (ws ! i)]) ks p)"
proof -
  let ?w = "(ws ! i)\<lparr>wa_stopping := True\<rparr>" and ?v = "(ws ! i)\<lparr>wa_stopping := True, wa_pc := WaRest\<rparr>"
  have "engine_step\<^sup>*\<^sup>* (stopping_run cs ws ks (watcher_stop i @ p)) (stopping_run cs (ws[i := ?w]) ks (SendStopCh i # p))"
    using stopping_acts [of "FlagWatcher i" cs ws ks "SendStopCh i # p"] by (simp add: watcher_stop_def stopping_run_def)
  also have "engine_step\<^sup>*\<^sup>* (stopping_run cs (ws[i := ?w]) ks (SendStopCh i # p)) (stopping_run cs (ws[i := ?v]) ks p)"
    using stopping_acts [of "SendStopCh i" cs "ws[i := ?w]" ks p] assms by (simp add: stopping_run_def)
  also have "engine_step\<^sup>*\<^sup>* (stopping_run cs (ws[i := ?v]) ks p) (stopping_run cs (ws[i := ?v, i := ended_watcher ?v]) ks p)"
    using assms watcher_ends [of ?v] by (intro stopping_watcher_runs) simp_all
  finally show ?thesis by (simp add: ended_watcher_def)
qed

lemma stop_one_worker:
  assumes "i < length ks" and "wk_pc (ks ! i) = WkSelect" and "wk_done (ks ! i) = 0"
  shows "engine_step\<^sup>*\<^sup>* (stopping_run cs ws ks (worker_stop i @ p)) (stopping_run cs ws (ks[i := ended_worker (ks ! i)]) p)"
proof -
  let ?w = "(ks ! i)\<lparr>wk_stopping := True\<rparr>" and ?v = "(ks ! i)\<lparr>wk_stopping := True, wk_done := 1\<rparr>"
  let ?u = "(ks ! i)\<lparr>wk_pc := WkLoop, wk_stopping := True\<rparr>"
  have "engine_step\<^sup>*\<^sup>* (stopping_run cs ws ks (worker_stop i @ p)) (stopping_run cs ws (ks[i := ?w]) (SendDone i # p))"
    using stopping_acts [of "FlagWorker i" cs ws ks "SendDone i # p"] by (simp add: worker_stop_def stopping_run_def)
  also have "engine_step\<^sup>*\<^sup>* (stopping_run cs ws (ks[i := ?w]) (SendDone i # p)) (stopping_run cs ws (ks[i := ?v]) p)"
    using stopping_acts [of "SendDone i" cs ws "ks[i := ?w]" p] assms by (simp add: stopping_run_def)
  also have "engine_step\<^sup>*\<^sup>* (stopping_run cs ws (ks[i := ?v]) p) (stopping_run cs ws (ks[i := ?v, i := ?u]) p)"
    using assms wk_receive [of ?v 0] by (intro stopping_worker_runs) (cases "ks ! i" rule: worker_proc.cases, auto)
  also have "engine_step\<^sup>*\<^sup>* \<dots> (stopping_run cs ws (ks[i := ?v, i := ?u, i := ended_worker ?u]) p)"
    using assms worker_ends [of ?u] by (intro stopping_worker_runs) simp_all
  finally show ?thesis by (simp add: ended_worker_def)
qed

text \<open>The second call for a worker that has received the first message.\<close>

lemma stop_worker_again:
  assumes "i < length ks" and "wk_done (ks ! i) = 0"
  shows "engine_step\<^sup>*\<^sup>* (stopping_run cs ws ks (worker_stop i @ p))
    (stopping_run cs ws (ks[i := (ks ! i)\<lparr>wk_stopping := True, wk_done := 1\<rparr>]) p)"
proof -
  let ?w = "(ks ! i)\<lparr>wk_stopping := True\<rparr>"
  have "engine_step\<^sup>*\<^sup>* (stopping_run cs ws ks (worker_stop i @ p)) (stopping_run cs ws (ks[i := ?w]) (SendDone i # p))"
    using stopping_acts [of "FlagWorker i" cs ws ks "SendDone i # p"] by (simp add: worker_stop_def stopping_run_def)
  also have "engine_step\<^sup>*\<^sup>* (stopping_run cs ws (ks[i := ?w]) (SendDone i # p))
      (stopping_run cs ws (ks[i := (ks ! i)\<lparr>wk_stopping := True, wk_done := 1\<rparr>]) p)"
    using stopping_acts [of "SendDone i" cs ws "ks[i := ?w]" p] assms by (simp add: stopping_run_def)
  finally show ?thesis .
qed

text \<open>How all idle crawlers and watchers are stopped and awaited.\<close>

lemma stop_crawlers:
  assumes "list_all (\<lambda>c. cr_pc c = CrLoop) cs"
  shows "engine_step\<^sup>*\<^sup>* (stopping_run cs ws ks (stopstoppables crawler_stop (length cs) AwaitCrawlers @ p))
    (stopping_run (map ended_crawler cs) ws ks p)"
proof -
  have "engine_step\<^sup>*\<^sup>* (stopping_run cs ws ks (concat (map crawler_stop [0..<length cs]) @ AwaitCrawlers # p))
      (stopping_run (map ended_crawler cs) ws ks (AwaitCrawlers # p))"
    using assms by (rule phase [rotated]) (rule stop_one_crawler)
  also have "engine_step\<^sup>*\<^sup>* \<dots> (stopping_run (map ended_crawler cs) ws ks p)"
    using stopping_acts [of AwaitCrawlers "map ended_crawler cs" ws ks p]
    by (simp add: stopping_run_def ended_crawler_def list_all_iff)
  finally show ?thesis by (simp add: stopstoppables_def)
qed

lemma stop_watchers:
  assumes "list_all (\<lambda>w. wa_pc w = WaSelect) ws"
  shows "engine_step\<^sup>*\<^sup>* (stopping_run cs ws ks (stopstoppables watcher_stop (length ws) AwaitWatchers @ p))
    (stopping_run cs (map ended_watcher ws) ks p)"
proof -
  have "engine_step\<^sup>*\<^sup>* (stopping_run cs ws ks (concat (map watcher_stop [0..<length ws]) @ AwaitWatchers # p))
      (stopping_run cs (map ended_watcher ws) ks (AwaitWatchers # p))"
    using assms by (rule phase [where F = "\<lambda>ws. stopping_run cs ws ks", rotated]) (rule stop_one_watcher)
  also have "engine_step\<^sup>*\<^sup>* \<dots> (stopping_run cs (map ended_watcher ws) ks p)"
    using stopping_acts [of AwaitWatchers cs "map ended_watcher ws" ks p]
    by (simp add: stopping_run_def ended_watcher_def list_all_iff)
  finally show ?thesis by (simp add: stopstoppables_def)
qed

text \<open>The two rounds over the workers.\<close>

lemma stop_workers:
  assumes "list_all (\<lambda>w. wk_pc w = WkSelect \<and> wk_done w = 0) ks"
  shows "\<exists>ks'. engine_step\<^sup>*\<^sup>*
    (stopping_run cs ws ks (concat (map worker_stop [0..<length ks]) @ stopstoppables worker_stop (length ks) AwaitWorkers @ p))
    (stopping_run cs ws ks' p)"
proof -
  let ?ks = "map ended_worker ks" and ?again = "\<lambda>w. w\<lparr>wk_stopping := True, wk_done := 1 :: nat\<rparr>"
  let ?p = "concat (map worker_stop [0..<length ?ks]) @ AwaitWorkers # p"
  have "engine_step\<^sup>*\<^sup>* (stopping_run cs ws ks (concat (map worker_stop [0..<length ks]) @ ?p)) (stopping_run cs ws ?ks ?p)"
    using assms by (rule phase [where F = "\<lambda>ks. stopping_run cs ws ks", rotated]) (simp add: stop_one_worker)
  also have "engine_step\<^sup>*\<^sup>* (stopping_run cs ws ?ks (concat (map worker_stop [0..<length ?ks]) @ AwaitWorkers # p))
      (stopping_run cs ws (map ?again ?ks) (AwaitWorkers # p))"
    by (rule phase [where F = "\<lambda>ks. stopping_run cs ws ks" and P = "\<lambda>w. wk_done w = 0"])
      (use assms in \<open>simp_all add: stop_worker_again [simplified] list_all_iff ended_worker_def\<close>)
  also have "engine_step\<^sup>*\<^sup>* \<dots> (stopping_run cs ws (map ?again ?ks) p)"
    using stopping_acts [of AwaitWorkers cs ws "map ?again ?ks" p]
    by (simp add: stopping_run_def ended_worker_def list_all_iff)
  finally show ?thesis by (auto simp: stopstoppables_def)
qed

definition idle :: "engine_procs \<Rightarrow> bool" where
  "idle s \<longleftrightarrow> list_all (\<lambda>c. cr_pc c = CrLoop) (er_crawlers s) \<and> list_all (\<lambda>w. wa_pc w = WaSelect) (er_watchers s) \<and>
     list_all (\<lambda>w. wk_pc w = WkSelect \<and> wk_done w = 0) (er_workers s) \<and> er_stoppers s = [] \<and> \<not> er_stopped s"

lemma stop_call:
  "er_stoppers s = [] \<Longrightarrow> \<not> er_stopped s \<Longrightarrow>
     engine_step\<^sup>*\<^sup>* s (stopping_run (er_crawlers s) (er_watchers s) (er_workers s) (engine_stop s))"
  using step_call [of s] by (cases s rule: engine_procs.cases) (auto simp: stopping_run_def)

lemma idle_stops:
  assumes "idle s"
  shows "\<exists>s'. engine_step\<^sup>*\<^sup>* s s' \<and> er_stopped s'"
proof -
  let ?cs = "er_crawlers s" and ?ws = "er_watchers s" and ?ks = "er_workers s"
  let ?p = "concat (map worker_stop [0..<length ?ks]) @ stopstoppables worker_stop (length ?ks) AwaitWorkers @ [MarkStopped]"
  let ?q = "stopstoppables watcher_stop (length ?ws) AwaitWatchers @ ?p"
  have "engine_step\<^sup>*\<^sup>* s (stopping_run ?cs ?ws ?ks (engine_stop s))"
    using assms by (intro stop_call) (simp_all add: idle_def)
  also have "engine_step\<^sup>*\<^sup>* (stopping_run ?cs ?ws ?ks (engine_stop s)) (stopping_run (map ended_crawler ?cs) ?ws ?ks ?q)"
    unfolding engine_stop_def using assms by (intro stop_crawlers) (simp add: idle_def)
  also have "engine_step\<^sup>*\<^sup>* \<dots> (stopping_run (map ended_crawler ?cs) (map ended_watcher ?ws) ?ks ?p)"
    using assms by (intro stop_watchers) (simp add: idle_def)
  also obtain ks where "engine_step\<^sup>*\<^sup>* (stopping_run (map ended_crawler ?cs) (map ended_watcher ?ws) ?ks ?p)
      (stopping_run (map ended_crawler ?cs) (map ended_watcher ?ws) ks [MarkStopped])"
    using stop_workers [of ?ks] assms unfolding idle_def by blast
  also have "engine_step\<^sup>*\<^sup>* (stopping_run (map ended_crawler ?cs) (map ended_watcher ?ws) ks [MarkStopped])
      (stopping_run (map ended_crawler ?cs) (map ended_watcher ?ws) ks [MarkStopped]\<lparr>er_stopped := True, er_stoppers := [[]]\<rparr>)"
    using stopping_acts [of MarkStopped "map ended_crawler ?cs" "map ended_watcher ?ws" ks "[]"] by simp
  finally show ?thesis by fastforce
qed

text \<open>After the start all parts become idle.\<close>

definition ready_run :: "engine_parts \<Rightarrow> engine_procs" where
  "ready_run parts = (run_start parts)
     \<lparr>er_crawlers := map (\<lambda>c. c\<lparr>cr_pc := CrLoop, cr_stopped := False\<rparr>) (er_crawlers (run_start parts)),
      er_watchers := map (\<lambda>w. w\<lparr>wa_pc := WaSelect, wa_stopped := False\<rparr>) (er_watchers (run_start parts)),
      er_workers := map (\<lambda>w. w\<lparr>wk_pc := WkSelect, wk_stopped := False\<rparr>) (er_workers (run_start parts))\<rparr>"

lemma ready_idle: "idle (ready_run parts)"
  by (simp add: ready_run_def run_start_def idle_def list_all_iff)

lemma run_start_ready: "engine_step\<^sup>*\<^sup>* (run_start parts) (ready_run parts)"
proof -
  let ?s = "run_start parts"
  let ?cs = "map (\<lambda>c. c\<lparr>cr_pc := CrLoop, cr_stopped := False\<rparr>) (er_crawlers ?s)"
  let ?ws = "map (\<lambda>w. w\<lparr>wa_pc := WaSelect, wa_stopped := False\<rparr>) (er_watchers ?s)"
  have "engine_step ?s (?s\<lparr>er_crawlers := ?cs\<rparr>)"
    using step_crawler [of 0 ?s, OF _ cr_start] by (simp add: run_start_def)
  also have "engine_step\<^sup>*\<^sup>* (?s\<lparr>er_crawlers := ?cs\<rparr>) (?s\<lparr>er_crawlers := ?cs, er_watchers := ?ws\<rparr>)"
    using phase [where F = "\<lambda>ws p. ?s\<lparr>er_crawlers := ?cs, er_watchers := ws\<rparr>" and prog = "\<lambda>_. []" and xs = "er_watchers ?s"
        and P = "\<lambda>w. wa_pc w = WaStart \<and> \<not> wa_stopping w \<and> wa_events w = 0" and rest = "[]"
        and f = "\<lambda>w. w\<lparr>wa_pc := WaSelect, wa_stopped := False\<rparr>"]
      watcher_runs [OF watcher_starts, of _ _ "?s\<lparr>er_crawlers := ?cs, er_watchers := _\<rparr>"]
    by (simp add: run_start_def list_all_iff)
  also have "engine_step\<^sup>*\<^sup>* (?s\<lparr>er_crawlers := ?cs, er_watchers := ?ws\<rparr>) (ready_run parts)"
    using phase [where F = "\<lambda>ks p. ?s\<lparr>er_crawlers := ?cs, er_watchers := ?ws, er_workers := ks\<rparr>" and prog = "\<lambda>_. []"
        and P = "\<lambda>w. wk_pc w = WkStart \<and> \<not> wk_stopping w" and rest = "[]" and xs = "er_workers ?s"
        and f = "\<lambda>w. w\<lparr>wk_pc := WkSelect, wk_stopped := False\<rparr>"]
      worker_runs [OF worker_starts, of _ _ "?s\<lparr>er_crawlers := ?cs, er_watchers := ?ws, er_workers := _\<rparr>"]
    by (simp add: run_start_def ready_run_def list_all_iff)
  finally show ?thesis .
qed

section \<open>Properties\<close>

text \<open>
  C5. \<open>Shutdown\<close> returns without error only when the loops of the crawler, all watchers and all
  workers have ended: then no loop runs any more, whatever else happens.
\<close>

theorem Shutdown_nil_means_finished:
  assumes "\<forall>(s, sel) \<in> set obs. engine_step\<^sup>*\<^sup>* (run_start parts) s" and "Shutdown_loop obs = Some None"
  shows "\<exists>(s, sel) \<in> set obs. \<forall>s'. engine_step\<^sup>*\<^sup>* s s' \<longrightarrow> er_stopped s' \<and> finished s'"
proof -
  have "\<exists>(s, sel) \<in> set obs. er_stopped s"
    using assms(2) by (induction obs rule: Shutdown_loop.induct) (auto split: if_splits shutdown_select.splits)
  then obtain s sel where s: "(s, sel) \<in> set obs" "er_stopped s" by blast
  have "engine_step\<^sup>*\<^sup>* (run_start parts) s" using assms(1) s(1) by blast
  then have "shutdown_inv s" using run_start_inv by (rule run_shutdown_inv)
  then have "er_stopped s' \<and> finished s'" if "engine_step\<^sup>*\<^sup>* s s'" for s'
    using run_shutdown_inv [OF that] run_stopped [OF that s(2)] inv_finished by blast
  then show ?thesis using s(1) by blast
qed


theorem Shutdown_nil_means_finished_witness:
  "let parts = \<lparr>ep_watchers = [], ep_crawler = newIntCrawler None [], ep_workers = []\<rparr>
   in \<exists>s obs. engine_step\<^sup>*\<^sup>* (run_start parts) s \<and> obs = [(run_start parts, Tick), (s, Tick)] \<and>
     Shutdown_loop obs = Some None \<and> finished s"
proof -
  let ?parts = "\<lparr>ep_watchers = [], ep_crawler = newIntCrawler None [], ep_workers = []\<rparr>"
  obtain s where "engine_step\<^sup>*\<^sup>* (ready_run ?parts) s" and s: "er_stopped s"
    using idle_stops [OF ready_idle] by blast
  then have run: "engine_step\<^sup>*\<^sup>* (run_start ?parts) s" using rtranclp_trans [OF run_start_ready] by blast
  let ?obs = "[(run_start ?parts, Tick), (s, Tick)]"
  have start: "\<not> er_stopped (run_start ?parts)" by (simp add: run_start_def)
  have sh: "Shutdown_loop ?obs = Some None" using s start by simp
  have all: "\<forall>(s, sel) \<in> set ?obs. engine_step\<^sup>*\<^sup>* (run_start ?parts) s" using run by simp
  obtain s1 sel where "(s1, sel) \<in> set ?obs" "er_stopped s1 \<and> finished s1"
    using Shutdown_nil_means_finished [OF all sh] by blast
  then have "finished s" using start by auto
  then show ?thesis unfolding Let_def using run sh by blast
qed

text \<open>
  An engine whose parts are idle, with watchers waiting for etcd and workers waiting for work,
  can be stopped: after a call of \<open>Stop\<close> there is a run that ends with the engine marked as stopped
  and all loops ended. Every engine becomes idle after \<open>Run\<close>.
\<close>

theorem idle_engine_can_stop:
  assumes "engine_step\<^sup>*\<^sup>* (run_start parts) s" and "idle s"
  shows "\<exists>s'. engine_step\<^sup>*\<^sup>* s s' \<and> er_stopped s' \<and> finished s'"
proof -
  obtain s' where s': "engine_step\<^sup>*\<^sup>* s s'" "er_stopped s'" using idle_stops [OF assms(2)] by blast
  have "shutdown_inv s'" using run_shutdown_inv [OF s'(1)] run_shutdown_inv [OF assms(1) run_start_inv] by blast
  then show ?thesis using s' inv_finished by blast
qed

theorem idle_engine_can_stop_witness:
  "\<exists>s s'. idle s \<and> length (er_watchers s) = 1 \<and> length (er_workers s) = 2 \<and>
     engine_step\<^sup>*\<^sup>* s s' \<and> er_stopped s' \<and> finished s'"
proof -
  let ?parts = "\<lparr>ep_watchers = [newV3Watcher ''/a/''], ep_crawler = newIntCrawler None [''/a/''],
    ep_workers = [''worker0'', ''worker1'']\<rparr>"
  have "length (er_watchers (ready_run ?parts)) = 1" "length (er_workers (ready_run ?parts)) = 2"
    by (simp_all add: ready_run_def run_start_def)
  then show ?thesis using idle_engine_can_stop [OF run_start_ready ready_idle, of ?parts] ready_idle [of ?parts] by blast
qed


text \<open>
  Stopping can block forever because of a watcher: \<open>stop\<close> sets the flag and then sends to the
  unbuffered channel. A watcher that is passing a key on, or sleeping after an error, when the flag is
  set, ends its loop without another look at the channel. From then on no run marks the engine as
  stopped, however often \<open>Stop\<close> or \<open>Shutdown\<close> are called. This can happen in every engine that
  has a watcher.
\<close>

theorem busy_watcher_blocks_stop:
  assumes "ep_watchers parts \<noteq> []"
  shows "\<exists>s. engine_step\<^sup>*\<^sup>* (run_start parts) s \<and> er_stoppers s \<noteq> [] \<and> (\<forall>s'. engine_step\<^sup>*\<^sup>* s s' \<longrightarrow> \<not> er_stopped s')"
proof -
  let ?r = "ready_run parts"
  let ?cs = "er_crawlers ?r" and ?ws = "er_watchers ?r" and ?ks = "er_workers ?r"
  let ?w = "(?ws ! 0)\<lparr>wa_pc := WaRest, wa_events := 0\<rparr>" and ?v = "(?ws ! 0)\<lparr>wa_pc := WaRest, wa_events := 0, wa_stopping := True\<rparr>"
  let ?s = "?r\<lparr>er_watchers := ?ws[0 := ?w]\<rparr>"
  have ws: "0 < length ?ws" using assms by (simp add: ready_run_def run_start_def)
  have idle: "idle ?r" by (rule ready_idle)
  have "wa_pc (?ws ! 0) = WaSelect" using idle ws by (simp add: idle_def list_all_length)
  then have "engine_step ?r ?s" using ws by (intro step_watcher wa_response)
  then have "engine_step\<^sup>*\<^sup>* (run_start parts) ?s" using run_start_ready [of parts] by simp
  also have "engine_step\<^sup>*\<^sup>* ?s (stopping_run ?cs (?ws[0 := ?w]) ?ks (engine_stop ?s))"
    using stop_call [of ?s] idle by (simp add: idle_def)
  also obtain p where p: "engine_stop ?s = stopstoppables crawler_stop (length ?cs) AwaitCrawlers @ FlagWatcher 0 # SendStopCh 0 # p"
    using ws by (simp add: engine_stop_def stopstoppables_def watcher_stop_def upt_conv_Cons)
  have "engine_step\<^sup>*\<^sup>* (stopping_run ?cs (?ws[0 := ?w]) ?ks (engine_stop ?s))
      (stopping_run (map ended_crawler ?cs) (?ws[0 := ?w]) ?ks (FlagWatcher 0 # SendStopCh 0 # p))"
    unfolding p using idle by (intro stop_crawlers) (simp add: idle_def)
  also have "engine_step\<^sup>*\<^sup>* \<dots> (stopping_run (map ended_crawler ?cs) (?ws[0 := ?v]) ?ks (SendStopCh 0 # p))"
    using stopping_acts [of "FlagWatcher 0" "map ended_crawler ?cs" "?ws[0 := ?w]" ?ks "SendStopCh 0 # p"] ws
    by (simp add: stopping_run_def)
  also have "engine_step\<^sup>*\<^sup>* \<dots>
      (stopping_run (map ended_crawler ?cs) (?ws[0 := ?v, 0 := ended_watcher ?v]) ?ks (SendStopCh 0 # p))"
    using ws watcher_ends [of ?v] by (intro stopping_watcher_runs) simp_all
  finally have run: "engine_step\<^sup>*\<^sup>* (run_start parts)
    (stopping_run (map ended_crawler ?cs) (?ws[0 := ?v, 0 := ended_watcher ?v]) ?ks (SendStopCh 0 # p))" (is "engine_step\<^sup>*\<^sup>* _ ?t") .
  have "stuck_watcher 0 ?t"
    using run_shutdown_inv [OF run run_start_inv] ws by (simp add: stuck_watcher_def stopping_run_def ended_watcher_def)
  then show ?thesis using run stuck_forever(1) [of ?t _ 0] by (intro exI [of _ ?t]) (simp add: stopping_run_def)
qed

theorem busy_watcher_blocks_stop_witness:
  "\<exists>s. engine_step\<^sup>*\<^sup>* (run_start \<lparr>ep_watchers = [newV3Watcher ''/a/''], ep_crawler = newIntCrawler None [''/a/''],
       ep_workers = [''worker0'']\<rparr>) s \<and>
     er_stoppers s \<noteq> [] \<and> (\<forall>s'. engine_step\<^sup>*\<^sup>* s s' \<longrightarrow> \<not> er_stopped s')"
  by (rule busy_watcher_blocks_stop) simp

text \<open>
  C38. The same for a worker: \<open>stop\<close> of the engine calls the workers' \<open>stop\<close> twice, each call puts a
  message into a channel for one message, and a worker that is busy at the first call ends because
  of its flag and leaves the message there. The second call then blocks, and the engine is never
  marked as stopped. This can happen in every engine that has a worker.
\<close>

theorem busy_worker_blocks_stop:
  assumes "ep_workers parts \<noteq> []"
  shows "\<exists>s. engine_step\<^sup>*\<^sup>* (run_start parts) s \<and> list_all cr_stopped (er_crawlers s) \<and> list_all wa_stopped (er_watchers s) \<and>
    er_stoppers s \<noteq> [] \<and> (\<forall>s'. engine_step\<^sup>*\<^sup>* s s' \<longrightarrow> \<not> er_stopped s')"
proof -
  let ?r = "ready_run parts"
  let ?cs = "er_crawlers ?r" and ?ws = "er_watchers ?r" and ?ks = "er_workers ?r"
  let ?w = "(?ks ! 0)\<lparr>wk_pc := WkBusy\<rparr>" and ?v = "(?ks ! 0)\<lparr>wk_pc := WkBusy, wk_stopping := True, wk_done := 1\<rparr>"
  let ?u = "?v\<lparr>wk_pc := WkLoop\<rparr>"
  let ?s = "?r\<lparr>er_workers := ?ks[0 := ?w]\<rparr>" and ?cs' = "map ended_crawler ?cs" and ?ws' = "map ended_watcher ?ws"
  have ks: "0 < length ?ks" "\<not> wk_stopping (?ks ! 0)" using assms by (simp_all add: ready_run_def run_start_def)
  have idle: "idle ?r" by (rule ready_idle)
  have pc: "wk_pc (?ks ! 0) = WkSelect" "wk_done (?ks ! 0) = 0" using idle ks by (simp_all add: idle_def list_all_length)
  have "worker_step (?ks ! 0) ((?ks ! 0)\<lparr>wk_pc := WkGot\<rparr>)" using pc(1) by (rule wk_work)
  moreover have "worker_step ((?ks ! 0)\<lparr>wk_pc := WkGot\<rparr>) ?w" using wk_do [of "(?ks ! 0)\<lparr>wk_pc := WkGot\<rparr>"] ks(2) by simp
  ultimately have "engine_step\<^sup>*\<^sup>* ?r ?s" using ks(1) by (intro worker_runs) auto
  with run_start_ready have "engine_step\<^sup>*\<^sup>* (run_start parts) ?s" by (rule rtranclp_trans)
  also have "engine_step\<^sup>*\<^sup>* ?s (stopping_run ?cs ?ws (?ks[0 := ?w]) (engine_stop ?s))"
    using stop_call [of ?s] idle by (simp add: idle_def)
  also obtain p where p: "engine_stop ?s = stopstoppables crawler_stop (length ?cs) AwaitCrawlers @
      stopstoppables watcher_stop (length ?ws) AwaitWatchers @ worker_stop 0 @ p" "SendDone 0 \<in> set p"
    using ks(1) by (simp add: engine_stop_def stopstoppables_def worker_stop_def upt_conv_Cons)
  have "engine_step\<^sup>*\<^sup>* (stopping_run ?cs ?ws (?ks[0 := ?w]) (engine_stop ?s))
      (stopping_run ?cs' ?ws (?ks[0 := ?w]) (stopstoppables watcher_stop (length ?ws) AwaitWatchers @ worker_stop 0 @ p))"
    unfolding p(1) using idle by (intro stop_crawlers) (simp add: idle_def)
  also have "engine_step\<^sup>*\<^sup>* \<dots> (stopping_run ?cs' ?ws' (?ks[0 := ?w]) (worker_stop 0 @ p))"
    using idle by (intro stop_watchers) (simp add: idle_def)
  also have "engine_step\<^sup>*\<^sup>* \<dots> (stopping_run ?cs' ?ws' (?ks[0 := ?v]) p)"
    using stop_worker_again [of 0 "?ks[0 := ?w]"] ks pc by simp
  also have "engine_step\<^sup>*\<^sup>* \<dots> (stopping_run ?cs' ?ws' (?ks[0 := ?v, 0 := ended_worker ?u]) p)"
    using ks(1) wk_finish [of ?v] worker_ends [of ?u]
    by (intro stopping_worker_runs) (simp_all add: converse_rtranclp_into_rtranclp)
  finally have run: "engine_step\<^sup>*\<^sup>* (run_start parts) (stopping_run ?cs' ?ws' (?ks[0 := ?v, 0 := ended_worker ?u]) p)"
    (is "engine_step\<^sup>*\<^sup>* _ ?t") .
  have "stuck_worker 0 ?t"
    using run_shutdown_inv [OF run run_start_inv] ks p(2) by (simp add: stuck_worker_def stopping_run_def ended_worker_def)
  then show ?thesis
    using run stuck_forever(2) [of ?t _ 0]
    by (intro exI [of _ ?t]) (simp add: stopping_run_def list_all_iff ended_crawler_def ended_watcher_def)
qed

theorem busy_worker_blocks_stop_witness:
  "\<exists>s. engine_step\<^sup>*\<^sup>* (run_start \<lparr>ep_watchers = [], ep_crawler = newIntCrawler None [], ep_workers = [''worker0'']\<rparr>) s \<and>
     list_all cr_stopped (er_crawlers s) \<and> list_all wa_stopped (er_watchers s) \<and>
     er_stoppers s \<noteq> [] \<and> (\<forall>s'. engine_step\<^sup>*\<^sup>* s s' \<longrightarrow> \<not> er_stopped s')"
  by (rule busy_worker_blocks_stop) simp

end
