(* ===== verification/Pipeline.thy ===== *)
theory Pipeline
  imports Shutdown "HOL-Library.Multiset" "HOL-Library.Sublist"
begin

text \<open>
  The data path of a running engine: \<open>processKey\<close> of the key processor puts tasks into
  \<open>kpChannel\<close>, the goroutines of \<open>keyWorker\<close> take them, evaluate the rules and send one work item
  for every satisfied rule to the engine's work channel, and the loops of the workers take the items
  (\<open>rules/key_processor.go\<close>, \<open>rules/engine.go\<close>, \<open>rules/worker.go\<close>). All of them are
  interleaved in one step relation over the two channels, whose capacities are those of the options
  \<open>keyProcBuffer\<close> and \<open>ruleWorkBuffer\<close>; a channel of capacity 0 hands over from a sender that
  waits to a receiver that waits.

  The workers are the program counters of theory Shutdown with the item they hold. Whatever the
  reads return while a key worker evaluates a task, and in whichever order its maps are visited, is
  open: the step chooses it. What a worker does with an item is theory Worker; that its goroutine
  ends is a step here. The logs of the state only record what happened.
\<close>

section \<open>Definitions\<close>

subsection \<open>State\<close>

datatype key_worker = KwReceive | KwProcess keyTask | KwSend "v3RuleWork list"

record pipe_worker =
  pw_proc :: worker_proc
  pw_work :: "v3RuleWork option"

record pipeline =
  pl_kpChannel :: "keyTask list"
  pl_workChannel :: "v3RuleWork list"
  pl_keyWorkers :: "key_worker list"
  pl_workers :: "pipe_worker list"
  pl_crashed :: bool
  pl_submitted :: "keyTask list"
  pl_taken :: "keyTask list"
  pl_evaluated :: "(keyTask \<times> v3RuleWork list) list"
  pl_sent :: "v3RuleWork list"
  pl_received :: "v3RuleWork list"
  pl_dropped :: "v3RuleWork list"
  pl_performed :: "v3RuleWork list"

definition kp_capacity :: "v3Engine \<Rightarrow> nat" where
  "kp_capacity en = nat (eo_keyProcBuffer (en_options en))"

definition work_capacity :: "v3Engine \<Rightarrow> nat" where
  "work_capacity en = nat (eo_ruleWorkBuffer (en_options en))"

definition set_worker :: "pipeline \<Rightarrow> nat \<Rightarrow> worker_proc \<Rightarrow> v3RuleWork option \<Rightarrow> pipeline" where
  "set_worker s j p x = s\<lparr>pl_workers := (pl_workers s)[j := \<lparr>pw_proc = p, pw_work = x\<rparr>]\<rparr>"

definition set_key_worker :: "pipeline \<Rightarrow> nat \<Rightarrow> key_worker \<Rightarrow> pipeline" where
  "set_key_worker s i k = s\<lparr>pl_keyWorkers := (pl_keyWorkers s)[i := k]\<rparr>"

text \<open>
  What a key worker finds when it evaluates a task, for some of the answers \<open>rd\<close> that the reads may
  give and for some orders of its maps.
\<close>

type_synonym read_answers = "(string list \<Rightarrow> string + read_get) \<Rightarrow> bool"

definition evaluates :: "v3Engine \<Rightarrow> read_answers \<Rightarrow> keyTask \<Rightarrow> (string list \<times> v3RuleWork list) go \<Rightarrow> bool" where
  "evaluates en rd task out \<longleftrightarrow>
     (\<exists>ord ord' getCachedAPI. rd getCachedAPI \<and> processKey ord ord' (en_heap en) (en_keyProc en) getCachedAPI
        (kt_key task) (kt_value task) (kt_metadata task) = out)"

subsection \<open>Steps\<close>

text \<open>
  Evaluating a task and sending its items are separate steps: \<open>processKey\<close> reads once, before its loop,
  so that what the loop decides does not depend on when its sends succeed. A dispatch that panics ends
  the process (\<open>crash\<close>); items of the same task that the loop had sent before are then not
  followed any further. The check of the flag that follows the \<open>select\<close> of a worker and the start of
  the goroutine for the item are one step, which happens at the check.
\<close>

datatype pipe_actor = Submitter | KeyWorker nat | Worker nat | Stopper

inductive pipe_step :: "v3Engine \<Rightarrow> read_answers \<Rightarrow> pipe_actor \<Rightarrow> pipeline \<Rightarrow> pipeline \<Rightarrow> bool" for en rd where
  submit: "\<not> pl_crashed s \<Longrightarrow> length (pl_kpChannel s) < kp_capacity en \<Longrightarrow>
    pipe_step en rd Submitter s
      (s\<lparr>pl_kpChannel := v3_processKey key v metadata (pl_kpChannel s),
         pl_submitted := v3_processKey key v metadata (pl_submitted s)\<rparr>)"
| submit_handover: "\<not> pl_crashed s \<Longrightarrow> pl_kpChannel s = [] \<Longrightarrow> i < length (pl_keyWorkers s) \<Longrightarrow>
    pl_keyWorkers s ! i = KwReceive \<Longrightarrow> v3_processKey key v metadata [] = [task] \<Longrightarrow>
    pipe_step en rd Submitter s
      ((set_key_worker s i (KwProcess task))\<lparr>pl_submitted := pl_submitted s @ [task], pl_taken := pl_taken s @ [task]\<rparr>)"
| take_task: "\<not> pl_crashed s \<Longrightarrow> i < length (pl_keyWorkers s) \<Longrightarrow> pl_keyWorkers s ! i = KwReceive \<Longrightarrow>
    pl_kpChannel s = task # rest \<Longrightarrow>
    pipe_step en rd (KeyWorker i) s
      ((set_key_worker s i (KwProcess task))\<lparr>pl_kpChannel := rest, pl_taken := pl_taken s @ [task]\<rparr>)"
| evaluate: "\<not> pl_crashed s \<Longrightarrow> i < length (pl_keyWorkers s) \<Longrightarrow> pl_keyWorkers s ! i = KwProcess task \<Longrightarrow>
    evaluates en rd task (Ret (ids, works)) \<Longrightarrow>
    pipe_step en rd (KeyWorker i) s
      ((set_key_worker s i (KwSend works))\<lparr>pl_evaluated := pl_evaluated s @ [(task, works)]\<rparr>)"
| crash: "\<not> pl_crashed s \<Longrightarrow> i < length (pl_keyWorkers s) \<Longrightarrow> pl_keyWorkers s ! i = KwProcess task \<Longrightarrow>
    evaluates en rd task Panic \<Longrightarrow>
    pipe_step en rd (KeyWorker i) s (s\<lparr>pl_crashed := True\<rparr>)"
| send: "\<not> pl_crashed s \<Longrightarrow> i < length (pl_keyWorkers s) \<Longrightarrow> pl_keyWorkers s ! i = KwSend (x # xs) \<Longrightarrow>
    length (pl_workChannel s) < work_capacity en \<Longrightarrow>
    pipe_step en rd (KeyWorker i) s
      ((set_key_worker s i (KwSend xs))\<lparr>pl_workChannel := pl_workChannel s @ [x], pl_sent := pl_sent s @ [x]\<rparr>)"
| send_handover: "\<not> pl_crashed s \<Longrightarrow> i < length (pl_keyWorkers s) \<Longrightarrow> pl_keyWorkers s ! i = KwSend (x # xs) \<Longrightarrow>
    pl_workChannel s = [] \<Longrightarrow> j < length (pl_workers s) \<Longrightarrow> wk_pc (pw_proc (pl_workers s ! j)) = WkSelect \<Longrightarrow>
    pipe_step en rd (KeyWorker i) s
      ((set_key_worker (set_worker s j ((pw_proc (pl_workers s ! j))\<lparr>wk_pc := WkGot\<rparr>) (Some x)) i (KwSend xs))
         \<lparr>pl_sent := pl_sent s @ [x], pl_received := pl_received s @ [x]\<rparr>)"
| sent_all: "\<not> pl_crashed s \<Longrightarrow> i < length (pl_keyWorkers s) \<Longrightarrow> pl_keyWorkers s ! i = KwSend [] \<Longrightarrow>
    pipe_step en rd (KeyWorker i) s (set_key_worker s i KwReceive)"
| worker_moves: "\<not> pl_crashed s \<Longrightarrow> j < length (pl_workers s) \<Longrightarrow> pw_work (pl_workers s ! j) = None \<Longrightarrow>
    worker_step (pw_proc (pl_workers s ! j)) p \<Longrightarrow> wk_pc p \<noteq> WkGot \<Longrightarrow>
    pipe_step en rd (Worker j) s (set_worker s j p None)"
| take_work: "\<not> pl_crashed s \<Longrightarrow> j < length (pl_workers s) \<Longrightarrow> wk_pc (pw_proc (pl_workers s ! j)) = WkSelect \<Longrightarrow>
    pl_workChannel s = x # rest \<Longrightarrow>
    pipe_step en rd (Worker j) s
      ((set_worker s j ((pw_proc (pl_workers s ! j))\<lparr>wk_pc := WkGot\<rparr>) (Some x))
         \<lparr>pl_workChannel := rest, pl_received := pl_received s @ [x]\<rparr>)"
| drop_work: "\<not> pl_crashed s \<Longrightarrow> j < length (pl_workers s) \<Longrightarrow> pl_workers s ! j = \<lparr>pw_proc = p, pw_work = Some x\<rparr> \<Longrightarrow>
    wk_pc p = WkGot \<Longrightarrow> wk_stopping p \<Longrightarrow>
    pipe_step en rd (Worker j) s
      ((set_worker s j (p\<lparr>wk_pc := WkLoop\<rparr>) None)\<lparr>pl_dropped := pl_dropped s @ [x]\<rparr>)"
| start_work: "\<not> pl_crashed s \<Longrightarrow> j < length (pl_workers s) \<Longrightarrow> pl_workers s ! j = \<lparr>pw_proc = p, pw_work = Some x\<rparr> \<Longrightarrow>
    wk_pc p = WkGot \<Longrightarrow> \<not> wk_stopping p \<Longrightarrow>
    pipe_step en rd (Worker j) s (set_worker s j (p\<lparr>wk_pc := WkBusy\<rparr>) (Some x))"
| end_work: "\<not> pl_crashed s \<Longrightarrow> j < length (pl_workers s) \<Longrightarrow> pl_workers s ! j = \<lparr>pw_proc = p, pw_work = Some x\<rparr> \<Longrightarrow>
    wk_pc p = WkBusy \<Longrightarrow>
    pipe_step en rd (Worker j) s
      ((set_worker s j (p\<lparr>wk_pc := WkLoop\<rparr>) None)\<lparr>pl_performed := pl_performed s @ [x]\<rparr>)"
| flag_worker: "\<not> pl_crashed s \<Longrightarrow> j < length (pl_workers s) \<Longrightarrow> pl_workers s ! j = \<lparr>pw_proc = p, pw_work = held\<rparr> \<Longrightarrow>
    pipe_step en rd Stopper s (set_worker s j (p\<lparr>wk_stopping := True\<rparr>) held)"
| send_done: "\<not> pl_crashed s \<Longrightarrow> j < length (pl_workers s) \<Longrightarrow> pl_workers s ! j = \<lparr>pw_proc = p, pw_work = held\<rparr> \<Longrightarrow>
    wk_stopping p \<Longrightarrow> wk_done p = 0 \<Longrightarrow>
    pipe_step en rd Stopper s (set_worker s j (p\<lparr>wk_done := 1\<rparr>) held)"

text \<open>The engine's data path when \<open>Run\<close> has started its workers, and the states it can reach.\<close>

definition pipe_start :: "v3Engine \<Rightarrow> pipeline" where
  "pipe_start en =
     \<lparr>pl_kpChannel = [], pl_workChannel = [],
      pl_keyWorkers = replicate (nat (eo_keyProcConcurrency (en_options en))) KwReceive,
      pl_workers = replicate (nat (eo_concurrency (en_options en)))
        \<lparr>pw_proc = \<lparr>wk_pc = WkStart, wk_done = 0, wk_stopping = False, wk_stopped = False\<rparr>, pw_work = None\<rparr>,
      pl_crashed = False, pl_submitted = [], pl_taken = [], pl_evaluated = [], pl_sent = [], pl_received = [],
      pl_dropped = [], pl_performed = []\<rparr>"

definition any_step :: "v3Engine \<Rightarrow> read_answers \<Rightarrow> pipeline \<Rightarrow> pipeline \<Rightarrow> bool" where
  "any_step en rd s s' \<longleftrightarrow> (\<exists>l. pipe_step en rd l s s')"

definition pipe_reach :: "v3Engine \<Rightarrow> read_answers \<Rightarrow> pipeline \<Rightarrow> bool" where
  "pipe_reach en rd = (any_step en rd)\<^sup>*\<^sup>* (pipe_start en)"

text \<open>The steps of the engine's own goroutines while nothing is submitted or stopped.\<close>

definition drain_step :: "v3Engine \<Rightarrow> read_answers \<Rightarrow> pipeline \<Rightarrow> pipeline \<Rightarrow> bool" where
  "drain_step en rd s s' \<longleftrightarrow> (\<exists>l. l \<noteq> Submitter \<and> l \<noteq> Stopper \<and> pipe_step en rd l s s')"

section \<open>Channels\<close>

text \<open>
  A bounded channel, seen through the list of what was sent and of what was received: every step
  leaves it alone, sends into a free place, receives the oldest message, or hands a message over
  while the buffer is empty.
\<close>

locale channel =
  fixes step :: "'s \<Rightarrow> 's \<Rightarrow> bool" and buffer sent received :: "'s \<Rightarrow> 'a list" and capacity :: nat
  assumes channel_step: "step s s' \<Longrightarrow>
    buffer s' = buffer s \<and> sent s' = sent s \<and> received s' = received s \<or>
    (\<exists>x. length (buffer s) < capacity \<and> buffer s' = buffer s @ [x] \<and> sent s' = sent s @ [x] \<and> received s' = received s) \<or>
    (\<exists>x. buffer s = x # buffer s' \<and> sent s' = sent s \<and> received s' = received s @ [x]) \<or>
    (\<exists>x. buffer s = [] \<and> buffer s' = [] \<and> sent s' = sent s @ [x] \<and> received s' = received s @ [x])"
begin

text \<open>First in, first out, nothing lost, and never more than the capacity.\<close>

lemma fifo:
  assumes "step\<^sup>*\<^sup>* s s'" and "sent s = received s @ buffer s" and "length (buffer s) \<le> capacity"
  shows "sent s' = received s' @ buffer s' \<and> length (buffer s') \<le> capacity"
  using assms
proof (induction rule: rtranclp_induct)
  case (step s1 s2)
  then show ?case using channel_step [OF step(2)] by auto
qed simp

text \<open>The logs only grow.\<close>

lemma received_grows: "step\<^sup>*\<^sup>* s s' \<Longrightarrow> prefix (received s) (received s')"
proof (induction rule: rtranclp_induct)
  case (step s1 s2)
  then show ?case using channel_step [OF step(2)] by (auto intro: prefix_order.trans)
qed simp

end

lemmas pipe_setters = set_worker_def set_key_worker_def v3_processKey_def

inductive_cases pipe_step_cases: "pipe_step en rd l s s'"

interpretation kpc: channel "any_step en rd" pl_kpChannel pl_submitted pl_taken "kp_capacity en" for en rd
proof
  fix s s'
  assume "any_step en rd s s'"
  then obtain l where "pipe_step en rd l s s'" by (auto simp: any_step_def)
  then show "pl_kpChannel s' = pl_kpChannel s \<and> pl_submitted s' = pl_submitted s \<and> pl_taken s' = pl_taken s \<or>
    (\<exists>x. length (pl_kpChannel s) < kp_capacity en \<and> pl_kpChannel s' = pl_kpChannel s @ [x] \<and>
       pl_submitted s' = pl_submitted s @ [x] \<and> pl_taken s' = pl_taken s) \<or>
    (\<exists>x. pl_kpChannel s = x # pl_kpChannel s' \<and> pl_submitted s' = pl_submitted s \<and> pl_taken s' = pl_taken s @ [x]) \<or>
    (\<exists>x. pl_kpChannel s = [] \<and> pl_kpChannel s' = [] \<and> pl_submitted s' = pl_submitted s @ [x] \<and>
       pl_taken s' = pl_taken s @ [x])"
    by cases (auto simp: pipe_setters)
qed

interpretation wc: channel "any_step en rd" pl_workChannel pl_sent pl_received "work_capacity en" for en rd
proof
  fix s s'
  assume "any_step en rd s s'"
  then obtain l where "pipe_step en rd l s s'" by (auto simp: any_step_def)
  then show "pl_workChannel s' = pl_workChannel s \<and> pl_sent s' = pl_sent s \<and> pl_received s' = pl_received s \<or>
    (\<exists>x. length (pl_workChannel s) < work_capacity en \<and> pl_workChannel s' = pl_workChannel s @ [x] \<and>
       pl_sent s' = pl_sent s @ [x] \<and> pl_received s' = pl_received s) \<or>
    (\<exists>x. pl_workChannel s = x # pl_workChannel s' \<and> pl_sent s' = pl_sent s \<and> pl_received s' = pl_received s @ [x]) \<or>
    (\<exists>x. pl_workChannel s = [] \<and> pl_workChannel s' = [] \<and> pl_sent s' = pl_sent s @ [x] \<and>
       pl_received s' = pl_received s @ [x])"
    by cases (auto simp: pipe_setters)
qed

section \<open>Conservation\<close>

lemma sum_list_map_update:
  fixes f :: "'a \<Rightarrow> 'b :: comm_monoid_add"
  shows "i < length xs \<Longrightarrow> sum_list (map f (xs[i := y])) + f (xs ! i) = sum_list (map f xs) + f y"
proof (induction xs arbitrary: i)
  case (Cons x xs)
  show ?case
  proof (cases i)
    case (Suc j)
    then show ?thesis using Cons.IH [of j] Cons.prems by (simp add: ac_simps)
  qed (simp add: ac_simps)
qed simp

text \<open>The tasks and items that a goroutine holds.\<close>

definition in_process :: "key_worker \<Rightarrow> keyTask multiset" where
  "in_process k = (case k of KwProcess t \<Rightarrow> {#t#} | _ \<Rightarrow> {#})"

definition to_send :: "key_worker \<Rightarrow> v3RuleWork multiset" where
  "to_send k = (case k of KwSend ws \<Rightarrow> mset ws | _ \<Rightarrow> {#})"

definition held :: "pipe_worker \<Rightarrow> v3RuleWork multiset" where
  "held w = (case pw_work w of Some x \<Rightarrow> {#x#} | None \<Rightarrow> {#})"

lemma holding_simps [simp]:
  "in_process KwReceive = {#}" "in_process (KwProcess t) = {#t#}" "in_process (KwSend ws) = {#}"
  "to_send KwReceive = {#}" "to_send (KwProcess t) = {#}" "to_send (KwSend ws) = mset ws"
  "held \<lparr>pw_proc = p, pw_work = None\<rparr> = {#}" "held \<lparr>pw_proc = p, pw_work = Some x\<rparr> = {#x#}"
  by (simp_all add: in_process_def to_send_def held_def)

abbreviation tasks_in_process :: "pipeline \<Rightarrow> keyTask multiset" where
  "tasks_in_process s \<equiv> sum_list (map in_process (pl_keyWorkers s))"

abbreviation items_to_send :: "pipeline \<Rightarrow> v3RuleWork multiset" where
  "items_to_send s \<equiv> sum_list (map to_send (pl_keyWorkers s))"

abbreviation items_held :: "pipeline \<Rightarrow> v3RuleWork multiset" where
  "items_held s \<equiv> sum_list (map held (pl_workers s))"

text \<open>A worker holds an item exactly while it is about to use it; only a flagged worker is told to end.\<close>

definition worker_ok :: "pipe_worker \<Rightarrow> bool" where
  "worker_ok w \<longleftrightarrow> (pw_work w \<noteq> None \<longleftrightarrow> wk_pc (pw_proc w) = WkGot \<or> wk_pc (pw_proc w) = WkBusy) \<and>
     (wk_done (pw_proc w) > 0 \<or> wk_pc (pw_proc w) = WkEnd \<or> wk_pc (pw_proc w) = WkDone \<longrightarrow> wk_stopping (pw_proc w))"

definition pipe_inv :: "v3Engine \<Rightarrow> read_answers \<Rightarrow> pipeline \<Rightarrow> bool" where
  "pipe_inv en rd s \<longleftrightarrow>
     mset (pl_taken s) = mset (map fst (pl_evaluated s)) + tasks_in_process s \<and>
     mset (concat (map snd (pl_evaluated s))) = mset (pl_sent s) + items_to_send s \<and>
     mset (pl_received s) = mset (pl_performed s) + mset (pl_dropped s) + items_held s \<and>
     (\<forall>(task, works) \<in> set (pl_evaluated s). \<exists>ids. evaluates en rd task (Ret (ids, works))) \<and>
     list_all worker_ok (pl_workers s) \<and>
     (pl_dropped s \<noteq> [] \<longrightarrow> list_ex (\<lambda>w. wk_stopping (pw_proc w)) (pl_workers s)) \<and>
     length (pl_keyWorkers s) = nat (eo_keyProcConcurrency (en_options en)) \<and>
     length (pl_workers s) = nat (eo_concurrency (en_options en))"

text \<open>What an update of one goroutine does to the sums.\<close>

lemma sum_move:
  fixes M N :: "'b multiset"
  assumes "M = N + sum_list (map f xs)" and "i < length xs" and "M' + f (xs ! i) + N = M + f y + N'"
  shows "M' = N' + sum_list (map f (xs[i := y]))"
proof -
  have "M' + f (xs ! i) + N = (N' + sum_list (map f (xs[i := y]))) + f (xs ! i) + N"
    using assms(3) sum_list_map_update [OF assms(2), of f y] by (simp add: assms(1) ac_simps)
  then show ?thesis by simp
qed

lemma list_all_update: "list_all P xs \<Longrightarrow> P y \<Longrightarrow> list_all P (xs[i := y])"
  by (auto simp: list_all_iff dest: in_set_update)

lemma sum_list_zeros [simp]: "sum_list (replicate n (0 :: 'a :: comm_monoid_add)) = 0"
  by (induction n) simp_all

lemma pipe_inv_start: "pipe_inv en rd (pipe_start en)"
  by (auto simp: pipe_inv_def pipe_start_def worker_ok_def list_all_iff)

lemma tasks_step:
  assumes "pipe_step en rd l s s'" and "mset (pl_taken s) = mset (map fst (pl_evaluated s)) + tasks_in_process s"
  shows "mset (pl_taken s') = mset (map fst (pl_evaluated s')) + tasks_in_process s'"
  using assms
proof cases
  case (submit_handover i key v metadata task)
  then show ?thesis by (auto simp: pipe_setters intro!: sum_move [OF assms(2)])
next
  case (take_task i task rest)
  then show ?thesis by (auto simp: pipe_setters intro!: sum_move [OF assms(2)])
next
  case (evaluate i task ids works)
  then show ?thesis using sum_move [OF assms(2), where i = i and y = "KwSend works" and M' = "mset (pl_taken s)"
      and N' = "add_mset task (mset (map fst (pl_evaluated s)))"] by (simp add: pipe_setters)
next
  case (send i x xs)
  then show ?thesis by (auto simp: pipe_setters intro!: sum_move [OF assms(2)])
next
  case (send_handover i x xs j)
  then show ?thesis by (auto simp: pipe_setters intro!: sum_move [OF assms(2)])
next
  case (sent_all i)
  then show ?thesis by (auto simp: pipe_setters intro!: sum_move [OF assms(2)])
qed (auto simp: pipe_setters)

lemma items_step:
  assumes "pipe_step en rd l s s'" and "mset (concat (map snd (pl_evaluated s))) = mset (pl_sent s) + items_to_send s"
  shows "mset (concat (map snd (pl_evaluated s'))) = mset (pl_sent s') + items_to_send s'"
  using assms
proof cases
  case (submit_handover i key v metadata task)
  then show ?thesis by (auto simp: pipe_setters intro!: sum_move [OF assms(2)])
next
  case (take_task i task rest)
  then show ?thesis by (auto simp: pipe_setters intro!: sum_move [OF assms(2)])
next
  case (evaluate i task ids works)
  then show ?thesis by (auto simp: pipe_setters intro!: sum_move [OF assms(2)])
next
  case (send i x xs)
  then show ?thesis using sum_move [OF assms(2), where i = i and y = "KwSend xs" and N' = "add_mset x (mset (pl_sent s))"
      and M' = "mset (concat (map snd (pl_evaluated s)))"] by (simp add: pipe_setters)
next
  case (send_handover i x xs j)
  then show ?thesis using sum_move [OF assms(2), where i = i and y = "KwSend xs" and N' = "add_mset x (mset (pl_sent s))"
      and M' = "mset (concat (map snd (pl_evaluated s)))"] by (simp add: pipe_setters)
next
  case (sent_all i)
  then show ?thesis by (auto simp: pipe_setters intro!: sum_move [OF assms(2)])
qed (auto simp: pipe_setters)

lemma held_step:
  assumes "pipe_step en rd l s s'"
    and "mset (pl_received s) = mset (pl_performed s) + mset (pl_dropped s) + items_held s"
    and "list_all worker_ok (pl_workers s)"
  shows "mset (pl_received s') = mset (pl_performed s') + mset (pl_dropped s') + items_held s'"
proof -
  note move = sum_move [OF assms(2)]
  have ok: "j < length (pl_workers s) \<Longrightarrow> worker_ok (pl_workers s ! j)" for j
    using assms(3) by (simp add: list_all_length)
  have none: "held (pl_workers s ! j) = {#}" if "j < length (pl_workers s)" "wk_pc (pw_proc (pl_workers s ! j)) = WkSelect" for j
    using ok [OF that(1)] that(2) by (simp add: worker_ok_def held_def)
  show ?thesis
    using assms(1)
  proof cases
    case (send_handover i x xs j)
    then show ?thesis using none by (auto simp: pipe_setters intro!: move)
  next
    case (take_work j x rest)
    then show ?thesis using none by (auto simp: pipe_setters intro!: move)
  next
    case (worker_moves j p)
    then show ?thesis by (auto simp: pipe_setters held_def intro!: move)
  next
    case (drop_work j p x)
    then show ?thesis
      using move [where i = j and y = "\<lparr>pw_proc = p\<lparr>wk_pc := WkLoop\<rparr>, pw_work = None\<rparr>" and M' = "mset (pl_received s)"
          and N' = "mset (pl_performed s) + add_mset x (mset (pl_dropped s))"] by (simp add: pipe_setters)
  next
    case (end_work j p x)
    then show ?thesis
      using move [where i = j and y = "\<lparr>pw_proc = p\<lparr>wk_pc := WkLoop\<rparr>, pw_work = None\<rparr>" and M' = "mset (pl_received s)"
          and N' = "add_mset x (mset (pl_performed s)) + mset (pl_dropped s)"] by (simp add: pipe_setters)
  next
    case (start_work j p x)
    then show ?thesis by (auto simp: pipe_setters intro!: move)
  next
    case (flag_worker j p h)
    then show ?thesis by (auto simp: pipe_setters held_def intro!: move)
  next
    case (send_done j p h)
    then show ?thesis by (auto simp: pipe_setters held_def intro!: move)
  qed (use assms(2) in \<open>auto simp: pipe_setters\<close>)
qed

lemma worker_ok_moves:
  "worker_ok w \<Longrightarrow> pw_work w = None \<Longrightarrow> worker_step (pw_proc w) p \<Longrightarrow> wk_pc p \<noteq> WkGot \<Longrightarrow>
     worker_ok \<lparr>pw_proc = p, pw_work = None\<rparr>"
  by (auto simp: worker_ok_def elim: worker_step_cases)

text \<open>
  A step of the data path is, for the workers, no step at all or a step of one worker in the sense of
  theory Shutdown: of its loop, or of a goroutine that stops the engine.
\<close>

definition proc_step :: "worker_proc \<Rightarrow> worker_proc \<Rightarrow> bool" where
  "proc_step p p' \<longleftrightarrow> worker_step p p' \<or> p' = p\<lparr>wk_stopping := True\<rparr> \<or> wk_done p = 0 \<and> p' = p\<lparr>wk_done := 1\<rparr>"

definition worker_change :: "pipeline \<Rightarrow> pipeline \<Rightarrow> nat \<Rightarrow> pipe_worker \<Rightarrow> bool" where
  "worker_change s s' j w \<longleftrightarrow> j < length (pl_workers s) \<and> pl_workers s' = (pl_workers s)[j := w] \<and>
     proc_step (pw_proc (pl_workers s ! j)) (pw_proc w) \<and> (worker_ok (pl_workers s ! j) \<longrightarrow> worker_ok w)"

lemma worker_changeI:
  "j < length (pl_workers s) \<Longrightarrow> pl_workers s' = (pl_workers s)[j := w] \<Longrightarrow>
     proc_step (pw_proc (pl_workers s ! j)) (pw_proc w) \<Longrightarrow>
     (worker_ok (pl_workers s ! j) \<Longrightarrow> worker_ok w) \<Longrightarrow> \<exists>j w. worker_change s s' j w"
  unfolding worker_change_def by blast

lemma pipe_step_workers:
  assumes "pipe_step en rd l s s'"
  shows "pl_workers s' = pl_workers s \<or> (\<exists>j w. worker_change s s' j w)"
  using assms
proof cases
  case (worker_moves j p)
  then show ?thesis
    by (intro disjI2 worker_changeI [where j = j and w = "\<lparr>pw_proc = p, pw_work = None\<rparr>"]) (auto simp: pipe_setters proc_step_def intro: worker_ok_moves)
qed (auto simp: pipe_setters proc_step_def worker_ok_def intro!: worker_changeI intro: worker_step.intros)

lemma proc_step_stopping: "proc_step p p' \<Longrightarrow> wk_stopping p \<Longrightarrow> wk_stopping p'"
  by (auto simp: proc_step_def elim: worker_step_cases)

lemma workers_step:
  assumes "pipe_step en rd l s s'"
  shows "list_all worker_ok (pl_workers s) \<Longrightarrow> list_all worker_ok (pl_workers s')"
    and "length (pl_workers s') = length (pl_workers s)"
    and "wk_stopping (pw_proc (pl_workers s ! k)) \<Longrightarrow> wk_stopping (pw_proc (pl_workers s' ! k))"
  using pipe_step_workers [OF assms]
  by (auto simp: worker_change_def list_all_length nth_list_update_if intro: proc_step_stopping)

lemma key_workers_step: "pipe_step en rd l s s' \<Longrightarrow> length (pl_keyWorkers s') = length (pl_keyWorkers s)"
  by (induction rule: pipe_step.induct) (simp_all add: pipe_setters)

lemma evaluated_step:
  assumes "pipe_step en rd l s s'" and "\<forall>(task, works) \<in> set (pl_evaluated s). \<exists>ids. evaluates en rd task (Ret (ids, works))"
  shows "\<forall>(task, works) \<in> set (pl_evaluated s'). \<exists>ids. evaluates en rd task (Ret (ids, works))"
  using assms by cases (auto simp: pipe_setters)

text \<open>Only a flagged worker drops an item.\<close>

lemma dropped_step:
  assumes "pipe_step en rd l s s'"
    and "pl_dropped s \<noteq> [] \<longrightarrow> list_ex (\<lambda>w. wk_stopping (pw_proc w)) (pl_workers s)"
  shows "pl_dropped s' \<noteq> [] \<longrightarrow> list_ex (\<lambda>w. wk_stopping (pw_proc w)) (pl_workers s')"
proof -
  have "pl_dropped s' = pl_dropped s \<or> list_ex (\<lambda>w. wk_stopping (pw_proc w)) (pl_workers s)"
    using assms(1) by cases (auto simp: pipe_setters list_ex_length)
  moreover have "list_ex (\<lambda>w. wk_stopping (pw_proc w)) (pl_workers s')"
    if "list_ex (\<lambda>w. wk_stopping (pw_proc w)) (pl_workers s)"
    using that workers_step(2,3) [OF assms(1)] by (auto simp: list_ex_length)
  ultimately show ?thesis using assms(2) by auto
qed

lemma pipe_inv_step:
  assumes "pipe_step en rd l s s'" and "pipe_inv en rd s"
  shows "pipe_inv en rd s'"
  using assms(2) tasks_step [OF assms(1)] items_step [OF assms(1)] held_step [OF assms(1)] evaluated_step [OF assms(1)]
    workers_step(1,2) [OF assms(1)] dropped_step [OF assms(1)] key_workers_step [OF assms(1)]
  unfolding pipe_inv_def by presburger

lemma pipe_reach_inv: "pipe_reach en rd s \<Longrightarrow> pipe_inv en rd s"
  unfolding pipe_reach_def
  by (induction rule: rtranclp_induct) (auto simp: any_step_def pipe_inv_start intro: pipe_inv_step)

lemma pipe_reach_fifo:
  assumes "pipe_reach en rd s"
  shows "pl_submitted s = pl_taken s @ pl_kpChannel s" and "length (pl_kpChannel s) \<le> kp_capacity en"
    and "pl_sent s = pl_received s @ pl_workChannel s" and "length (pl_workChannel s) \<le> work_capacity en"
  using kpc.fifo [of en rd "pipe_start en" s] wc.fifo [of en rd "pipe_start en" s] assms
  by (simp_all add: pipe_reach_def pipe_start_def)

section \<open>Key workers do not panic\<close>

text \<open>Evaluating a task returns, whatever the reads answer.\<close>

lemma processKey_returns:
  assumes "rm_inv heap (kp_rm kp)" and "admissible heap (kp_rm kp)" and "providers_set kp"
  shows "\<exists>ids ws. processKey ord ord' heap kp getCachedAPI key v metadata = Ret (ids, ws)"
proof -
  obtain out where out: "getStaticRules ord heap (kp_rm kp) key v = Ret out"
    and sel: "\<And>sr i. (sr, i) \<in> set out \<longleftrightarrow> (\<exists>a. selects heap (kp_rm kp) key v sr i a)"
    using getStaticRules_selects [OF assms(1,2)] by metis
  have "\<exists>w. dispatchWork kp i sr p metadata ruleID = Ret w"
    if e: "(sr, i) \<in> set (range_in ord' out)" "dispatches kp api (sr, i)" for api sr i p ruleID
  proof -
    have "(sr, i) \<in> set out" using e(1) by simp
    then obtain a where a: "selects heap (kp_rm kp) key v sr i a" unfolding sel by (elim exE)
    then have "gm_get (kp_contextProviders kp) i \<noteq> None"
      using assms(3) e(2) by (auto simp: providers_set_def dispatches_def selects_def last_index_def)
    then show ?thesis by (rule selects_dispatch(2) [OF assms(2) a])
  qed
  then have "\<exists>ids ws. dispatch_rules kp api metadata (range_in ord' out) = Ret (ids, ws)" for api
    using dispatch_rules_Ret by blast
  then show ?thesis
    by (cases "getCachedAPI (concat (map (\<lambda>(rule, index). getKeys rule) (range_in ord' out)))")
      (simp_all add: processKey_def out Let_def)
qed

lemma evaluates_returns:
  assumes "engine_reach ord0 en" and "admissible (en_heap en) (en_ruleMgr en)" and "eo_contextProvider (en_options en) \<noteq> None"
  shows "evaluates en rd task out \<Longrightarrow> \<exists>ids works. out = Ret (ids, works)"
    and "\<exists>api. rd api \<Longrightarrow> \<exists>ids works. evaluates en rd task (Ret (ids, works))"
proof -
  let ?kp = "full_keyProc en"
  note inv = engine_reach_inv [OF assms(1)]
  have rm: "rm_inv (en_heap en) (kp_rm ?kp)" using managed_inv [OF engine_managed [OF inv]] .
  have adm: "admissible (en_heap en) (kp_rm ?kp)" using assms(2) by (simp add: engine_simps)
  have ret: "\<exists>ids ws. processKey ord ord' (en_heap en) (en_keyProc en) api k v md = Ret (ids, ws)" for ord ord' api k v md
    using processKey_returns [OF rm adm engine_providers_set [OF inv assms(3)]] by (simp add: processKey_full(1) [OF inv])
  show "evaluates en rd task out \<Longrightarrow> \<exists>ids works. out = Ret (ids, works)"
    using ret by (auto simp: evaluates_def)
  show "\<exists>api. rd api \<Longrightarrow> \<exists>ids works. evaluates en rd task (Ret (ids, works))"
    using ret unfolding evaluates_def by blast
qed

lemma no_crash:
  assumes "engine_reach ord0 en" and "admissible (en_heap en) (en_ruleMgr en)" and "eo_contextProvider (en_options en) \<noteq> None"
    and "(any_step en rd)\<^sup>*\<^sup>* s s'" and "\<not> pl_crashed s"
  shows "\<not> pl_crashed s'"
  using assms(4,5)
proof (induction rule: rtranclp_induct)
  case (step s1 s2)
  then obtain l where "pipe_step en rd l s1 s2" by (auto simp: any_step_def)
  then show ?case using step evaluates_returns(1) [OF assms(1-3)] by cases (auto simp: pipe_setters)
qed simp

lemma pipe_reach_no_crash:
  "engine_reach ord0 en \<Longrightarrow> admissible (en_heap en) (en_ruleMgr en) \<Longrightarrow> eo_contextProvider (en_options en) \<noteq> None \<Longrightarrow>
     pipe_reach en rd s \<Longrightarrow> \<not> pl_crashed s"
  using no_crash [of ord0 en rd "pipe_start en" s] by (simp add: pipe_reach_def pipe_start_def)

section \<open>Draining\<close>

definition pc_rank :: "worker_pc \<Rightarrow> nat" where
  "pc_rank pc = (case pc of WkStart \<Rightarrow> 3 | WkLoop \<Rightarrow> 2 | WkSelect \<Rightarrow> 1 | WkGot \<Rightarrow> 4 | WkBusy \<Rightarrow> 3 | WkEnd \<Rightarrow> 1 | WkDone \<Rightarrow> 0)"

definition worker_rank :: "pipe_worker \<Rightarrow> nat" where
  "worker_rank w = pc_rank (wk_pc (pw_proc w)) + 2 * wk_done (pw_proc w)"

definition process_rank :: "key_worker \<Rightarrow> nat" where
  "process_rank k = (case k of KwProcess t \<Rightarrow> 1 | _ \<Rightarrow> 0)"

definition send_rank :: "key_worker \<Rightarrow> nat" where
  "send_rank k = (case k of KwSend ws \<Rightarrow> Suc (5 * length ws) | _ \<Rightarrow> 0)"

definition task_rank :: "pipeline \<Rightarrow> nat" where
  "task_rank s = (if pl_crashed s then 0 else 1) + 2 * length (pl_kpChannel s) + sum_list (map process_rank (pl_keyWorkers s))"

definition item_rank :: "pipeline \<Rightarrow> nat" where
  "item_rank s = sum_list (map send_rank (pl_keyWorkers s)) + 4 * length (pl_workChannel s) +
     sum_list (map worker_rank (pl_workers s))"

lemmas rank_defs = worker_rank_def process_rank_def send_rank_def pc_rank_def

lemma worker_step_rank:
  "worker_step (pw_proc w) p \<Longrightarrow> wk_pc p \<noteq> WkGot \<Longrightarrow> pw_work w = None \<Longrightarrow> worker_rank \<lparr>pw_proc = p, pw_work = None\<rparr> < worker_rank w"
  by (erule worker_step_cases) (auto simp: rank_defs)

lemma drain_decreases:
  assumes "drain_step en rd s s'"
  shows "(s', s) \<in> measures [task_rank, item_rank]"
proof -
  obtain l where l: "l \<noteq> Submitter" "l \<noteq> Stopper" and step: "pipe_step en rd l s s'"
    using assms by (auto simp: drain_step_def)
  note kw = sum_list_map_update [where xs = "pl_keyWorkers s"]
    and wk = sum_list_map_update [where xs = "pl_workers s" and f = worker_rank]
  show ?thesis
    using step l
  proof cases
    case (take_task i task rest)
    then show ?thesis
      using kw [of i process_rank "KwProcess task"] by (simp add: task_rank_def pipe_setters rank_defs)
  next
    case (evaluate i task ids works)
    then show ?thesis
      using kw [of i process_rank "KwSend works"] by (simp add: task_rank_def pipe_setters rank_defs)
  next
    case (crash i task)
    then show ?thesis by (simp add: task_rank_def)
  next
    case (send i x xs)
    then show ?thesis
      using kw [of i process_rank "KwSend xs"] kw [of i send_rank "KwSend xs"]
      by (simp add: task_rank_def item_rank_def pipe_setters process_rank_def send_rank_def)
  next
    case (send_handover i x xs j)
    then show ?thesis
      using kw [of i process_rank "KwSend xs"] kw [of i send_rank "KwSend xs"]
        wk [of j "\<lparr>pw_proc = (pw_proc (pl_workers s ! j))\<lparr>wk_pc := WkGot\<rparr>, pw_work = Some x\<rparr>"]
      by (simp add: task_rank_def item_rank_def pipe_setters rank_defs)
  next
    case (sent_all i)
    then show ?thesis
      using kw [of i process_rank KwReceive] kw [of i send_rank KwReceive]
      by (simp add: task_rank_def item_rank_def pipe_setters process_rank_def send_rank_def)
  next
    case (worker_moves j p)
    then show ?thesis
      using wk [of j "\<lparr>pw_proc = p, pw_work = None\<rparr>"] worker_step_rank [of "pl_workers s ! j" p]
      by (simp add: task_rank_def item_rank_def pipe_setters)
  next
    case (take_work j x rest)
    then show ?thesis
      using wk [of j "\<lparr>pw_proc = (pw_proc (pl_workers s ! j))\<lparr>wk_pc := WkGot\<rparr>, pw_work = Some x\<rparr>"]
      by (simp add: task_rank_def item_rank_def pipe_setters worker_rank_def pc_rank_def)
  next
    case (drop_work j p x)
    then show ?thesis
      using wk [of j "\<lparr>pw_proc = p\<lparr>wk_pc := WkLoop\<rparr>, pw_work = None\<rparr>"]
      by (simp add: task_rank_def item_rank_def pipe_setters worker_rank_def pc_rank_def)
  next
    case (start_work j p x)
    then show ?thesis
      using wk [of j "\<lparr>pw_proc = p\<lparr>wk_pc := WkBusy\<rparr>, pw_work = Some x\<rparr>"]
      by (simp add: task_rank_def item_rank_def pipe_setters worker_rank_def pc_rank_def)
  next
    case (end_work j p x)
    then show ?thesis
      using wk [of j "\<lparr>pw_proc = p\<lparr>wk_pc := WkLoop\<rparr>, pw_work = None\<rparr>"]
      by (simp add: task_rank_def item_rank_def pipe_setters worker_rank_def pc_rank_def)
  qed simp_all
qed

lemma wf_drain: "wf {(s', s). drain_step en rd s s'}"
  by (rule wf_subset [OF wf_measures [of "[task_rank, item_rank]"]]) (auto dest: drain_decreases)

text \<open>
  While no worker is flagged, an engine with a key worker and a worker is only at rest when every
  channel is empty and every goroutine waits for input.
\<close>

definition at_rest :: "pipeline \<Rightarrow> bool" where
  "at_rest s \<longleftrightarrow> pl_kpChannel s = [] \<and> pl_workChannel s = [] \<and> (\<forall>k \<in> set (pl_keyWorkers s). k = KwReceive) \<and>
     (\<forall>w \<in> set (pl_workers s). wk_pc (pw_proc w) = WkSelect \<and> pw_work w = None)"

definition unflagged :: "pipeline \<Rightarrow> bool" where
  "unflagged s \<longleftrightarrow> list_all (\<lambda>w. \<not> wk_stopping (pw_proc w)) (pl_workers s)"

lemma drainI: "pipe_step en rd (KeyWorker i) s s' \<Longrightarrow> drain_step en rd s s'" "pipe_step en rd (Worker j) s s' \<Longrightarrow> drain_step en rd s s'"
  by (auto simp: drain_step_def)

lemma blocked_worker_selects:
  assumes "\<not> pl_crashed s" and "\<nexists>s'. drain_step en rd s s'" and "j < length (pl_workers s)"
    and "worker_ok (pl_workers s ! j)" and "\<not> wk_stopping (pw_proc (pl_workers s ! j))"
  shows "wk_pc (pw_proc (pl_workers s ! j)) = WkSelect \<and> pw_work (pl_workers s ! j) = None"
proof (cases "pl_workers s ! j" rule: pipe_worker.cases)
  case (fields p h)
  have stuck: "\<not> pipe_step en rd (Worker j) s s'" for s' using assms(2) drainI(2) by blast
  note own = assms(1,3) fields
  show ?thesis
  proof (cases "wk_pc p")
    case WkStart
    then show ?thesis
      using stuck worker_moves [OF assms(1,3) _ wk_start, of en rd] assms(4) by (simp add: fields worker_ok_def)
  next
    case WkLoop
    then show ?thesis
      using stuck worker_moves [OF assms(1,3) _ wk_again, of en rd] assms(4,5) by (simp add: fields worker_ok_def)
  next
    case WkGot
    then show ?thesis using stuck start_work [OF assms(1,3), of p _ en] assms(4,5) by (auto simp: fields worker_ok_def)
  next
    case WkBusy
    then show ?thesis using stuck end_work [OF assms(1,3), of p _ en] assms(4) by (auto simp: fields worker_ok_def)
  qed (use assms(4,5) in \<open>auto simp: fields worker_ok_def\<close>)
qed

lemma stuck_at_rest:
  assumes eng: "engine_reach ord0 en" "admissible (en_heap en) (en_ruleMgr en)" "eo_contextProvider (en_options en) \<noteq> None"
    and rd: "\<exists>api. rd api"
    and "\<not> pl_crashed s" and "\<nexists>s'. drain_step en rd s s'" and "list_all worker_ok (pl_workers s)" and "unflagged s"
    and "pl_workers s \<noteq> []" and "pl_keyWorkers s \<noteq> []"
  shows "at_rest s"
proof -
  have sel: "wk_pc (pw_proc (pl_workers s ! j)) = WkSelect \<and> pw_work (pl_workers s ! j) = None" if "j < length (pl_workers s)" for j
    using assms(7,8) that by (intro blocked_worker_selects [OF assms(5,6)]) (simp_all add: list_all_length unflagged_def)
  have stuck: "\<not> pipe_step en rd (Worker j) s s'" "\<not> pipe_step en rd (KeyWorker j) s s'" for j s'
    using assms(6) drainI by blast+
  have wc: "pl_workChannel s = []"
    using stuck(1) [of 0] take_work [OF assms(5), of 0] sel [of 0] assms(9) by (cases "pl_workChannel s") auto
  have kw: "pl_keyWorkers s ! i = KwReceive" if "i < length (pl_keyWorkers s)" for i
  proof (cases "pl_keyWorkers s ! i")
    case (KwProcess task)
    obtain ids works where "evaluates en rd task (Ret (ids, works))" using evaluates_returns(2) [OF eng rd] by blast
    then show ?thesis using stuck(2) evaluate [OF assms(5) that KwProcess] by blast
  next
    case (KwSend ws)
    then show ?thesis
      using stuck(2) [of i] sent_all [OF assms(5) that] send_handover [OF assms(5) that, of _ _ 0] wc sel [of 0] assms(9)
      by (cases ws) auto
  qed
  have "pl_kpChannel s = []"
    using stuck(2) [of 0] take_task [OF assms(5), of 0] kw [of 0] assms(10) by (cases "pl_kpChannel s") auto
  then show ?thesis using wc kw sel by (auto simp: at_rest_def in_set_conv_nth)
qed

lemma unflagged_drain: "drain_step en rd s s' \<Longrightarrow> unflagged s \<Longrightarrow> unflagged s'"
  unfolding drain_step_def
  by (elim exE conjE, erule pipe_step_cases)
    (auto simp: pipe_setters unflagged_def list_all_length nth_list_update_if elim: worker_step_cases)

lemma drain_runs:
  "(drain_step en rd)\<^sup>*\<^sup>* s s' \<Longrightarrow> (any_step en rd)\<^sup>*\<^sup>* s s' \<and> (unflagged s \<longrightarrow> unflagged s') \<and> pl_submitted s' = pl_submitted s"
proof (induction rule: rtranclp_induct)
  case (step s1 s2)
  then obtain l where l: "pipe_step en rd l s1 s2" "l \<noteq> Submitter" by (auto simp: drain_step_def)
  have "pl_submitted s2 = pl_submitted s1" using l by cases (auto simp: pipe_setters)
  then show ?case
    using step l unflagged_drain [OF step(2)] by (auto simp: any_step_def intro: rtranclp.rtrancl_into_rtrancl)
qed simp

text \<open>At rest, everything has been done.\<close>

lemma at_rest_done:
  assumes "pipe_reach en rd s" and "at_rest s" and "unflagged s"
  shows "mset (map fst (pl_evaluated s)) = mset (pl_submitted s)"
    and "mset (pl_performed s) = mset (concat (map snd (pl_evaluated s)))"
proof -
  note inv = pipe_reach_inv [OF assms(1), unfolded pipe_inv_def] and fifo = pipe_reach_fifo [OF assms(1)]
  have z: "sum_list (map f xs) = {#}" if "\<And>x. x \<in> set xs \<Longrightarrow> f x = {#}" for f :: "'x \<Rightarrow> 'y multiset" and xs
    using that by (induction xs) auto
  have "tasks_in_process s = {#}" "items_to_send s = {#}" "items_held s = {#}"
    using assms(2) by (auto simp: at_rest_def held_def intro!: z)
  moreover have "pl_dropped s = []" using inv assms(3) by (auto simp: unflagged_def list_ex_iff list_all_iff)
  ultimately show "mset (map fst (pl_evaluated s)) = mset (pl_submitted s)"
    "mset (pl_performed s) = mset (concat (map snd (pl_evaluated s)))"
    using inv fifo assms(2) by (simp_all add: at_rest_def)
qed

text \<open>At rest, a key that is submitted is taken at once.\<close>

lemma at_rest_submits:
  assumes "at_rest s" and "\<not> pl_crashed s" and "pl_keyWorkers s \<noteq> []"
  shows "\<exists>s'. pipe_step en rd Submitter s s' \<and> pl_submitted s' = v3_processKey key v metadata (pl_submitted s)"
proof -
  let ?t = "\<lparr>kt_key = key, kt_value = v, kt_metadata = metadata\<rparr>"
  have "pipe_step en rd Submitter s
      ((set_key_worker s 0 (KwProcess ?t))\<lparr>pl_submitted := pl_submitted s @ [?t], pl_taken := pl_taken s @ [?t]\<rparr>)"
    using assms by (intro submit_handover [where key = key and v = v and metadata = metadata])
      (auto simp: at_rest_def v3_processKey_def)
  then show ?thesis by (intro exI conjI) (assumption, simp add: v3_processKey_def)
qed

lemma rules_admissible:
  "\<forall>r \<in> set (rm_rules (en_ruleMgr en)). built ord (en_heap en r) \<and> no_empty (en_heap en r) \<Longrightarrow>
     admissible (en_heap en) (en_ruleMgr en)"
  using built_wf built_fresh by (auto simp: admissible_def)

lemma drained:
  assumes "engine_reach ord0 en" and "\<forall>r \<in> set (rm_rules (en_ruleMgr en)). built ord0 (en_heap en r) \<and> no_empty (en_heap en r)"
    and "0 < eo_concurrency (en_options en)" and "0 < eo_keyProcConcurrency (en_options en)" and "rd api"
    and "pipe_reach en rd s" and "unflagged s" and "(drain_step en rd)\<^sup>*\<^sup>* s s'" and "\<nexists>s''. drain_step en rd s' s''"
    and "eo_contextProvider (en_options en) \<noteq> None"
  shows "pipe_reach en rd s'" and "mset (map fst (pl_evaluated s')) = mset (pl_submitted s)"
    and "mset (pl_performed s') = mset (concat (map snd (pl_evaluated s')))"
    and "\<exists>s''. pipe_step en rd Submitter s' s'' \<and> pl_submitted s'' = v3_processKey key v metadata (pl_submitted s')"
proof -
  note adm = rules_admissible [OF assms(2)] and d = drain_runs [OF assms(8)]
  show reach: "pipe_reach en rd s'" using d assms(6) by (auto simp: pipe_reach_def)
  have flags: "unflagged s'" using d assms(7) by simp
  note inv = pipe_reach_inv [OF reach, unfolded pipe_inv_def]
  have "pl_workers s' \<noteq> []" "pl_keyWorkers s' \<noteq> []" using inv assms(3,4) by auto
  then have rest: "at_rest s'"
    using stuck_at_rest [OF assms(1) adm assms(10) _ pipe_reach_no_crash [OF assms(1) adm assms(10) reach] assms(9) _ flags] assms(5) inv by blast
  then show "mset (map fst (pl_evaluated s')) = mset (pl_submitted s)"
    and "mset (pl_performed s') = mset (concat (map snd (pl_evaluated s')))"
    using at_rest_done [OF reach _ flags] d by simp_all
  show "\<exists>s''. pipe_step en rd Submitter s' s'' \<and> pl_submitted s'' = v3_processKey key v metadata (pl_submitted s')"
    using at_rest_submits [OF rest pipe_reach_no_crash [OF assms(1) adm assms(10) reach]] \<open>pl_keyWorkers s' \<noteq> []\<close> .
qed

section \<open>Stopping\<close>

text \<open>The items whose goroutine has started and not ended.\<close>

definition busy :: "pipe_worker \<Rightarrow> v3RuleWork multiset" where
  "busy w = (if wk_pc (pw_proc w) = WkBusy then held w else {#})"

abbreviation items_busy :: "pipeline \<Rightarrow> v3RuleWork multiset" where
  "items_busy s \<equiv> sum_list (map busy (pl_workers s))"

definition all_flagged :: "pipeline \<Rightarrow> bool" where
  "all_flagged s \<longleftrightarrow> list_all (\<lambda>w. wk_stopping (pw_proc w)) (pl_workers s)"

lemma all_flagged_step: "pipe_step en rd l s s' \<Longrightarrow> all_flagged s \<Longrightarrow> all_flagged s'"
  using workers_step(2,3) by (auto simp: all_flagged_def list_all_length)

text \<open>Flagged workers start nothing.\<close>

lemma flagged_step:
  assumes "pipe_step en rd l s s'" and "all_flagged s" and "list_all worker_ok (pl_workers s)"
  shows "mset (pl_performed s') + items_busy s' = mset (pl_performed s) + items_busy s"
proof -
  note wk = sum_list_map_update [where xs = "pl_workers s" and f = busy]
  have same: "items_busy s = sum_list (map busy ((pl_workers s)[j := w]))"
    if "busy w = busy (pl_workers s ! j)" for j w
    by (rule arg_cong [where f = sum_list]) (use map_update_same [of busy w "pl_workers s" j] that in simp)
  have ok: "j < length (pl_workers s) \<Longrightarrow> worker_ok (pl_workers s ! j)" for j
    using assms(3) by (simp add: list_all_length)
  have flag: "j < length (pl_workers s) \<Longrightarrow> wk_stopping (pw_proc (pl_workers s ! j))" for j
    using assms(2) by (simp add: all_flagged_def list_all_length)
  show ?thesis
    using assms(1)
  proof cases
    case (worker_moves j p)
    then have "wk_pc p \<noteq> WkBusy" "wk_pc (pw_proc (pl_workers s ! j)) \<noteq> WkBusy"
      using ok [of j] flag [of j] by (auto simp: worker_ok_def elim: worker_step_cases)
    then show ?thesis using worker_moves same [of "\<lparr>pw_proc = p, pw_work = None\<rparr>" j] by (simp add: pipe_setters busy_def)
  next
    case (start_work j p x)
    then show ?thesis using flag [of j] by simp
  next
    case (end_work j p x)
    then show ?thesis
      using wk [of j "\<lparr>pw_proc = p\<lparr>wk_pc := WkLoop\<rparr>, pw_work = None\<rparr>"] by (simp add: pipe_setters busy_def)
  qed (auto simp: pipe_setters busy_def held_def intro!: same [symmetric])
qed

lemma flagged_run:
  assumes "(any_step en rd)\<^sup>*\<^sup>* s s'" and "all_flagged s" and "list_all worker_ok (pl_workers s)"
  shows "all_flagged s' \<and> list_all worker_ok (pl_workers s') \<and>
    mset (pl_performed s') + items_busy s' = mset (pl_performed s) + items_busy s"
  using assms
proof (induction rule: rtranclp_induct)
  case (step s1 s2)
  then obtain l where l: "pipe_step en rd l s1 s2" by (auto simp: any_step_def)
  show ?case using step flagged_step [OF l] all_flagged_step [OF l] workers_step(1) [OF l] by simp
qed simp

text \<open>A worker that holds nothing, is told to end and has not begun, ends.\<close>

abbreviation new_proc :: worker_proc where
  "new_proc \<equiv> \<lparr>wk_pc = WkStart, wk_done = 0, wk_stopping = False, wk_stopped = False\<rparr>"

abbreviation ended_proc :: worker_proc where
  "ended_proc \<equiv> \<lparr>wk_pc = WkDone, wk_done = 0, wk_stopping = True, wk_stopped = True\<rparr>"

lemma pipe_worker_ends:
  assumes "\<not> pl_crashed s" and "j < length (pl_workers s)" and "pl_workers s ! j = \<lparr>pw_proc = new_proc, pw_work = None\<rparr>"
  shows "(any_step en rd)\<^sup>*\<^sup>* s (set_worker s j ended_proc None)"
proof -
  let ?p = "\<lambda>pc st. \<lparr>wk_pc = pc, wk_done = 0, wk_stopping = True, wk_stopped = st\<rparr>"
  have move: "any_step en rd (set_worker s j p None) (set_worker s j p' None)"
    if "worker_step p p'" "wk_pc p' \<noteq> WkGot" for p p'
  proof -
    have "pipe_step en rd (Worker j) (set_worker s j p None) (set_worker (set_worker s j p None) j p' None)"
      using assms that by (intro worker_moves) (simp_all add: set_worker_def)
    then show ?thesis by (auto simp: any_step_def set_worker_def)
  qed
  have flag: "any_step en rd s (set_worker s j (?p WkStart False) None)"
    using flag_worker [OF assms(1,2), of new_proc None en rd] assms(3) by (auto simp: any_step_def)
  have "any_step en rd (set_worker s j (?p WkStart False) None) (set_worker s j (?p WkLoop False) None)"
    using move [OF wk_start [of "?p WkStart False"]] by simp
  moreover have "any_step en rd (set_worker s j (?p WkLoop False) None) (set_worker s j (?p WkEnd False) None)"
    using move [OF wk_leave [of "?p WkLoop False"]] by simp
  moreover have "any_step en rd (set_worker s j (?p WkEnd False) None) (set_worker s j (?p WkDone True) None)"
    using move [OF wk_end [of "?p WkEnd False"]] by simp
  ultimately show ?thesis using flag by (meson converse_rtranclp_into_rtranclp rtranclp.rtrancl_refl)
qed

lemma workers_end:
  assumes "\<not> pl_crashed s" and "pl_workers s = ws @ replicate n \<lparr>pw_proc = new_proc, pw_work = None\<rparr>"
  shows "(any_step en rd)\<^sup>*\<^sup>* s (s\<lparr>pl_workers := ws @ replicate n \<lparr>pw_proc = ended_proc, pw_work = None\<rparr>\<rparr>)"
  using assms
proof (induction n arbitrary: s ws)
  case (Suc n)
  let ?e = "\<lparr>pw_proc = ended_proc, pw_work = None\<rparr>" and ?n = "\<lparr>pw_proc = new_proc, pw_work = None\<rparr>"
  let ?s = "set_worker s (length ws) ended_proc None"
  have "(any_step en rd)\<^sup>*\<^sup>* s ?s" using Suc.prems by (intro pipe_worker_ends) simp_all
  moreover have "(any_step en rd)\<^sup>*\<^sup>* ?s (?s\<lparr>pl_workers := (ws @ [?e]) @ replicate n ?e\<rparr>)"
    using Suc.prems by (intro Suc.IH) (simp_all add: set_worker_def)
  ultimately show ?case by (simp add: set_worker_def)
qed auto

text \<open>A key worker that has an item to send while no worker is left to receive it waits forever.\<close>

definition blocked_sender :: "v3Engine \<Rightarrow> nat \<Rightarrow> v3RuleWork list \<Rightarrow> pipeline \<Rightarrow> bool" where
  "blocked_sender en i works s \<longleftrightarrow>
     (\<forall>w \<in> set (pl_workers s). wk_pc (pw_proc w) = WkDone) \<and> list_all worker_ok (pl_workers s) \<and>
     work_capacity en \<le> length (pl_workChannel s) \<and> works \<noteq> [] \<and>
     i < length (pl_keyWorkers s) \<and> pl_keyWorkers s ! i = KwSend works"

lemma blocked_sender_step:
  assumes "pipe_step en rd l s s'" and "blocked_sender en i works s"
  shows "blocked_sender en i works s'"
proof -
  have ended: "wk_pc (pw_proc (pl_workers s ! j)) = WkDone" if "j < length (pl_workers s)" for j
    using assms(2) that by (auto simp: blocked_sender_def)
  have w: "\<forall>w \<in> set (pl_workers s'). wk_pc (pw_proc w) = WkDone"
    using pipe_step_workers [OF assms(1)]
  proof
    assume "\<exists>j w. worker_change s s' j w"
    then obtain j w where w: "worker_change s s' j w" by blast
    then have "wk_pc (pw_proc w) = WkDone"
      using ended [of j] by (auto simp: worker_change_def proc_step_def elim: worker_step_cases)
    then show ?thesis using w assms(2) by (auto simp: worker_change_def blocked_sender_def dest!: in_set_update)
  qed (use assms(2) in \<open>simp add: blocked_sender_def\<close>)
  have "work_capacity en \<le> length (pl_workChannel s') \<and> i < length (pl_keyWorkers s') \<and> pl_keyWorkers s' ! i = KwSend works"
    using assms ended
    by cases (auto simp: pipe_setters blocked_sender_def nth_list_update_if)
  then show ?thesis using w workers_step(1) [OF assms(1)] assms(2) by (simp add: blocked_sender_def)
qed

lemma blocked_sender_run: "(any_step en rd)\<^sup>*\<^sup>* s s' \<Longrightarrow> blocked_sender en i works s \<Longrightarrow> blocked_sender en i works s'"
  by (induction rule: rtranclp_induct) (auto simp: any_step_def intro: blocked_sender_step)

text \<open>A relation without infinite runs has a run to an end from every state.\<close>

lemma wf_run_ends:
  assumes "wf {(b, a). R a b}"
  shows "\<exists>b. R\<^sup>*\<^sup>* a b \<and> (\<nexists>c. R b c)"
  using assms
proof (induction a rule: wf_induct_rule)
  case (less a)
  show ?case
  proof (cases "\<exists>c. R a c")
    case True
    then obtain c where "R a c" by blast
    moreover obtain b where "R\<^sup>*\<^sup>* c b" "\<nexists>d. R b d" using less [of c] \<open>R a c\<close> by blast
    ultimately show ?thesis by (meson converse_rtranclp_into_rtranclp)
  qed blast
qed

section \<open>Properties\<close>

lemma pipe_reach_step: "pipe_reach en rd s \<Longrightarrow> pipe_step en rd l s s' \<Longrightarrow> pipe_reach en rd s'"
  unfolding pipe_reach_def using rtranclp.rtrancl_into_rtrancl [of "any_step en rd" _ s s'] by (auto simp: any_step_def)

lemma pipe_reach_start: "pipe_reach en rd (pipe_start en)"
  by (simp add: pipe_reach_def)

text \<open>A default engine to which one task has been submitted.\<close>

definition one_task :: "v3Engine \<Rightarrow> pipeline" where
  "one_task en = (pipe_start en)\<lparr>pl_kpChannel := v3_processKey ''/a/7'' (Some ''1'') [] [],
     pl_submitted := v3_processKey ''/a/7'' (Some ''1'') [] []\<rparr>"

lemma one_task_reach:
  assumes "en_options en = defaultEngineOptions"
  shows "pipe_reach en rd (one_task en)"
proof -
  have "pipe_step en rd Submitter (pipe_start en)
      ((pipe_start en)\<lparr>pl_kpChannel := v3_processKey ''/a/7'' (Some ''1'') [] (pl_kpChannel (pipe_start en)),
         pl_submitted := v3_processKey ''/a/7'' (Some ''1'') [] (pl_submitted (pipe_start en))\<rparr>)"
    by (rule submit) (simp_all add: pipe_start_def kp_capacity_def assms defaultEngineOptions_def)
  from pipe_reach_step [OF pipe_reach_start this] show ?thesis by (simp add: one_task_def pipe_start_def)
qed

text \<open>
  C8. The data path loses, invents and duplicates nothing, under every interleaving and whatever etcd
  answers: tasks are taken in the order in which they were submitted, and work items are received in
  the order in which they were sent, with never more than the configured number in a channel; the tasks
  taken are those evaluated and those a key worker holds; the items of all evaluations are those sent
  and those still to be sent; the items received are those performed, those a worker holds and those
  dropped, and an item is only dropped when a worker has been told to stop.
\<close>

theorem pipeline_conserves:
  assumes "pipe_reach en rd s"
  shows "pl_submitted s = pl_taken s @ pl_kpChannel s \<and> length (pl_kpChannel s) \<le> kp_capacity en \<and>
    pl_sent s = pl_received s @ pl_workChannel s \<and> length (pl_workChannel s) \<le> work_capacity en \<and>
    mset (pl_taken s) = mset (map fst (pl_evaluated s)) + sum_list (map in_process (pl_keyWorkers s)) \<and>
    mset (concat (map snd (pl_evaluated s))) = mset (pl_sent s) + sum_list (map to_send (pl_keyWorkers s)) \<and>
    mset (pl_received s) = mset (pl_performed s) + mset (pl_dropped s) + sum_list (map held (pl_workers s)) \<and>
    (pl_dropped s = [] \<or> (\<exists>w \<in> set (pl_workers s). wk_stopping (pw_proc w)))"
  using pipe_reach_fifo [OF assms] pipe_reach_inv [OF assms] by (auto simp: pipe_inv_def list_ex_iff)

theorem pipeline_conserves_witness:
  "\<exists>en. newV3Engine [] 0 1 = Ret en \<and> pl_kpChannel (one_task en) \<noteq> [] \<and>
     pl_submitted (one_task en) = pl_taken (one_task en) @ pl_kpChannel (one_task en) \<and>
     length (pl_kpChannel (one_task en)) \<le> kp_capacity en"
proof -
  obtain en where en: "newV3Engine [] 0 1 = Ret en" "en_options en = defaultEngineOptions"
    by (auto simp: newV3Engine_def makeEngineOptions_def Let_def defaultEngineOptions_def)
  show ?thesis
    using pipeline_conserves [OF one_task_reach [OF en(2), of "\<lambda>_. True"]] en(1)
    by (intro exI [of _ en]) (simp add: one_task_def v3_processKey_def)
qed

text \<open>
  C7. A running engine drains: take an engine that calls of its methods lead to, whose rules were built
  by the constructors without an empty AND or OR, with a context provider (there is one unless the option
  sets it to nil), at least one key worker and one worker, none of them told to stop. Without new tasks,
  every schedule of its goroutines ends after finitely many steps
  (nothing deadlocks and nothing loops), provided every callback returns, and then every task that was
  submitted has been evaluated exactly once, every work item of those evaluations has been performed
  exactly once, and a watcher or a crawler that waited at a full key channel can go on with its key.
\<close>

theorem pipeline_drains:
  assumes "engine_reach ord0 en" and "\<forall>r \<in> set (rm_rules (en_ruleMgr en)). built ord0 (en_heap en r) \<and> no_empty (en_heap en r)"
    and "0 < eo_concurrency (en_options en)" and "0 < eo_keyProcConcurrency (en_options en)" and "rd api"
    and "pipe_reach en rd s" and "\<forall>w \<in> set (pl_workers s). \<not> wk_stopping (pw_proc w)"
    and "eo_contextProvider (en_options en) \<noteq> None"
  shows "wf {(s2, s1). drain_step en rd s1 s2} \<and>
    (\<forall>s'. (drain_step en rd)\<^sup>*\<^sup>* s s' \<and> (\<nexists>s''. drain_step en rd s' s'') \<longrightarrow>
       mset (map fst (pl_evaluated s')) = mset (pl_submitted s) \<and>
       mset (pl_performed s') = mset (concat (map snd (pl_evaluated s'))) \<and>
       (\<forall>key v metadata. \<exists>s''. pipe_step en rd Submitter s' s'' \<and>
          pl_submitted s'' = v3_processKey key v metadata (pl_submitted s')))"
proof -
  have flags: "unflagged s" using assms(7) by (simp add: unflagged_def list_all_iff)
  show ?thesis using wf_drain drained [OF assms(1-6) flags _ _ assms(8)] by blast
qed

theorem pipeline_drains_witness:
  "\<exists>en r s'. NewEqualsLiteralRule ''/a/:x'' None = Inr r \<and> rule_contents en = [r] \<and>
     (drain_step en (\<lambda>_. True))\<^sup>*\<^sup>* (one_task en) s' \<and>
     map fst (pl_evaluated s') = pl_submitted (one_task en) \<and>
     mset (pl_performed s') = mset (concat (map snd (pl_evaluated s')))"
proof -
  define r where "r = projr (NewEqualsLiteralRule ''/a/:x'' None)"
  have r: "NewEqualsLiteralRule ''/a/:x'' None = Inr r" unfolding r_def by (rule Inr_projr) code_simp
  obtain en where en: "engine_reach insertion_order en" "en_options en = defaultEngineOptions" "rule_contents en = [r]"
    using default_engine_with_rule [of insertion_order r] by blast
  obtain q where q: "rm_rules (en_ruleMgr en) = [q]" "en_heap en q = r" using en(3) by (auto simp: rule_contents_def)
  have "no_empty r" unfolding r_def by code_simp
  then have ok: "\<forall>q \<in> set (rm_rules (en_ruleMgr en)). built insertion_order (en_heap en q) \<and> no_empty (en_heap en q)"
    using q built_literal [OF r] by simp
  have cp: "eo_contextProvider (en_options en) \<noteq> None" by (simp add: en(2) defaultEngineOptions_def)
  have n: "0 < eo_concurrency (en_options en)" "0 < eo_keyProcConcurrency (en_options en)"
    by (simp_all add: en(2) defaultEngineOptions_def)
  have flags: "\<forall>w \<in> set (pl_workers (one_task en)). \<not> wk_stopping (pw_proc w)" by (simp add: one_task_def pipe_start_def)
  note drain = pipeline_drains [OF en(1) ok n TrueI one_task_reach [OF en(2)] flags cp]
  obtain s' where s': "(drain_step en (\<lambda>_. True))\<^sup>*\<^sup>* (one_task en) s'" "\<nexists>s''. drain_step en (\<lambda>_. True) s' s''"
    using wf_run_ends [OF conjunct1 [OF drain]] by blast
  then have "mset (map fst (pl_evaluated s')) = mset (pl_submitted (one_task en))"
    "mset (pl_performed s') = mset (concat (map snd (pl_evaluated s')))" using drain by blast+
  moreover from this(1) have "map fst (pl_evaluated s') = pl_submitted (one_task en)"
    by (simp add: one_task_def v3_processKey_def del: mset_map)
  ultimately show ?thesis using r en(3) s'(1) by blast
qed

text \<open>
  C14. Stopping does not start work: once every worker has been told to stop, the only work items that
  are still performed are those whose worker had already passed its check of the flag and so started, or
  is about to start, the goroutine for the item.
\<close>

theorem flagged_workers_start_nothing:
  assumes "pipe_reach en rd s" and "all_flagged s" and "(any_step en rd)\<^sup>*\<^sup>* s s'"
  shows "mset (pl_performed s') \<subseteq># mset (pl_performed s) + sum_list (map busy (pl_workers s))"
proof -
  have "list_all worker_ok (pl_workers s)" using pipe_reach_inv [OF assms(1)] by (simp add: pipe_inv_def)
  from flagged_run [OF assms(3,2) this] show ?thesis by (metis mset_subset_eq_add_left)
qed

theorem flagged_workers_start_nothing_witness:
  "\<exists>en s. newV3Engine [] 0 1 = Ret en \<and> pipe_reach en (\<lambda>_. True) s \<and> all_flagged s \<and>
     (\<forall>s'. (any_step en (\<lambda>_. True))\<^sup>*\<^sup>* s s' \<longrightarrow> pl_performed s' = [])"
proof -
  obtain en where en: "newV3Engine [] 0 1 = Ret en"
    by (auto simp: newV3Engine_def makeEngineOptions_def Let_def defaultEngineOptions_def)
  let ?s = "(pipe_start en)\<lparr>pl_workers := [] @ replicate (nat (eo_concurrency (en_options en)))
    \<lparr>pw_proc = ended_proc, pw_work = None\<rparr>\<rparr>"
  have reach: "pipe_reach en (\<lambda>_. True) ?s"
    unfolding pipe_reach_def by (rule workers_end) (simp_all add: pipe_start_def)
  have flag: "all_flagged ?s" by (simp add: all_flagged_def list_all_iff)
  have zero: "mset (pl_performed ?s) + sum_list (map busy (pl_workers ?s)) = {#}"
    by (simp add: pipe_start_def busy_def)
  have "pl_performed s' = []" if "(any_step en (\<lambda>_. True))\<^sup>*\<^sup>* ?s s'" for s'
    using flagged_workers_start_nothing [OF reach flag that] unfolding zero by simp
  then show ?thesis using en reach flag by blast
qed

end
