(* ===== verification/Callbacks.thy ===== *)
theory Callbacks
  imports Worker
begin

text \<open>
  \<open>rules/callback_listener.go\<close>: the hook that reports finished callbacks, and the handler that tests
  wait on. The encoding as JSON and the HTTP request are library code; the request either arrives
  with the event or fails. Attributes are valid UTF-8 text, which JSON leaves as it is.
\<close>

section \<open>Definitions\<close>

text \<open>The attributes of an event; \<open>None\<close> is a nil map, which a client may pass.\<close>

record callbackEvent =
  cbe_RuleID :: string
  cbe_Attributes :: "(string, string) gomap option"

definition callbackDone :: "string range_order \<Rightarrow> string \<Rightarrow> attributes \<Rightarrow> callbackEvent go" where
  "callbackDone ord ruleID attributes =
     go_bind (go_collect (map (\<lambda>k. go_bind (FindAttribute attributes k)
         (\<lambda>v. Ret (k, case v of Some s \<Rightarrow> s | None \<Rightarrow> []))) (names ord attributes)))
       (\<lambda>kvs. Ret \<lparr>cbe_RuleID = ruleID, cbe_Attributes = Some (fold (\<lambda>(k, v) m. gm_put m k v) kvs [])\<rparr>)"

definition eventsBuffer :: nat where
  "eventsBuffer = 1000"

text \<open>\<open>HandleRequest\<close>: the channel after the request, or \<open>None\<close> when the send blocks.\<close>

definition HandleRequest :: "string + callbackEvent \<Rightarrow> callbackEvent list \<Rightarrow> callbackEvent list option" where
  "HandleRequest decoded events =
     (case decoded of
        Inl err \<Rightarrow> Some events
      | Inr event \<Rightarrow> if length events < eventsBuffer then Some (events @ [event]) else None)"

text \<open>\<open>reflect.DeepEqual\<close> on maps: a nil map and an empty map differ.\<close>

definition deepEqual :: "(string, string) gomap option \<Rightarrow> (string, string) gomap option \<Rightarrow> bool" where
  "deepEqual a b =
     (case (a, b) of
        (None, None) \<Rightarrow> True
      | (Some m, Some m') \<Rightarrow> list_all (\<lambda>k. gm_get m k = gm_get m' k) (gm_keys m @ gm_keys m')
      | _ \<Rightarrow> False)"

text \<open>
  \<open>WaitForCallback\<close> over what its \<open>select\<close>s receive: the error, and what is left. \<open>None\<close> is a call that
  still waits.
\<close>

datatype wait_input = WaitEvent callbackEvent | WaitDone string

fun WaitForCallback ::
  "string \<Rightarrow> (string, string) gomap option \<Rightarrow> wait_input list \<Rightarrow> (string option \<times> wait_input list) option" where
  "WaitForCallback ruleID attributes [] = None"
| "WaitForCallback ruleID attributes (WaitDone err # rest) = Some (Some err, rest)"
| "WaitForCallback ruleID attributes (WaitEvent event # rest) =
     (if cbe_RuleID event \<noteq> ruleID \<or> \<not> deepEqual (cbe_Attributes event) attributes
      then WaitForCallback ruleID attributes rest else Some (None, rest))"

fun ClearCallbacks :: "callbackEvent list \<Rightarrow> callbackEvent list" where
  "ClearCallbacks [] = []"
| "ClearCallbacks (event # events) = ClearCallbacks events"

section \<open>Waiting\<close>

lemma deepEqual_iff:
  "deepEqual (Some m) (Some m') \<longleftrightarrow> (\<forall>k. gm_get m k = gm_get m' k)"
proof -
  have "gm_get m k = gm_get m' k" if "k \<notin> set (gm_keys m)" "k \<notin> set (gm_keys m')" for k
    using that by (metis gm_get_None_iff)
  then show ?thesis by (auto simp: deepEqual_def list_all_iff)
qed

definition awaited :: "string \<Rightarrow> (string, string) gomap option \<Rightarrow> wait_input \<Rightarrow> bool" where
  "awaited ruleID attributes input \<longleftrightarrow>
     (case input of WaitDone _ \<Rightarrow> False
      | WaitEvent event \<Rightarrow> cbe_RuleID event = ruleID \<and> deepEqual (cbe_Attributes event) attributes)"

definition other_event :: "string \<Rightarrow> (string, string) gomap option \<Rightarrow> wait_input \<Rightarrow> bool" where
  "other_event ruleID attributes input \<longleftrightarrow>
     (case input of WaitDone _ \<Rightarrow> False
      | WaitEvent event \<Rightarrow> \<not> (cbe_RuleID event = ruleID \<and> deepEqual (cbe_Attributes event) attributes))"

lemma WaitForCallback_skips:
  "list_all (other_event ruleID attributes) pre \<Longrightarrow>
     WaitForCallback ruleID attributes (pre @ inputs) = WaitForCallback ruleID attributes inputs"
  by (induction pre) (auto simp: other_event_def split: wait_input.splits)

lemma WaitForCallback_nil:
  "WaitForCallback ruleID attributes inputs = Some (None, rest) \<longleftrightarrow>
     (\<exists>pre i. inputs = pre @ i # rest \<and> list_all (other_event ruleID attributes) pre \<and> awaited ruleID attributes i)"
  (is "?L \<longleftrightarrow> ?R")
proof
  show "?L \<Longrightarrow> ?R"
  proof (induction ruleID attributes inputs rule: WaitForCallback.induct)
    case (3 ruleID attributes event inputs)
    show ?case
    proof (cases "awaited ruleID attributes (WaitEvent event)")
      case True
      then show ?thesis using 3(2) by (intro exI [of _ "[]"]) (auto simp: awaited_def)
    next
      case False
      then have skip: "cbe_RuleID event \<noteq> ruleID \<or> \<not> deepEqual (cbe_Attributes event) attributes"
        by (auto simp: awaited_def)
      obtain pre i where "inputs = pre @ i # rest" "list_all (other_event ruleID attributes) pre" "awaited ruleID attributes i"
        using 3(1) [OF skip] 3(2) skip by auto
      moreover have "other_event ruleID attributes (WaitEvent event)" using skip by (auto simp: other_event_def)
      ultimately show ?thesis by (intro exI [of _ "WaitEvent event # pre"]) auto
    qed
  qed simp_all
next
  assume ?R
  then obtain pre i where r: "inputs = pre @ i # rest" "list_all (other_event ruleID attributes) pre" "awaited ruleID attributes i"
    by blast
  then have "WaitForCallback ruleID attributes (i # rest) = Some (None, rest)"
    by (cases i) (auto simp: awaited_def)
  then show ?L using WaitForCallback_skips [OF r(2)] r(1) by simp
qed

lemma gm_get_fold_values:
  "gm_get (fold (\<lambda>(k, v) m. gm_put m k v) (map (\<lambda>k. (k, f k)) ks) m) n = (if n \<in> set ks then Some (f n) else gm_get m n)"
  by (induction ks arbitrary: m) (auto simp: gomap_simps)

lemma callbackDone_Ret:
  assumes "attr_wf a"
  shows "\<exists>m. callbackDone ord ruleID a = Ret \<lparr>cbe_RuleID = ruleID, cbe_Attributes = Some m\<rparr> \<and>
    (\<forall>n. gm_get m n = (if n \<in> set (names ord a) then attr_lookup a n else None))"
proof -
  let ?f = "\<lambda>k. the (attr_lookup a k)"
  have "go_collect (map (\<lambda>k. go_bind (FindAttribute a k) (\<lambda>v. Ret (k, case v of Some s \<Rightarrow> s | None \<Rightarrow> []))) (names ord a)) =
      Ret (map (\<lambda>k. (k, ?f k)) (names ord a))"
  proof (rule go_collect_cong_Ret)
    fix k assume "k \<in> set (names ord a)"
    then obtain v where "attr_lookup a k = Some v" using attr_lookup_names [OF assms] by blast
    then show "go_bind (FindAttribute a k) (\<lambda>v. Ret (k, case v of Some s \<Rightarrow> s | None \<Rightarrow> [])) = Ret (k, ?f k)"
      by (simp add: attr_wf_find [OF assms] del: FindAttribute.simps)
  qed
  moreover have "gm_get (fold (\<lambda>(k, v) m. gm_put m k v) (map (\<lambda>k. (k, ?f k)) (names ord a)) []) n =
      (if n \<in> set (names ord a) then attr_lookup a n else None)" for n
    using attr_lookup_names [OF assms, of n ord] by (auto simp: gm_get_fold_values gm_get_def [of "[]"])
  ultimately show ?thesis by (simp add: callbackDone_def)
qed

section \<open>Properties\<close>

text \<open>
  Waiting for a callback: a worker that reports a finished callback produces an event with the
  rule's ID and a map of exactly the rule's attributes, and \<open>WaitForCallback\<close> with this ID and these
  attributes returns without error when it receives the event, after any number of events of other
  callbacks, and takes no more events than that.
\<close>

theorem reported_callback_is_awaited:
  assumes "EvCallbackDone ruleID a \<in> set (fst (doWork ord api locker env work st))" and "attr_wf a"
    and "\<forall>n. gm_get attributes n = (if n \<in> set (names ord a) then attr_lookup a n else None)"
    and "list_all (other_event ruleID (Some attributes)) pre"
  shows "ruleID = w_ruleID work \<and>
    (\<exists>event. callbackDone ord ruleID a = Ret event \<and>
      WaitForCallback ruleID (Some attributes) (pre @ WaitEvent event # rest) = Some (None, rest))"
proof -
  have "ruleID = w_ruleID work"
    using assms(1)
    by (auto simp: doWork_def doWork_locked_def Let_def split: sum.splits prod.splits go.splits if_splits option.splits)
  moreover obtain m where m: "callbackDone ord ruleID a = Ret \<lparr>cbe_RuleID = ruleID, cbe_Attributes = Some m\<rparr>"
    "\<forall>n. gm_get m n = (if n \<in> set (names ord a) then attr_lookup a n else None)"
    using callbackDone_Ret [OF assms(2)] by blast
  moreover have "deepEqual (Some m) (Some attributes)" using m(2) assms(3) by (simp add: deepEqual_iff)
  then have "WaitForCallback ruleID (Some attributes) (pre @ WaitEvent \<lparr>cbe_RuleID = ruleID, cbe_Attributes = Some m\<rparr> # rest) =
      Some (None, rest)"
    unfolding WaitForCallback_skips [OF assms(4)] by simp
  ultimately show ?thesis by blast
qed


theorem reported_callback_is_awaited_witness:
  "let rule = CompareLiteralRule (MapAttributes [(''x'', ''7'')]) ''/a/7'' (newEqualsComparator (Some ''1'')) ''%s'';
       work = \<lparr>w_rule = rule, w_ruleID = ''id'', w_attr = MapAttributes [(''x'', ''7'')], w_metadata = [],
         w_ruleTaskCallback = Some 42, w_ruleIndex = 0, w_lockKey = ''/lock/7'', w_keyPattern = ''/lock/:x'',
         w_contextProvider = Some 0\<rparr>;
       reads = (\<lambda>keys. Inr (cacheReadAPI_get [(''/a/7'', ''1'')]));
       env = \<lparr>we_api1 = reads, we_stopping1 = False, we_api2 = reads, we_stopping2 = False,
         we_callback = (\<lambda>_. Ret ()), we_listener = True\<rparr>;
       st = \<lparr>ls_maps = (\<lambda>_. []), ls_cooloff = (\<lambda>_. []), ls_now = 0, ls_etcd = (), ls_events = []\<rparr>;
       other = WaitEvent \<lparr>cbe_RuleID = ''id'', cbe_Attributes = Some []\<rparr>
   in EvCallbackDone ''id'' (MapAttributes [(''x'', ''7'')]) \<in> set (fst (doWork insertion_order undefined (ToggleLockerAdapter 0) env work st)) \<and>
      (\<exists>event. callbackDone insertion_order ''id'' (MapAttributes [(''x'', ''7'')]) = Ret event \<and>
        WaitForCallback ''id'' (Some [(''x'', ''7'')]) [other, WaitEvent event, other] = Some (None, [other]))"
proof -
  let ?a = "MapAttributes [(''x'', ''7'')]"
  let ?rule = "CompareLiteralRule ?a ''/a/7'' (newEqualsComparator (Some ''1'')) ''%s''"
  let ?work = "\<lparr>w_rule = ?rule, w_ruleID = ''id'', w_attr = ?a, w_metadata = [],
    w_ruleTaskCallback = Some 42, w_ruleIndex = 0, w_lockKey = ''/lock/7'', w_keyPattern = ''/lock/:x'',
    w_contextProvider = Some 0\<rparr>"
  let ?reads = "\<lambda>keys :: string list. Inr (cacheReadAPI_get [(''/a/7'', ''1'')]) :: string + read_get"
  let ?env = "\<lparr>we_api1 = ?reads, we_stopping1 = False, we_api2 = ?reads, we_stopping2 = False,
    we_callback = (\<lambda>_. Ret ()), we_listener = True\<rparr>"
  let ?st = "\<lparr>ls_maps = (\<lambda>_. []), ls_cooloff = (\<lambda>_. []), ls_now = 0, ls_etcd = (), ls_events = []\<rparr> :: unit lock_state"
  let ?other = "WaitEvent \<lparr>cbe_RuleID = ''id'', cbe_Attributes = Some []\<rparr>"
  have ev: "EvCallbackDone ''id'' ?a \<in> set (fst (doWork insertion_order undefined (ToggleLockerAdapter 0) ?env ?work ?st))"
    by (simp add: doWork_def doWork_locked_def newEqualsComparator_def cacheReadAPI_get_def gm_get_def
        toggle_Lock_def toggle_Unlock_def toggle_def Let_def attr_map_def gm_keys_def)
  have wf: "attr_wf ?a" by simp
  have at: "\<forall>n. gm_get [(''x'', ''7'')] n = (if n \<in> set (names insertion_order ?a) then attr_lookup ?a n else None)"
    by (simp add: attr_lookup_def gm_get_def gm_keys_def)
  have pre: "list_all (other_event ''id'' (Some [(''x'', ''7'')])) [?other]" by code_simp
  show ?thesis
    unfolding Let_def using reported_callback_is_awaited [OF ev wf at pre, of "[?other]"] ev by simp
qed

end
