(* ===== verification/EngineTest.thy ===== *)
theory EngineTest
  imports Pipeline Callbacks
begin

text \<open>
  \<open>v3enginetest/main.go\<close>: the program that exercises an engine against etcd. It polls four IDs: a
  callback compares the value in etcd with a local count, increments both, and sets a key that blocks
  the polling when the count has reached its target. The engine's constructor, rules and polling are
  those of the other theories; the callbacks are functions of what the client answers; the runs of the
  polling callbacks, the TTL keys that the engine writes after them, their expiry and the writes of
  \<open>main\<close> are a step relation.

  A polling callback is cut at its writes: it reads the local count and etcd, decides, and then carries
  out its effects one by one, between which the other goroutines move. Every call of the client may
  fail; a failed write may have reached etcd or not. The counts are int32 in the program; they stay
  below six.
\<close>

section \<open>Definitions\<close>

subsection \<open>Constants and checks\<close>

definition idCount :: nat where "idCount = 4"

definition pollCount :: nat where "pollCount = 5"

definition dataPath :: string where "dataPath = ''/rulesEngine/data/:id''"

definition blockPath :: string where "blockPath = ''/rulesEngine/block/:id''"

definition donePath :: string where "donePath = ''/rulesEngine/done/:id''"

definition pollingPattern :: string where "pollingPattern = ''/rulesEnginePolling/:id''"

definition ttlPath :: string where "ttlPath = pollingNamespace pollingPattern @ ''ttl''"

definition doneRuleID :: string where "doneRuleID = ''done''"

definition check :: "string option \<Rightarrow> unit go" where
  "check err = (case err of Some e \<Rightarrow> Panic | None \<Rightarrow> Ret ())"

text \<open>The responses of the watch channel, as the numbers of their events.\<close>

definition checkWatchResp :: "nat list \<Rightarrow> unit go" where
  "checkWatchResp resp =
     (if length resp < 3 then Panic else if list_ex (\<lambda>n. n \<noteq> 1) resp then Panic else Ret ())"

subsection \<open>The engine\<close>

text \<open>The options, with the numbers of the context provider and of the collector.\<close>

definition test_options :: "engineOption list" where
  "test_options =
     [EngineContextProvider (Some 7), EngineMetricsCollector 8, EngineSyncInterval 5,
      EngineCrawlMutex ''inttest'' 5, EngineLockAcquisitionTimeout 5]"

definition preReq :: "rule_error + dynamic_rule" where
  "preReq =
     (case NewEqualsLiteralRule dataPath None of
        Inl err \<Rightarrow> Inl err
      | Inr dataNil \<Rightarrow>
          (case NewEqualsLiteralRule blockPath None of
             Inl err \<Rightarrow> Inl err
           | Inr block \<Rightarrow> Inr (NewAndRule insertion_order [NewNotRule insertion_order dataNil, block])))"

text \<open>
  The registrations of \<open>main\<close>, with the numbers of the polling wrapper and of the done callback. An
  error of a constructor or of \<open>AddPolling\<close> panics in \<open>check\<close>.
\<close>

definition test_setup :: "callback \<Rightarrow> callback \<Rightarrow> v3Engine go" where
  "test_setup cbw doneCb =
     go_bind (newV3Engine test_options 0 1) (\<lambda>en0.
       case preReq of
         Inl err \<Rightarrow> Panic
       | Inr pre \<Rightarrow>
           (case new_rule pre en0 of (p, en1) \<Rightarrow>
              case AddPolling insertion_order 1 en1 pollingPattern p cbw of
                (en2, Ret None) \<Rightarrow>
                  (case NewEqualsLiteralRule donePath (Some ''false'') of
                     Inl err \<Rightarrow> Panic
                   | Inr doneRule \<Rightarrow>
                       (case new_rule doneRule en2 of (q, en3) \<Rightarrow>
                          case AddRule insertion_order 1 en3 q ''/rulesEngineDone/:id'' doneCb [RuleID doneRuleID] of
                            (en4, Ret _) \<Rightarrow> Ret en4
                          | (en4, Panic) \<Rightarrow> Panic
                          | (en4, Diverge) \<Rightarrow> Diverge))
              | (en2, Ret (Some err)) \<Rightarrow> Panic
              | (en2, Panic) \<Rightarrow> Panic
              | (en2, Diverge) \<Rightarrow> Diverge))"

subsection \<open>The callbacks\<close>

text \<open>
  What a polling callback does after it has decided: writes, the atomic increment of the local count of an
  ID, the write of that count as it then is, and the message to \<open>main\<close>.
\<close>

datatype test_effect = TestPut string string | TestAdd string | TestPutCount string string | TestDone string

text \<open>
  The polling callback up to its first effect, over the local counts and the answer of \<open>Get\<close>, and the
  effects that follow. A missing attribute, a missing count and an empty answer are dereferenced or
  indexed.
\<close>

definition polling_callback ::
  "(string \<rightharpoonup> nat) \<Rightarrow> attributes \<Rightarrow> (string \<Rightarrow> string + string list) \<Rightarrow> test_effect list go" where
  "polling_callback ps attr get =
     go_bind (GetAttribute attr ''id'') (\<lambda>idp.
       case idp of
         None \<Rightarrow> Panic
       | Some id' \<Rightarrow>
           (case ps id' of
              None \<Rightarrow> Panic
            | Some pPollCount \<Rightarrow>
                go_bind (FormatWithAttributes dataPath attr) (\<lambda>path.
                  case get path of
                    Inl err \<Rightarrow> go_bind (check (Some err)) (\<lambda>_. Ret [])
                  | Inr [] \<Rightarrow> Panic
                  | Inr (v # _) \<Rightarrow>
                      if v \<noteq> fmt_nat pPollCount then Panic
                      else if pPollCount = pollCount then
                        go_bind (FormatWithAttributes blockPath attr) (\<lambda>blk. Ret [TestPut blk ''done'', TestDone id'])
                      else if pPollCount > pollCount then Panic
                      else Ret [TestAdd id', TestPutCount path id'])))"

definition done_callback :: "attributes \<Rightarrow> (string \<Rightarrow> string \<Rightarrow> string option) \<Rightarrow> test_effect list go" where
  "done_callback attr put =
     go_bind (FormatWithAttributes donePath attr) (\<lambda>path.
       go_bind (check (put path ''true'')) (\<lambda>_. Ret [TestPut path ''true'']))"

subsection \<open>Runs\<close>

datatype poll_phase = PollIdle | PollLocked | PollWriting "test_effect list" | PollCalled

record test_state =
  ts_store :: "string \<Rightarrow> string option"
  ts_ps :: "string \<rightharpoonup> nat"
  ts_phase :: "string \<Rightarrow> poll_phase"
  ts_done :: "string list"
  ts_written :: nat
  ts_failed :: bool  \<comment> \<open>a call of the client has failed\<close>
  ts_panicked :: bool  \<comment> \<open>a callback has panicked\<close>
  ts_exited :: bool  \<comment> \<open>\<open>main\<close> has panicked\<close>
  ts_calls :: "string list"

definition test_ids :: "string list" where
  "test_ids = map fmt_nat [0..<idCount]"

definition id_attr :: "string \<Rightarrow> attributes" where
  "id_attr i = MapAttributes [(''id'', i)]"

definition id_path :: "string \<Rightarrow> string \<Rightarrow> string" where
  "id_path p i = path_format (attr_lookup (id_attr i)) p"

text \<open>The polling rule, as \<open>AddPolling\<close> puts it together, is satisfied for an ID.\<close>

definition poll_satisfied :: "string \<Rightarrow> (string \<Rightarrow> string option) \<Rightarrow> bool" where
  "poll_satisfied i st =
     (case preReq of
        Inl err \<Rightarrow> False
      | Inr pre \<Rightarrow>
          (case NewEqualsLiteralRule ttlPath None of
             Inl err \<Rightarrow> False
           | Inr ttlRule \<Rightarrow>
               satisfied (inst (id_attr i) (NewAndRule insertion_order [pre, ttlRule])) (\<lambda>k. Inr (st k)) = Inr True))"

primrec apply_effect :: "test_effect \<Rightarrow> test_state \<Rightarrow> test_state" where
  "apply_effect (TestPut k v) s = s\<lparr>ts_store := (ts_store s)(k \<mapsto> v)\<rparr>"
| "apply_effect (TestAdd i) s = s\<lparr>ts_ps := (ts_ps s)(i := map_option Suc (ts_ps s i))\<rparr>"
| "apply_effect (TestPutCount k i) s = s\<lparr>ts_store := (ts_store s)(k := map_option fmt_nat (ts_ps s i))\<rparr>"
| "apply_effect (TestDone i) s = s\<lparr>ts_done := ts_done s @ [i]\<rparr>"

text \<open>
  The channel to \<open>main\<close> has no buffer: the message waits until \<open>main\<close> has written all values and
  receives, which it does once for each ID.
\<close>

primrec effect_ready :: "test_effect \<Rightarrow> test_state \<Rightarrow> bool" where
  "effect_ready (TestPut k v) s = True"
| "effect_ready (TestAdd i) s = True"
| "effect_ready (TestPutCount k i) s = True"
| "effect_ready (TestDone i) s = (ts_written s = idCount \<and> length (ts_done s) < idCount)"

primrec is_put :: "test_effect \<Rightarrow> bool" where
  "is_put (TestPut k v) = True"
| "is_put (TestAdd i) = False"
| "is_put (TestPutCount k i) = True"
| "is_put (TestDone i) = False"

definition store_get :: "(string \<Rightarrow> string option) \<Rightarrow> string \<Rightarrow> string + string list" where
  "store_get st k = Inr (case st k of Some v \<Rightarrow> [v] | None \<Rightarrow> [])"

definition set_phase :: "string \<Rightarrow> poll_phase \<Rightarrow> test_state \<Rightarrow> test_state" where
  "set_phase i p s = s\<lparr>ts_phase := (ts_phase s)(i := p)\<rparr>"

text \<open>A panic of a callback is recovered by its worker; the TTL key is not written then.\<close>

inductive test_step :: "test_state \<Rightarrow> test_state \<Rightarrow> bool" where
  main_put: "\<not> ts_exited s \<Longrightarrow> ts_written s < idCount \<Longrightarrow>
    test_step s (s\<lparr>ts_store := (ts_store s)(id_path dataPath (test_ids ! ts_written s) \<mapsto> ''0''),
      ts_written := Suc (ts_written s)\<rparr>)"
| main_fails: "\<not> ts_exited s \<Longrightarrow> ts_written s < idCount \<Longrightarrow> test_step s (s\<lparr>ts_failed := True, ts_exited := True\<rparr>)"
| lock_poll: "\<not> ts_exited s \<Longrightarrow> ts_phase s i = PollIdle \<Longrightarrow> poll_satisfied i (ts_store s) \<Longrightarrow>
    test_step s (set_phase i PollLocked s)"
| read_poll: "\<not> ts_exited s \<Longrightarrow> ts_phase s i = PollLocked \<Longrightarrow>
    polling_callback (ts_ps s) (id_attr i) (store_get (ts_store s)) = Ret effects \<Longrightarrow>
    test_step s (set_phase i (PollWriting effects) s)"
| read_panics: "\<not> ts_exited s \<Longrightarrow> ts_phase s i = PollLocked \<Longrightarrow>
    polling_callback (ts_ps s) (id_attr i) (store_get (ts_store s)) = Panic \<Longrightarrow>
    test_step s (set_phase i PollIdle (s\<lparr>ts_panicked := True\<rparr>))"
| read_fails: "\<not> ts_exited s \<Longrightarrow> ts_phase s i = PollLocked \<Longrightarrow>
    polling_callback (ts_ps s) (id_attr i) (\<lambda>path. Inl err) = Panic \<Longrightarrow>
    test_step s (set_phase i PollIdle (s\<lparr>ts_failed := True, ts_panicked := True\<rparr>))"
| write_poll: "\<not> ts_exited s \<Longrightarrow> ts_phase s i = PollWriting (e # e' # es) \<Longrightarrow> effect_ready e s \<Longrightarrow>
    test_step s (set_phase i (PollWriting (e' # es)) (apply_effect e s))"
| write_last: "\<not> ts_exited s \<Longrightarrow> ts_phase s i = PollWriting [e] \<Longrightarrow> effect_ready e s \<Longrightarrow>
    test_step s (set_phase i PollCalled ((apply_effect e s)\<lparr>ts_calls := i # ts_calls s\<rparr>))"
| write_fails: "\<not> ts_exited s \<Longrightarrow> ts_phase s i = PollWriting (e # es) \<Longrightarrow> is_put e \<Longrightarrow> s1 = s \<or> s1 = apply_effect e s \<Longrightarrow>
    test_step s (set_phase i PollIdle (s1\<lparr>ts_failed := True, ts_panicked := True\<rparr>))"
| put_ttl: "\<not> ts_exited s \<Longrightarrow> ts_phase s i = PollCalled \<Longrightarrow>
    test_step s (set_phase i PollIdle (s\<lparr>ts_store := (ts_store s)(id_path ttlPath i \<mapsto> [])\<rparr>))"
| no_lease: "\<not> ts_exited s \<Longrightarrow> ts_phase s i = PollCalled \<Longrightarrow> test_step s (set_phase i PollIdle s)"
| ttl_expires: "\<not> ts_exited s \<Longrightarrow> test_step s (s\<lparr>ts_store := (ts_store s)(id_path ttlPath i := None)\<rparr>)"

text \<open>The program when it has set up its engine: the store is clear below its prefix.\<close>

definition test_start :: test_state where
  "test_start =
     \<lparr>ts_store = \<lambda>_. None, ts_ps = map_of (map (\<lambda>i. (i, 0)) test_ids), ts_phase = \<lambda>_. PollIdle, ts_done = [],
      ts_written = 0, ts_failed = False, ts_panicked = False, ts_exited = False, ts_calls = []\<rparr>"

section \<open>The registrations\<close>

lemma test_ids: "test_ids = [''0'', ''1'', ''2'', ''3'']"
  by code_simp

lemma test_setup_registers:
  "\<exists>en. test_setup 1 2 = Ret en \<and> kp_ruleIDs (en_keyProc en) = [(0, ''/rulesEnginePolling/:id/''), (1, ''done'')] \<and>
    kp_callbacks (en_keyProc en) = [(0, 1), (1, 2)] \<and>
    kp_lockKeyPatterns (en_keyProc en) = [(0, ''/rule_locks/rulesEnginePolling/:id/lock''), (1, ''/rulesEngineDone/:id'')]"
proof -
  define en where "en = (case test_setup 1 2 of Ret en \<Rightarrow> en)"
  have "case test_setup 1 2 of Ret _ \<Rightarrow> True | _ \<Rightarrow> False" by code_simp
  then have "test_setup 1 2 = Ret en" by (simp add: en_def split: go.splits)
  moreover have "kp_ruleIDs (en_keyProc en) = [(0, ''/rulesEnginePolling/:id/''), (1, ''done'')]" unfolding en_def by code_simp
  moreover have "kp_callbacks (en_keyProc en) = [(0, 1), (1, 2)]" unfolding en_def by code_simp
  moreover have "kp_lockKeyPatterns (en_keyProc en) =
    [(0, ''/rule_locks/rulesEnginePolling/:id/lock''), (1, ''/rulesEngineDone/:id'')]" unfolding en_def by code_simp
  ultimately show ?thesis by blast
qed

section \<open>Keys of an ID\<close>

lemma id_paths:
  "id_path dataPath i = ''/rulesEngine/data/'' @ i" "id_path blockPath i = ''/rulesEngine/block/'' @ i"
  "id_path ttlPath i = ''/rulesEnginePolling/'' @ i @ ''/ttl''"
proof -
  have s: "segments dataPath = [''rulesEngine'', ''data'', '':id'']" "segments blockPath = [''rulesEngine'', ''block'', '':id'']"
    "segments ttlPath = [''rulesEnginePolling'', '':id'', ''ttl'']" by code_simp+
  have f: "attr_lookup (id_attr i) ''id'' = Some i" by (simp add: id_attr_def attr_lookup_def gm_get_def)
  show "id_path dataPath i = ''/rulesEngine/data/'' @ i" "id_path blockPath i = ''/rulesEngine/block/'' @ i"
    "id_path ttlPath i = ''/rulesEnginePolling/'' @ i @ ''/ttl''"
    by (simp_all add: id_path_def path_format_def s seg_format_def f is_param_def)
qed

lemma id_paths_distinct [simp]:
  "id_path dataPath i = id_path dataPath j \<longleftrightarrow> i = j" "id_path blockPath i = id_path blockPath j \<longleftrightarrow> i = j"
  "id_path dataPath i \<noteq> id_path blockPath j" "id_path blockPath i \<noteq> id_path dataPath j"
  "id_path dataPath i \<noteq> id_path ttlPath j" "id_path ttlPath i \<noteq> id_path dataPath j"
  "id_path blockPath i \<noteq> id_path ttlPath j" "id_path ttlPath i \<noteq> id_path blockPath j"
  by (simp_all add: id_paths)

lemma id_attr_reads:
  "GetAttribute (id_attr i) ''id'' = Ret (Some i)" "FormatWithAttributes p (id_attr i) = Ret (id_path p i)"
proof -
  have "attr_wf (id_attr i)" by (simp add: id_attr_def)
  then show "FormatWithAttributes p (id_attr i) = Ret (id_path p i)" "GetAttribute (id_attr i) ''id'' = Ret (Some i)"
    using FormatWithAttributes_attr GetAttribute_eq by (auto simp: id_path_def id_attr_def attr_lookup_def gm_get_def)
qed

text \<open>When the polling rule is satisfied.\<close>

lemma poll_satisfied_iff:
  "poll_satisfied i st \<longleftrightarrow> st (id_path dataPath i) \<noteq> None \<and> st (id_path blockPath i) = None \<and> st (id_path ttlPath i) = None"
proof -
  define d b t where "d = projr (NewEqualsLiteralRule dataPath None)" and "b = projr (NewEqualsLiteralRule blockPath None)"
    and "t = projr (NewEqualsLiteralRule ttlPath None)"
  have d: "NewEqualsLiteralRule dataPath None = Inr d" unfolding d_def by (rule Inr_projr) code_simp
  have b: "NewEqualsLiteralRule blockPath None = Inr b" unfolding b_def by (rule Inr_projr) code_simp
  have t: "NewEqualsLiteralRule ttlPath None = Inr t" unfolding t_def by (rule Inr_projr) code_simp
  have "holds (inst (id_attr i) (NewAndRule insertion_order [NewNotRule insertion_order d, b])) st \<longleftrightarrow>
      st (id_path dataPath i) \<noteq> None \<and> st (id_path blockPath i) = None"
    using literal_nil_holds [OF d] literal_nil_holds [OF b]
    by (simp add: NewAndRule_def NewNotRule_def id_path_def split: prod.split)
  then show ?thesis
    using holds_polling_rule [OF t] by (simp add: poll_satisfied_def preReq_def d b t satisfied_store id_path_def)
qed

section \<open>Counts\<close>

text \<open>
  What holds of the ID with number \<open>k\<close> whose local count is \<open>n\<close>: the value in etcd, whether the
  polling is blocked, whether the ID is done, and how often its callback has returned.
\<close>

definition id_is :: "test_state \<Rightarrow> string \<Rightarrow> string option \<Rightarrow> bool \<Rightarrow> bool \<Rightarrow> nat \<Rightarrow> bool" where
  "id_is s i v blocked reported calls \<longleftrightarrow>
     ts_store s (id_path dataPath i) = v \<and> (ts_store s (id_path blockPath i) \<noteq> None) = blocked \<and>
     (i \<in> set (ts_done s)) = reported \<and> count_list (ts_calls s) i = calls"

text \<open>The phases of an ID of which no call of the client has failed.\<close>

inductive phase_ok :: "test_state \<Rightarrow> nat \<Rightarrow> string \<Rightarrow> nat \<Rightarrow> poll_phase \<Rightarrow> bool" for s k i where
  ok_unwritten: "ts_written s \<le> k \<Longrightarrow> id_is s i None False False 0 \<Longrightarrow> phase_ok s k i 0 PollIdle"
| ok_polling: "k < ts_written s \<Longrightarrow> n \<le> pollCount \<Longrightarrow> id_is s i (Some (fmt_nat n)) False False n \<Longrightarrow>
    p \<in> {PollIdle, PollLocked, PollCalled} \<Longrightarrow> phase_ok s k i n p"
| ok_add: "k < ts_written s \<Longrightarrow> n < pollCount \<Longrightarrow> id_is s i (Some (fmt_nat n)) False False n \<Longrightarrow>
    phase_ok s k i n (PollWriting [TestAdd i, TestPutCount (id_path dataPath i) i])"
| ok_count: "k < ts_written s \<Longrightarrow> n < pollCount \<Longrightarrow> id_is s i (Some (fmt_nat n)) False False n \<Longrightarrow>
    phase_ok s k i (Suc n) (PollWriting [TestPutCount (id_path dataPath i) i])"
| ok_block: "k < ts_written s \<Longrightarrow> id_is s i (Some (fmt_nat pollCount)) False False pollCount \<Longrightarrow>
    phase_ok s k i pollCount (PollWriting [TestPut (id_path blockPath i) ''done'', TestDone i])"
| ok_report: "k < ts_written s \<Longrightarrow> id_is s i (Some (fmt_nat pollCount)) True False pollCount \<Longrightarrow>
    phase_ok s k i pollCount (PollWriting [TestDone i])"
| ok_done: "k < ts_written s \<Longrightarrow> id_is s i (Some (fmt_nat pollCount)) True True (Suc pollCount) \<Longrightarrow>
    p \<in> {PollIdle, PollCalled} \<Longrightarrow> phase_ok s k i pollCount p"

definition poll_ok :: "test_state \<Rightarrow> nat \<Rightarrow> bool" where
  "poll_ok s k \<longleftrightarrow> (\<exists>n. ts_ps s (test_ids ! k) = Some n \<and> phase_ok s k (test_ids ! k) n (ts_phase s (test_ids ! k)))"

definition test_inv :: "test_state \<Rightarrow> bool" where
  "test_inv s \<longleftrightarrow>
     \<not> ts_panicked s \<and> \<not> ts_exited s \<and> distinct (ts_done s) \<and> set (ts_done s) \<subseteq> set test_ids \<and> ts_written s \<le> idCount \<and>
     (\<forall>k < idCount. poll_ok s k) \<and>
     (\<forall>i. i \<notin> set test_ids \<longrightarrow> ts_store s (id_path dataPath i) = None \<and> ts_phase s i = PollIdle)"

lemma test_ids_nth: "length test_ids = idCount" "distinct test_ids"
  by (simp_all add: test_ids idCount_def)

lemma id_number: "i \<in> set test_ids \<Longrightarrow> \<exists>k < idCount. test_ids ! k = i"
  using test_ids_nth(1) by (metis in_set_conv_nth)

lemma id_eq_number: "k < idCount \<Longrightarrow> k' < idCount \<Longrightarrow> test_ids ! k = test_ids ! k' \<longleftrightarrow> k = k'"
  using test_ids_nth by (metis nth_eq_iff_index_eq)

lemma fmt_nat_0: "fmt_nat 0 = ''0''"
  by code_simp

lemma test_start_inv: "test_inv test_start"
proof -
  have "map_of (map (\<lambda>i. (i, 0 :: nat)) test_ids) (test_ids ! k) = Some 0" if "k < idCount" for k
    using that test_ids_nth(1) by (simp add: map_of_map_restrict restrict_map_def)
  then show ?thesis by (auto simp: test_inv_def test_start_def poll_ok_def id_is_def intro!: ok_unwritten)
qed

inductive_cases phase_lockedE: "phase_ok s k i n PollLocked"
inductive_cases phase_writingE: "phase_ok s k i n (PollWriting es)"
inductive_cases phase_calledE: "phase_ok s k i n PollCalled"
inductive_cases phase_idleE: "phase_ok s k i n PollIdle"

lemmas test_setters = set_phase_def id_is_def

lemma set_phase_simps [simp]:
  "ts_store (set_phase i p s) = ts_store s" "ts_ps (set_phase i p s) = ts_ps s" "ts_done (set_phase i p s) = ts_done s"
  "ts_phase (set_phase i p s) = (ts_phase s)(i := p)" "ts_written (set_phase i p s) = ts_written s"
  "ts_failed (set_phase i p s) = ts_failed s" "ts_panicked (set_phase i p s) = ts_panicked s"
  "ts_exited (set_phase i p s) = ts_exited s" "ts_calls (set_phase i p s) = ts_calls s"
  "id_is (set_phase i p s) j = id_is s j"
  by (simp_all add: test_setters fun_eq_iff)

lemma phase_ok_cong:
  assumes "phase_ok s k i n p" and "id_is s' i = id_is s i" and "k < ts_written s' \<longleftrightarrow> k < ts_written s"
  shows "phase_ok s' k i n p"
  using assms(1) by cases (auto intro!: phase_ok.intros simp: assms(2,3) not_less [symmetric])

text \<open>A step that leaves everything about an ID alone.\<close>

lemma poll_ok_cong:
  assumes "poll_ok s k" and "id_is s' (test_ids ! k) = id_is s (test_ids ! k)" and "ts_written s' = ts_written s"
    and "ts_ps s' (test_ids ! k) = ts_ps s (test_ids ! k)" and "ts_phase s' (test_ids ! k) = ts_phase s (test_ids ! k)"
  shows "poll_ok s' k"
  using assms(1,4,5) phase_ok_cong [OF _ assms(2)] by (auto simp: poll_ok_def assms(3))

text \<open>The callback of an ID that is locked.\<close>

lemma callback_result:
  assumes "phase_ok s k i n PollLocked" and "ts_ps s i = Some n"
  shows "polling_callback (ts_ps s) (id_attr i) (store_get (ts_store s)) =
    Ret (if n = pollCount then [TestPut (id_path blockPath i) ''done'', TestDone i]
         else [TestAdd i, TestPutCount (id_path dataPath i) i])"
  using assms(1)
  by (rule phase_lockedE) (use assms(2) in \<open>auto simp: polling_callback_def id_attr_reads id_is_def store_get_def\<close>)

text \<open>The steps of the ID \<open>i\<close> keep what holds of it.\<close>

lemma phase_read:
  assumes "phase_ok s k i n PollLocked" and "ts_ps s i = Some n"
    and "polling_callback (ts_ps s) (id_attr i) (store_get (ts_store s)) = Ret effects"
  shows "phase_ok (set_phase i (PollWriting effects) s) k i n (PollWriting effects)"
proof -
  have e: "effects = (if n = pollCount then [TestPut (id_path blockPath i) ''done'', TestDone i]
      else [TestAdd i, TestPutCount (id_path dataPath i) i])"
    using assms(3) callback_result [OF assms(1,2)] by simp
  from assms(1) have "phase_ok s k i n (PollWriting effects)"
    by (rule phase_lockedE) (auto simp: e intro: ok_add ok_block)
  then show ?thesis by (rule phase_ok_cong) (simp_all add: test_setters fun_eq_iff)
qed

lemma phase_write:
  assumes "phase_ok s k i n (PollWriting (e # e' # es))" and "ts_ps s i = Some n"
  shows "\<exists>m. ts_ps (apply_effect e s) i = Some m \<and>
    phase_ok (set_phase i (PollWriting (e' # es)) (apply_effect e s)) k i m (PollWriting (e' # es))"
  using assms(1)
  by (rule phase_writingE) (use assms(2) in \<open>auto simp: test_setters intro!: ok_count ok_report\<close>)

lemma phase_last:
  assumes "phase_ok s k i n (PollWriting [e])" and "ts_ps s i = Some n"
  shows "\<exists>m. ts_ps (apply_effect e s) i = Some m \<and>
    phase_ok (set_phase i PollCalled ((apply_effect e s)\<lparr>ts_calls := i # ts_calls s\<rparr>)) k i m PollCalled"
  using assms(1)
  by (rule phase_writingE)
    (use assms(2) in \<open>auto simp: test_setters intro!: ok_polling [where n = "Suc _"] ok_done\<close>)

lemma effects_of_id:
  assumes "phase_ok s k i n (PollWriting (e # es))"
  shows "j \<noteq> i \<Longrightarrow> id_is (apply_effect e s) j = id_is s j" and "j \<noteq> i \<Longrightarrow> ts_ps (apply_effect e s) j = ts_ps s j"
    and "ts_written (apply_effect e s) = ts_written s" and "ts_phase (apply_effect e s) = ts_phase s"
    and "ts_exited (apply_effect e s) = ts_exited s" and "ts_panicked (apply_effect e s) = ts_panicked s"
    and "ts_failed (apply_effect e s) = ts_failed s"
    and "j \<noteq> i \<Longrightarrow> id_is ((apply_effect e s)\<lparr>ts_calls := i # ts_calls s\<rparr>) j = id_is s j"
    and "j \<noteq> i \<Longrightarrow> ts_store (apply_effect e s) (id_path dataPath j) = ts_store s (id_path dataPath j)"
    and "ts_done (apply_effect e s) = ts_done s \<or> ts_done (apply_effect e s) = ts_done s @ [i] \<and> i \<notin> set (ts_done s)"
  using assms by (auto elim!: phase_writingE simp: id_is_def fun_eq_iff)

text \<open>
  A step of the ID with number \<open>k\<close> that does not fail: nothing else changes but the ID's own keys,
  count and phase, and what is reported of it.
\<close>

lemma test_inv_id_step:
  assumes inv: "test_inv s" and k: "k < idCount" and ok: "poll_ok s' k"
    and other: "\<And>j. j \<noteq> test_ids ! k \<Longrightarrow> id_is s' j = id_is s j \<and> ts_ps s' j = ts_ps s j \<and> ts_phase s' j = ts_phase s j"
    and same: "ts_written s' = ts_written s" "ts_exited s' = ts_exited s" "ts_panicked s' = ts_panicked s"
    and rep: "ts_done s' = ts_done s \<or> ts_done s' = ts_done s @ [test_ids ! k] \<and> test_ids ! k \<notin> set (ts_done s)"
  shows "test_inv s'"
proof -
  have id: "test_ids ! k \<in> set test_ids" using k test_ids_nth(1) by simp
  have "poll_ok s' k'" if k': "k' < idCount" for k'
  proof (cases "k' = k")
    case False
    then have "test_ids ! k' \<noteq> test_ids ! k" using id_eq_number [OF k' k] by simp
    note o = other [OF this]
    have "poll_ok s k'" using inv k' by (simp add: test_inv_def)
    then show ?thesis by (rule poll_ok_cong) (use o same(1) in blast)+
  qed (use ok in simp)
  moreover have "ts_store s' (id_path dataPath i) = None \<and> ts_phase s' i = PollIdle" if "i \<notin> set test_ids" for i
  proof -
    have i: "id_is s' i = id_is s i" "ts_phase s' i = ts_phase s i" using other [of i] that id by auto
    have "id_is s i None b r c = id_is s' i None b r c" for b r c by (simp add: i(1))
    then have "ts_store s' (id_path dataPath i) = None" if "ts_store s (id_path dataPath i) = None"
      using that unfolding id_is_def by auto
    then show ?thesis using inv that i(2) by (simp add: test_inv_def)
  qed
  ultimately show ?thesis using inv rep id same by (auto simp: test_inv_def)
qed

text \<open>The ID of a goroutine that is not idle, or that has a value in etcd.\<close>

lemma active_number:
  assumes "test_inv s" and "ts_phase s i \<noteq> PollIdle \<or> ts_store s (id_path dataPath i) \<noteq> None"
  obtains k n where "k < idCount" "i = test_ids ! k" "ts_ps s i = Some n" "phase_ok s k i n (ts_phase s i)"
proof -
  have "i \<in> set test_ids" using assms by (auto simp: test_inv_def)
  then obtain k where "k < idCount" "i = test_ids ! k" using id_number by metis
  then show thesis using assms(1) that by (auto simp: test_inv_def poll_ok_def)
qed

lemma test_inv_main_put:
  assumes inv: "test_inv s" and w: "ts_written s < idCount"
  shows "test_inv (s\<lparr>ts_store := (ts_store s)(id_path dataPath (test_ids ! ts_written s) \<mapsto> ''0''),
      ts_written := Suc (ts_written s)\<rparr>)" (is "test_inv ?s")
proof -
  have "poll_ok ?s k" if k: "k < idCount" for k
  proof -
    obtain n where n: "ts_ps s (test_ids ! k) = Some n" "phase_ok s k (test_ids ! k) n (ts_phase s (test_ids ! k))"
      using inv k by (auto simp: test_inv_def poll_ok_def)
    have "phase_ok ?s k (test_ids ! k) n (ts_phase s (test_ids ! k))"
    proof (cases "k = ts_written s")
      case True
      with n(2) have "n = 0" "ts_phase s (test_ids ! k) = PollIdle" "id_is s (test_ids ! k) None False False 0"
        by (auto elim: phase_ok.cases)
      then show ?thesis using True by (auto simp: id_is_def fmt_nat_0 pollCount_def intro!: ok_polling)
    next
      case False
      then have "id_is ?s (test_ids ! k) = id_is s (test_ids ! k)" using id_eq_number [OF k w] by (simp add: id_is_def fun_eq_iff)
      with n(2) show ?thesis by (rule phase_ok_cong) (use False in auto)
    qed
    then show ?thesis using n(1) by (simp add: poll_ok_def)
  qed
  moreover have "test_ids ! ts_written s \<in> set test_ids" using w test_ids_nth(1) by simp
  ultimately show ?thesis using inv w by (auto simp: test_inv_def)
qed

text \<open>The invariant, until a call of the client fails.\<close>

lemma test_inv_step:
  assumes "test_step s s'" and inv: "test_inv s" and "\<not> ts_failed s'"
  shows "test_inv s'"
  using assms(1)
proof cases
  case main_put
  then show ?thesis using test_inv_main_put [OF inv] by simp
next
  case (lock_poll i)
  obtain k n where k: "k < idCount" "i = test_ids ! k" "ts_ps s i = Some n" "phase_ok s k i n (ts_phase s i)"
    using active_number [OF inv, of i] lock_poll(4) by (auto simp: poll_satisfied_iff)
  from k(4) have "phase_ok s k i n PollLocked"
    unfolding lock_poll(3)
    by (rule phase_idleE) (use lock_poll(4) in \<open>auto simp: id_is_def poll_satisfied_iff intro!: ok_polling\<close>)
  then have "phase_ok s' k i n PollLocked" unfolding lock_poll(1) by (rule phase_ok_cong) (simp_all add: test_setters fun_eq_iff)
  then have "poll_ok s' k" using k lock_poll(1) by (simp add: poll_ok_def set_phase_def)
  then show ?thesis by (rule test_inv_id_step [OF inv k(1)]) (use k(2) lock_poll(1) in \<open>auto simp: test_setters fun_eq_iff\<close>)
next
  case (read_poll i effects)
  obtain k n where k: "k < idCount" "i = test_ids ! k" "ts_ps s i = Some n" "phase_ok s k i n (ts_phase s i)"
    using active_number [OF inv, of i] read_poll(3) by auto
  have "poll_ok s' k"
    using phase_read [OF _ k(3) read_poll(4)] k read_poll(1,3) by (simp add: poll_ok_def set_phase_def)
  then show ?thesis by (rule test_inv_id_step [OF inv k(1)]) (use k(2) read_poll(1) in \<open>auto simp: test_setters fun_eq_iff\<close>)
next
  case (read_panics i)
  obtain k n where k: "k < idCount" "i = test_ids ! k" "ts_ps s i = Some n" "phase_ok s k i n (ts_phase s i)"
    using active_number [OF inv, of i] read_panics(3) by auto
  then show ?thesis using callback_result [OF _ k(3)] read_panics(3,4) by auto
next
  case (write_poll i e e' es)
  obtain k n where k: "k < idCount" "i = test_ids ! k" "ts_ps s i = Some n" "phase_ok s k i n (ts_phase s i)"
    using active_number [OF inv, of i] write_poll(3) by auto
  note ph = k(4) [unfolded write_poll(3)]
  have "poll_ok s' k" using phase_write [OF ph k(3)] k(2) write_poll(1) by (auto simp: poll_ok_def set_phase_def)
  then show ?thesis
    by (rule test_inv_id_step [OF inv k(1)])
      (use k(2) effects_of_id [OF ph] write_poll(1) in simp_all)
next
  case (write_last i e)
  obtain k n where k: "k < idCount" "i = test_ids ! k" "ts_ps s i = Some n" "phase_ok s k i n (ts_phase s i)"
    using active_number [OF inv, of i] write_last(3) by auto
  note ph = k(4) [unfolded write_last(3)]
  have "poll_ok s' k" using phase_last [OF ph k(3)] k(2) write_last(1) by (auto simp: poll_ok_def set_phase_def)
  then show ?thesis
    by (rule test_inv_id_step [OF inv k(1)])
      (use k(2) effects_of_id [OF ph] write_last(1) in simp_all)
next
  case (put_ttl i)
  obtain k n where k: "k < idCount" "i = test_ids ! k" "ts_ps s i = Some n" "phase_ok s k i n (ts_phase s i)"
    using active_number [OF inv, of i] put_ttl(3) by auto
  from k(4) have "phase_ok s k i n PollIdle" unfolding put_ttl(3) by (rule phase_calledE) (auto intro: ok_polling ok_done)
  then have "phase_ok s' k i n PollIdle" unfolding put_ttl(1) by (rule phase_ok_cong) (simp_all add: test_setters fun_eq_iff)
  then have "poll_ok s' k" using k put_ttl(1) by (simp add: poll_ok_def set_phase_def)
  then show ?thesis by (rule test_inv_id_step [OF inv k(1)]) (use k(2) put_ttl(1) in \<open>auto simp: test_setters fun_eq_iff\<close>)
next
  case (no_lease i)
  obtain k n where k: "k < idCount" "i = test_ids ! k" "ts_ps s i = Some n" "phase_ok s k i n (ts_phase s i)"
    using active_number [OF inv, of i] no_lease(3) by auto
  from k(4) have "phase_ok s k i n PollIdle" unfolding no_lease(3) by (rule phase_calledE) (auto intro: ok_polling ok_done)
  then have "phase_ok s' k i n PollIdle" unfolding no_lease(1) by (rule phase_ok_cong) (simp_all add: test_setters fun_eq_iff)
  then have "poll_ok s' k" using k no_lease(1) by (simp add: poll_ok_def set_phase_def)
  then show ?thesis by (rule test_inv_id_step [OF inv k(1)]) (use k(2) no_lease(1) in \<open>auto simp: test_setters fun_eq_iff\<close>)
next
  case (ttl_expires i)
  have same: "id_is s' j = id_is s j" for j unfolding ttl_expires(1) by (simp add: id_is_def fun_eq_iff)
  have "poll_ok s' k" if ok: "poll_ok s k" for k
    by (rule poll_ok_cong [OF ok same]) (simp_all add: ttl_expires(1))
  then show ?thesis using inv by (auto simp: test_inv_def ttl_expires(1))
qed (use assms(3) in \<open>auto simp: set_phase_def\<close>)

lemma failed_stays: "test_step s s' \<Longrightarrow> ts_failed s \<Longrightarrow> ts_failed s'"
proof (induction rule: test_step.induct)
  case (write_poll s i e e' es)
  then show ?case by (cases e) (auto simp: set_phase_def)
next
  case (write_last s i e)
  then show ?case by (cases e) (auto simp: set_phase_def)
qed (auto simp: set_phase_def)

lemma test_runs_inv: "test_step\<^sup>*\<^sup>* test_start s \<Longrightarrow> \<not> ts_failed s \<Longrightarrow> test_inv s"
  by (induction rule: rtranclp_induct) (auto intro: test_start_inv dest: test_inv_step failed_stays)

section \<open>Progress\<close>

text \<open>What is left to do: values of \<open>main\<close>, and the steps of the callbacks of an ID.\<close>

primrec phase_left :: "poll_phase \<Rightarrow> nat" where
  "phase_left PollIdle = 5"
| "phase_left PollLocked = 4"
| "phase_left (PollWriting es) =
     (case es of [TestDone i] \<Rightarrow> 2 | [e] \<Rightarrow> 7 | _ \<Rightarrow> 3)"
| "phase_left PollCalled = 6"

definition id_left :: "test_state \<Rightarrow> string \<Rightarrow> nat" where
  "id_left s i = (if i \<in> set (ts_done s) then 0 else 5 * (pollCount - the (ts_ps s i)) + phase_left (ts_phase s i))"

definition test_left :: "test_state \<Rightarrow> nat" where
  "test_left s = (idCount - ts_written s) + sum_list (map (id_left s) test_ids)"

lemma test_left_less:
  assumes "i \<in> set test_ids" and "id_left s' i < id_left s i" and "\<And>j. j \<noteq> i \<Longrightarrow> id_left s' j = id_left s j"
    and "ts_written s' = ts_written s"
  shows "test_left s' < test_left s"
proof -
  have "sum_list (map (id_left s') test_ids) < sum_list (map (id_left s) test_ids)"
    unfolding sum_list_distinct_conv_sum_set [OF test_ids_nth(2)]
  proof (rule sum_strict_mono_ex1)
    show "\<forall>j \<in> set test_ids. id_left s' j \<le> id_left s j" using assms(2,3) by (metis less_imp_le order_refl)
  qed (use assms(1,2) in auto)
  then show ?thesis using assms(4) by (simp add: test_left_def)
qed

text \<open>A step of an ID that is not done takes it further.\<close>

lemma id_progress:
  assumes inv: "test_inv s" and nf: "\<not> ts_failed s" and w: "ts_written s = idCount" and i: "i \<in> set test_ids" "i \<notin> set (ts_done s)"
  shows "\<exists>s'. test_step\<^sup>*\<^sup>* s s' \<and> \<not> ts_failed s' \<and> test_left s' < test_left s"
proof -
  obtain k where k: "k < idCount" "i = test_ids ! k" using id_number [OF i(1)] by metis
  obtain n where n: "ts_ps s i = Some n" "phase_ok s k i n (ts_phase s i)"
    using inv k by (auto simp: test_inv_def poll_ok_def)
  have ex: "\<not> ts_exited s" using inv by (simp add: test_inv_def)
  have one: ?thesis if "test_step s s'" "\<not> ts_failed s'" "id_left s' i < id_left s i" "\<And>j. j \<noteq> i \<Longrightarrow> id_left s' j = id_left s j"
      "ts_written s' = ts_written s" for s'
    using that(1,2) test_left_less [OF i(1) that(3-5)] by blast
  show ?thesis
  proof (cases "ts_phase s i")
    case PollIdle
    let ?t = "s\<lparr>ts_store := (ts_store s)(id_path ttlPath i := None)\<rparr>"
    have "poll_satisfied i (ts_store ?t)"
      using n(2) w k(1) i(2) unfolding PollIdle by (auto elim!: phase_idleE simp: id_is_def poll_satisfied_iff)
    then have "test_step ?t (set_phase i PollLocked ?t)" using ex PollIdle by (intro lock_poll) simp_all
    moreover have "test_step s ?t" using ex by (rule ttl_expires)
    moreover have "test_left (set_phase i PollLocked ?t) < test_left s"
      by (rule test_left_less [OF i(1)]) (use i(2) PollIdle in \<open>simp_all add: id_left_def\<close>)
    ultimately show ?thesis using nf by (intro exI [of _ "set_phase i PollLocked ?t"]) auto
  next
    case PollLocked
    note r = callback_result [OF n(2) [unfolded PollLocked] n(1)]
    show ?thesis
      by (rule one [OF read_poll [OF ex PollLocked r]]) (use nf i(2) PollLocked in \<open>simp_all add: id_left_def\<close>)
  next
    case (PollWriting es)
    note ph = n(2) [unfolded PollWriting]
    show ?thesis
      using ph
    proof (rule phase_writingE)
      assume "es = [TestAdd i, TestPutCount (id_path dataPath i) i]" "n < pollCount"
      note es = this and wr = PollWriting [unfolded this(1)]
      show ?thesis
        by (rule one [OF write_poll [OF ex wr]]) (use nf i(2) wr n(1) es(2) in \<open>simp_all add: id_left_def\<close>)
    next
      fix m assume "es = [TestPutCount (id_path dataPath i) i]"
      note wr = PollWriting [unfolded this]
      show ?thesis
        by (rule one [OF write_last [OF ex wr]]) (use nf i(2) wr in \<open>simp_all add: id_left_def\<close>)
    next
      assume "es = [TestPut (id_path blockPath i) ''done'', TestDone i]"
      note wr = PollWriting [unfolded this]
      show ?thesis
        by (rule one [OF write_poll [OF ex wr]]) (use nf i(2) wr in \<open>simp_all add: id_left_def\<close>)
    next
      assume "es = [TestDone i]"
      note wr = PollWriting [unfolded this]
      have "distinct (i # ts_done s)" "set (i # ts_done s) \<subseteq> set test_ids" using inv i by (auto simp: test_inv_def)
      then have "length (i # ts_done s) \<le> length test_ids"
        using test_ids_nth(2) by (metis card_mono distinct_card finite_set)
      then have "length (ts_done s) < idCount" using test_ids_nth(1) by simp
      then show ?thesis
        by (intro one [OF write_last [OF ex wr]]) (use nf i(2) wr w in \<open>simp_all add: id_left_def\<close>)
    qed simp_all
  next
    case PollCalled
    show ?thesis
      by (rule one [OF no_lease [OF ex PollCalled]]) (use nf i(2) PollCalled in \<open>simp_all add: id_left_def\<close>)
  qed
qed

lemma main_progress:
  assumes "test_inv s" and "\<not> ts_failed s" and "ts_written s < idCount"
  shows "\<exists>s'. test_step\<^sup>*\<^sup>* s s' \<and> \<not> ts_failed s' \<and> test_left s' < test_left s"
proof -
  let ?s = "s\<lparr>ts_store := (ts_store s)(id_path dataPath (test_ids ! ts_written s) \<mapsto> ''0''), ts_written := Suc (ts_written s)\<rparr>"
  have "test_step s ?s" using assms by (intro main_put) (simp_all add: test_inv_def)
  moreover have "id_left ?s = id_left s" by (rule ext) (simp add: id_left_def)
  then have "test_left ?s < test_left s" using assms(3) unfolding test_left_def by (simp add: diff_less_mono2)
  ultimately show ?thesis using assms(2) by (intro exI [of _ ?s]) auto
qed

text \<open>While no call of the client has failed, the program can still finish.\<close>

lemma test_finishes:
  assumes "test_step\<^sup>*\<^sup>* test_start s" and "\<not> ts_failed s"
  shows "\<exists>s'. test_step\<^sup>*\<^sup>* s s' \<and> \<not> ts_failed s' \<and> set test_ids \<subseteq> set (ts_done s')"
  using assms
proof (induction "test_left s" arbitrary: s rule: less_induct)
  case less
  note inv = test_runs_inv [OF less.prems]
  show ?case
  proof (cases "ts_written s = idCount \<and> set test_ids \<subseteq> set (ts_done s)")
    case True
    then show ?thesis using less.prems(2) by blast
  next
    case False
    have "ts_written s \<le> idCount" using inv by (simp add: test_inv_def)
    then obtain t where t: "test_step\<^sup>*\<^sup>* s t" "\<not> ts_failed t" "test_left t < test_left s"
      using False main_progress [OF inv less.prems(2)] id_progress [OF inv less.prems(2)] by (metis le_neq_implies_less subsetI)
    moreover have "test_step\<^sup>*\<^sup>* test_start t" using less.prems(1) t(1) by (rule rtranclp_trans)
    ultimately obtain s' where "test_step\<^sup>*\<^sup>* t s'" "\<not> ts_failed s'" "set test_ids \<subseteq> set (ts_done s')" using less.hyps by blast
    then show ?thesis using t(1) by (meson rtranclp_trans)
  qed
qed


section \<open>Properties\<close>

lemma test_state_facts:
  assumes "test_step\<^sup>*\<^sup>* test_start s" and "\<not> ts_failed s" and "i \<in> set test_ids"
  shows "\<exists>n \<le> pollCount. ts_ps s i = Some n \<and>
    (ts_store s (id_path dataPath i) = None \<and> n = 0 \<or> ts_store s (id_path dataPath i) = Some (fmt_nat n) \<or>
     (\<exists>m. n = Suc m \<and> ts_store s (id_path dataPath i) = Some (fmt_nat m) \<and>
        ts_phase s i = PollWriting [TestPutCount (id_path dataPath i) i])) \<and>
    (i \<in> set (ts_done s) \<longrightarrow> n = pollCount \<and> ts_store s (id_path dataPath i) = Some (fmt_nat n) \<and>
      \<not> poll_satisfied i (ts_store s) \<and> count_list (ts_calls s) i = Suc pollCount)"
proof -
  obtain k where k: "k < idCount" "i = test_ids ! k" using id_number [OF assms(3)] by metis
  obtain n where n: "ts_ps s i = Some n" "phase_ok s k i n (ts_phase s i)"
    using test_runs_inv [OF assms(1,2)] k by (auto simp: test_inv_def poll_ok_def)
  from n(2) show ?thesis
    by cases (use n(1) in \<open>auto simp: id_is_def poll_satisfied_iff intro!: exI [of _ n]\<close>)
qed

text \<open>
  C31. The example program polls as it says, for every interleaving of its callbacks, cut at their writes,
  with \<open>main\<close>, the engine's TTL keys and their expiry. As long as no call of the etcd client fails: no
  callback panics; for every ID the value in etcd is the local count once it has been written, and lags
  behind by one only between the increment and the write of the callback; the count never passes the target;
  an ID is reported as done at most once and only at the target, when its callback has returned six times,
  and from then on its polling rule is not satisfied. And from every such state the program can go on until
  every ID has been polled to the target, is reported and blocked.
\<close>

theorem test_polls_to_target:
  assumes "test_step\<^sup>*\<^sup>* test_start s" and "\<not> ts_failed s"
  shows "\<not> ts_panicked s \<and> distinct (ts_done s) \<and>
    (\<forall>i \<in> set test_ids. \<exists>n \<le> pollCount. ts_ps s i = Some n \<and>
      (ts_store s (id_path dataPath i) = None \<and> n = 0 \<or> ts_store s (id_path dataPath i) = Some (fmt_nat n) \<or>
       (\<exists>m. n = Suc m \<and> ts_store s (id_path dataPath i) = Some (fmt_nat m) \<and>
          ts_phase s i = PollWriting [TestPutCount (id_path dataPath i) i])) \<and>
      (i \<in> set (ts_done s) \<longrightarrow> n = pollCount \<and> ts_store s (id_path dataPath i) = Some (fmt_nat n) \<and>
        \<not> poll_satisfied i (ts_store s) \<and> count_list (ts_calls s) i = Suc pollCount)) \<and>
    (\<exists>s'. test_step\<^sup>*\<^sup>* s s' \<and> \<not> ts_failed s' \<and>
      (\<forall>i \<in> set test_ids. i \<in> set (ts_done s') \<and> ts_ps s' i = Some pollCount \<and> \<not> poll_satisfied i (ts_store s')))"
proof -
  have "\<not> ts_panicked s \<and> distinct (ts_done s)" using test_runs_inv [OF assms] by (simp add: test_inv_def)
  moreover obtain s' where s': "test_step\<^sup>*\<^sup>* s s'" "\<not> ts_failed s'" "set test_ids \<subseteq> set (ts_done s')"
    using test_finishes [OF assms] by blast
  moreover have "test_step\<^sup>*\<^sup>* test_start s'" using assms(1) s'(1) by (rule rtranclp_trans)
  note facts = test_state_facts [OF this s'(2)]
  have "i \<in> set (ts_done s') \<and> ts_ps s' i = Some pollCount \<and> \<not> poll_satisfied i (ts_store s')" if "i \<in> set test_ids" for i
    using facts [OF that] s'(3) that by auto
  ultimately show ?thesis using test_state_facts [OF assms] by blast
qed

theorem test_polls_to_target_witness:
  "\<exists>s. test_step\<^sup>*\<^sup>* test_start s \<and> \<not> ts_failed s \<and> \<not> ts_panicked s \<and>
     (\<forall>i \<in> {''0'', ''1'', ''2'', ''3''}. i \<in> set (ts_done s) \<and> ts_ps s i = Some 5 \<and>
        ts_store s (id_path dataPath i) = Some ''5'' \<and> count_list (ts_calls s) i = 6)"
proof -
  have ids: "set test_ids = {''0'', ''1'', ''2'', ''3''}" by (simp add: test_ids)
  have five: "fmt_nat pollCount = ''5''" "pollCount = 5" by code_simp+
  have start: "\<not> ts_failed test_start" by (simp add: test_start_def)
  obtain s where s: "test_step\<^sup>*\<^sup>* test_start s" "\<not> ts_failed s" "\<forall>i \<in> set test_ids. i \<in> set (ts_done s)"
    using test_polls_to_target [OF rtranclp.rtrancl_refl start] by blast
  note at = test_polls_to_target [OF s(1,2)]
  have "ts_ps s i = Some 5 \<and> ts_store s (id_path dataPath i) = Some ''5'' \<and> count_list (ts_calls s) i = 6"
    if "i \<in> set test_ids" for i
    using at s(3) that five by fastforce
  then show ?thesis using s at unfolding ids by blast
qed

end
