(* ===== verification/SessionManager.thy ===== *)
theory SessionManager
  imports Locks
begin

text \<open>
  \<open>concurrency/session_manager.go\<close>: the session that all etcd locks of an engine share. The client is
  the record \<open>etcd_api\<close> of theory \<open>Locks\<close>; a session manager is again such a record, whose sessions
  come from \<open>GetSession\<close>, so that the lockers run on it unchanged.

  \<open>GetSession\<close> and the goroutines that clear a closed session hold the manager's mutex for all they
  do, so each is one step. The context that \<open>GetSession\<close> is given is not used by the code.
\<close>

section \<open>Definitions\<close>

text \<open>The manager with the client's state and the sessions that a goroutine waits for.\<close>

record 'e session_manager =
  sm_client :: 'e
  sm_session :: "nat option"
  sm_watching :: "nat list"

definition newSessionManager :: "'e \<Rightarrow> 'e session_manager" where
  "newSessionManager client = \<lparr>sm_client = client, sm_session = None, sm_watching = []\<rparr>"

text \<open>When the client returns an error it returns a nil session.\<close>

definition GetSession :: "'e etcd_api \<Rightarrow> 'e session_manager \<Rightarrow> (string + nat) \<times> 'e session_manager" where
  "GetSession api sm =
     (case sm_session sm of
        Some s \<Rightarrow> (Inr s, sm)
      | None \<Rightarrow>
          (case newSession api (sm_client sm) of
             (Inl err, e) \<Rightarrow> (Inl err, sm\<lparr>sm_client := e\<rparr>)
           | (Inr s, e) \<Rightarrow> (Inr s, sm\<lparr>sm_client := e, sm_session := Some s, sm_watching := sm_watching sm @ [s]\<rparr>)))"

text \<open>The goroutine for a session, when the session is done: it clears whatever session the manager has.\<close>

definition clear_session :: "nat \<Rightarrow> 'e session_manager \<Rightarrow> 'e session_manager" where
  "clear_session s sm = sm\<lparr>sm_session := None, sm_watching := remove1 s (sm_watching sm)\<rparr>"

text \<open>The client with the sessions of a manager: \<open>NewSessionLocker(sessionManager.GetSession, \<dots>)\<close>.\<close>

definition on_client :: "('e \<Rightarrow> 'r \<times> 'e) \<Rightarrow> 'e session_manager \<Rightarrow> 'r \<times> 'e session_manager" where
  "on_client f sm = (case f (sm_client sm) of (r, e) \<Rightarrow> (r, sm\<lparr>sm_client := e\<rparr>))"

definition shared_session_api :: "'e etcd_api \<Rightarrow> 'e session_manager etcd_api" where
  "shared_session_api api =
     \<lparr>newSession = GetSession api,
      mutex_Lock = (\<lambda>s key. on_client (mutex_Lock api s key)),
      mutex_TryLock = (\<lambda>s key. on_client (mutex_TryLock api s key)),
      mutex_Unlock = (\<lambda>s key. on_client (mutex_Unlock api s key)),
      session_Close = (\<lambda>s. on_client (session_Close api s))\<rparr>"

text \<open>
  The steps of the manager: calls of \<open>GetSession\<close>, whatever else happens to the client, and
  goroutines that see their session closed. \<open>is_closed\<close> tells when the channel \<open>Done\<close> of a session is
  closed.
\<close>

inductive sm_step :: "'e etcd_api \<Rightarrow> (nat \<Rightarrow> 'e \<Rightarrow> bool) \<Rightarrow> 'e session_manager \<Rightarrow> 'e session_manager \<Rightarrow> bool"
  for api is_closed where
  sm_get: "sm_step api is_closed sm (snd (GetSession api sm))"
| sm_other: "sm_step api is_closed sm (sm\<lparr>sm_client := e\<rparr>)"
| sm_clear: "s \<in> set (sm_watching sm) \<Longrightarrow> is_closed s (sm_client sm) \<Longrightarrow> sm_step api is_closed sm (clear_session s sm)"

section \<open>One session, one goroutine\<close>

definition sm_inv :: "'e session_manager \<Rightarrow> bool" where
  "sm_inv sm \<longleftrightarrow> sm_watching sm = (case sm_session sm of None \<Rightarrow> [] | Some s \<Rightarrow> [s])"

lemma sm_inv_step: "sm_step api is_closed sm sm' \<Longrightarrow> sm_inv sm \<Longrightarrow> sm_inv sm'"
  by (induction rule: sm_step.induct)
    (auto simp: sm_inv_def GetSession_def clear_session_def split: option.splits sum.splits prod.splits)

lemma sm_inv_run: "(sm_step api is_closed)\<^sup>*\<^sup>* sm sm' \<Longrightarrow> sm_inv sm \<Longrightarrow> sm_inv sm'"
  by (induction rule: rtranclp_induct) (auto intro: sm_inv_step)

lemma sm_inv_new: "sm_inv (newSessionManager e)"
  by (simp add: sm_inv_def newSessionManager_def)

text \<open>Only a goroutine takes a session away.\<close>

lemma sm_step_session:
  assumes "sm_step api is_closed sm sm'" and "sm_session sm = Some s"
  shows "sm_session sm' = Some s \<or> (\<exists>s'. s' \<in> set (sm_watching sm) \<and> is_closed s' (sm_client sm) \<and> sm' = clear_session s' sm)"
  using assms by (induction rule: sm_step.induct) (auto simp: GetSession_def)

lemma GetSession_held: "sm_session sm = Some s \<Longrightarrow> GetSession api sm = (Inr s, sm)"
  by (simp add: GetSession_def)

lemma GetSession_holds: "GetSession api sm = (Inr s, sm') \<Longrightarrow> sm_session sm' = Some s"
  by (auto simp: GetSession_def split: option.splits sum.splits prod.splits)

text \<open>A run in which the session is never seen closed.\<close>

lemma session_kept:
  "(sm_step api (\<lambda>_ _. False))\<^sup>*\<^sup>* sm sm' \<Longrightarrow> sm_session sm = Some s \<Longrightarrow> sm_session sm' = Some s"
  by (induction rule: rtranclp_induct) (auto dest: sm_step_session)

lemma shared_lock_session:
  assumes "Lock (shared_session_api api) (V3Locker closeSession useTryLock) key opts st = (Inr l, st')"
  shows "\<exists>s sm. GetSession api (ls_etcd st) = (Inr s, sm) \<and> sm_session (ls_etcd st') = Some s \<and>
    l = V3Lock (Some (s, key)) (if closeSession then Some s else None)"
proof -
  obtain s sm where get: "GetSession api (ls_etcd st) = (Inr s, sm)"
    using assms by (cases "GetSession api (ls_etcd st)")
      (auto simp: lockWithTimeout_def shared_session_api_def split: sum.splits)
  then have "sm_session sm = Some s" by (rule GetSession_holds)
  then show ?thesis
    using assms get
    by (auto simp: lockWithTimeout_def shared_session_api_def on_client_def split: prod.splits option.splits if_splits)
qed

section \<open>Properties\<close>

text \<open>
  C27. The session is a singleton: in every interleaving of callers, client and goroutines there is a
  goroutine for the session the manager has and no other, so a goroutine never clears a session that
  replaced its own; and the session is given up only when it is closed, by a step that leaves none.
\<close>

theorem session_manager_singleton:
  assumes "(sm_step api is_closed)\<^sup>*\<^sup>* (newSessionManager e) sm"
  shows "(\<forall>s. s \<in> set (sm_watching sm) \<longleftrightarrow> sm_session sm = Some s) \<and> distinct (sm_watching sm) \<and>
    (\<forall>s sm'. sm_session sm = Some s \<and> sm_step api is_closed sm sm' \<longrightarrow>
      sm_session sm' = Some s \<or> is_closed s (sm_client sm) \<and> sm_session sm' = None)"
proof -
  have inv: "sm_watching sm = (case sm_session sm of None \<Rightarrow> [] | Some s \<Rightarrow> [s])"
    using sm_inv_run [OF assms sm_inv_new] by (simp add: sm_inv_def)
  have "sm_session sm' = Some s \<or> is_closed s (sm_client sm) \<and> sm_session sm' = None"
    if "sm_session sm = Some s" "sm_step api is_closed sm sm'" for s sm'
    using sm_step_session [OF that(2,1)] inv that(1) by (auto simp: clear_session_def)
  then show ?thesis using inv by (auto split: option.splits)
qed

theorem session_manager_singleton_witness:
  "\<exists>sm. sm_session sm = Some 7 \<and> set (sm_watching sm) = {7} \<and> distinct (sm_watching sm) \<and>
     GetSession \<lparr>newSession = \<lambda>e. (Inr e, Suc e), mutex_Lock = \<lambda>s k e. (None, e), mutex_TryLock = \<lambda>s k e. (None, e),
       mutex_Unlock = \<lambda>s k e. (None, e), session_Close = \<lambda>s e. (None, e)\<rparr> (newSessionManager 7) = (Inr 7, sm)"
proof -
  let ?api = "\<lparr>newSession = \<lambda>e. (Inr e, Suc e), mutex_Lock = \<lambda>s k e. (None, e), mutex_TryLock = \<lambda>s k e. (None, e),
    mutex_Unlock = \<lambda>s k e. (None, e), session_Close = \<lambda>s e. (None, e)\<rparr>"
  let ?sm = "\<lparr>sm_client = 8, sm_session = Some 7, sm_watching = [7 :: nat]\<rparr>"
  have get: "GetSession ?api (newSessionManager 7) = (Inr 7, ?sm)" by (simp add: GetSession_def newSessionManager_def)
  have "sm_step ?api (\<lambda>s e. False) (newSessionManager 7) (snd (GetSession ?api (newSessionManager 7)))" by (rule sm_get)
  then have "(sm_step ?api (\<lambda>s e. False))\<^sup>*\<^sup>* (newSessionManager 7) ?sm" unfolding get by simp
  from session_manager_singleton [OF this] get show ?thesis by (intro exI [of _ ?sm]) auto
qed

text \<open>
  The etcd locks of an engine that shares its session are all taken in one session, as long as it
  is not seen closed: after a lock was taken, and after any further calls, the next lock is in the same
  session, and no such lock closes it.
\<close>

theorem shared_locks_in_one_session:
  assumes "Lock (shared_session_api api) (V3Locker False useTryLock) key opts st = (Inr l, st')"
    and "(sm_step api (\<lambda>_ _. False))\<^sup>*\<^sup>* (ls_etcd st') (ls_etcd st2)"
    and "Lock (shared_session_api api) (V3Locker False useTryLock) key2 opts2 st2 = (Inr l2, st2')"
  shows "\<exists>s. l = V3Lock (Some (s, key)) None \<and> l2 = V3Lock (Some (s, key2)) None"
proof -
  obtain s where s: "sm_session (ls_etcd st') = Some s" "l = V3Lock (Some (s, key)) None"
    using shared_lock_session [OF assms(1)] by auto
  have "sm_session (ls_etcd st2) = Some s" using session_kept [OF assms(2) s(1)] .
  then show ?thesis using shared_lock_session [OF assms(3)] s(2) by (auto simp: GetSession_held)
qed

theorem shared_locks_in_one_session_witness:
  "let api = \<lparr>newSession = \<lambda>e. (Inr e, Suc e), mutex_Lock = \<lambda>s k e. (None, e), mutex_TryLock = \<lambda>s k e. (None, e),
       mutex_Unlock = \<lambda>s k e. (None, e), session_Close = \<lambda>s e. (None, e)\<rparr>;
     st = \<lparr>ls_maps = \<lambda>_. [], ls_cooloff = \<lambda>_. [], ls_now = 0, ls_etcd = newSessionManager 7, ls_events = []\<rparr>
   in \<exists>l st' l2 st2'. Lock (shared_session_api api) (V3Locker False False) ''/a'' [] st = (Inr l, st') \<and>
     Lock (shared_session_api api) (V3Locker False False) ''/b'' [] st' = (Inr l2, st2') \<and>
     (\<exists>s. l = V3Lock (Some (s, ''/a'')) None \<and> l2 = V3Lock (Some (s, ''/b'')) None)"
proof -
  let ?api = "\<lparr>newSession = \<lambda>e. (Inr e, Suc e), mutex_Lock = \<lambda>s k e. (None, e), mutex_TryLock = \<lambda>s k e. (None, e),
    mutex_Unlock = \<lambda>s k e. (None, e), session_Close = \<lambda>s e. (None, e)\<rparr>"
  let ?st = "\<lparr>ls_maps = \<lambda>_. [], ls_cooloff = \<lambda>_. [], ls_now = 0, ls_etcd = newSessionManager 7, ls_events = []\<rparr>"
  let ?sm = "\<lparr>sm_client = 8, sm_session = Some 7, sm_watching = [7 :: nat]\<rparr>"
  let ?st' = "?st\<lparr>ls_etcd := ?sm\<rparr>"
  have one: "Lock (shared_session_api ?api) (V3Locker False False) ''/a'' [] ?st = (Inr (V3Lock (Some (7, ''/a'')) None), ?st')"
    and two: "Lock (shared_session_api ?api) (V3Locker False False) ''/b'' [] ?st' = (Inr (V3Lock (Some (7, ''/b'')) None), ?st')"
    by (simp_all add: lockWithTimeout_def shared_session_api_def GetSession_def newSessionManager_def on_client_def)
  show ?thesis
    unfolding Let_def using shared_locks_in_one_session [OF one _ two] one two by blast
qed

end
