(* ===== verification/Metrics.thy ===== *)
theory Metrics
  imports Engine
begin

text \<open>
  The metrics of the engine: the method name that a context carries (\<open>rules/metrics.go\<close> and the first
  part of \<open>rules/metrics_collector.go\<close>), and the prometheus collectors (\<open>metrics/prometheus.go\<close>) with
  the places that call them. The collector interface of users is in theory Doubles.

  The prometheus client is third-party code. A call of one of its collectors is a value of type
  \<open>prom_call\<close>; what such calls do to the values that are read later is a parameter with the laws
  \<open>prometheus_laws\<close> (a counter counts, a gauge keeps the last value, collectors and label values do
  not interfere). Durations are nanoseconds; floating-point numbers are those of theory Floats.
\<close>

section \<open>Definitions\<close>

subsection \<open>Contexts\<close>

text \<open>Keys of contexts are typed: \<open>contextKey\<close> is the type of this package.\<close>

datatype ctx_key = ContextKey string | ForeignKey string

record EtcdMetricsMetadata =
  md_Method :: string
  md_Duration :: int
  md_Error :: "string option"

datatype ctx_value = MetadataPtr EtcdMetricsMetadata | ForeignValue string

text \<open>A context is the chain of its values, the latest first.\<close>

type_synonym go_context = "(ctx_key \<times> ctx_value) list"

definition WithValue :: "go_context \<Rightarrow> ctx_key \<Rightarrow> ctx_value \<Rightarrow> go_context" where
  "WithValue ctx k v = (k, v) # ctx"

primrec contextKey_String :: "ctx_key \<Rightarrow> string" where
  "contextKey_String (ContextKey c) = ''rules context key '' @ c"
| "contextKey_String (ForeignKey c) = c"

definition contextKeyEtcdMetricsMetadata :: ctx_key where
  "contextKeyEtcdMetricsMetadata = ContextKey ''etcdMetricsMetadata''"

definition SetMethod :: "go_context \<Rightarrow> string \<Rightarrow> go_context" where
  "SetMethod ctx meth =
     WithValue ctx contextKeyEtcdMetricsMetadata (MetadataPtr \<lparr>md_Method = meth, md_Duration = 0, md_Error = None\<rparr>)"

definition GetMetricsMetadata :: "go_context \<Rightarrow> EtcdMetricsMetadata option" where
  "GetMetricsMetadata ctx =
     (case map_of ctx contextKeyEtcdMetricsMetadata of Some (MetadataPtr md) \<Rightarrow> Some md | _ \<Rightarrow> None)"

definition notSetMethodName :: string where
  "notSetMethodName = ''notSet''"

definition getMethodNameFromContext :: "go_context \<Rightarrow> string" where
  "getMethodNameFromContext ctx =
     (case GetMetricsMetadata ctx of Some data \<Rightarrow> md_Method data | None \<Rightarrow> notSetMethodName)"

text \<open>Calling a nil provider panics.\<close>

definition getMethodNameFromProvider :: "(unit \<Rightarrow> go_context \<times> 'cancel) option \<Rightarrow> string go" where
  "getMethodNameFromProvider cp =
     (case cp of None \<Rightarrow> Panic | Some f \<Rightarrow> (case f () of (ctx, _) \<Rightarrow> Ret (getMethodNameFromContext ctx)))"

record metricsInfo =
  mi_keyPattern :: string
  mi_method :: string
  mi_startTime :: int

definition newMetricsInfo :: "go_context \<Rightarrow> string \<Rightarrow> int \<Rightarrow> metricsInfo" where
  "newMetricsInfo ctx keyPattern startTime =
     \<lparr>mi_keyPattern = keyPattern, mi_method = getMethodNameFromContext ctx, mi_startTime = startTime\<rparr>"

definition defaultWrapKV :: "'kv \<Rightarrow> 'kv" where
  "defaultWrapKV kv = kv"

definition defaultWrapWatcher :: "'w \<Rightarrow> 'w" where
  "defaultWrapWatcher w = w"

subsection \<open>Prometheus collectors\<close>

datatype prom_vec =
    rulesEngineLockCount
  | rulesEngineUnlockErrorCount
  | rulesEngineSatisfiedThenNot
  | rulesEngineEvaluations
  | rulesEngineWorkerQueueWait
  | rulesEngineWorkBufferWaitTime
  | rulesEngineCallbackWaitTime
  | rulesEngineKeyProcessBufferCap
  | rulesEngineWatcherErrors
  | rulesEngineCrawlerQueryTime
  | rulesEngineCrawlerEvalTime
  | rulesEngineCrawlerValues
  | rulesEngineWorkerCount

datatype prom_kind = Counter | Gauge | Histogram

text \<open>The declarations: the kind, the name (behind \<open>rules_etcd_\<close>) and the labels.\<close>

primrec declared :: "prom_vec \<Rightarrow> prom_kind \<times> string \<times> string list" where
  "declared rulesEngineLockCount = (Counter, ''lock_count'', [''locker'', ''method'', ''pattern'', ''success''])"
| "declared rulesEngineUnlockErrorCount = (Counter, ''unlock_error_count'', [''locker'', ''method'', ''pattern''])"
| "declared rulesEngineSatisfiedThenNot = (Counter, ''rule_satisfied_then_not'', [''method'', ''pattern'', ''phase''])"
| "declared rulesEngineEvaluations = (Gauge, ''evaluations'', [''method'', ''rule''])"
| "declared rulesEngineWorkerQueueWait = (Histogram, ''worker_queue_wait_ms'', [''method''])"
| "declared rulesEngineWorkBufferWaitTime = (Histogram, ''work_buffer_wait_ms'', [''method'', ''pattern''])"
| "declared rulesEngineCallbackWaitTime = (Histogram, ''callback_duration_ms'', [''pattern'', ''rule'', ''source''])"
| "declared rulesEngineKeyProcessBufferCap = (Gauge, ''key_process_buffer_cap'', [])"
| "declared rulesEngineWatcherErrors = (Counter, ''watcher_errors'', [''error'', ''prefix''])"
| "declared rulesEngineCrawlerQueryTime = (Histogram, ''crawler_query_seconds'', [''name''])"
| "declared rulesEngineCrawlerEvalTime = (Histogram, ''crawler_eval_seconds'', [''name''])"
| "declared rulesEngineCrawlerValues = (Gauge, ''crawler_values_count'', [''name''])"
| "declared rulesEngineWorkerCount = (Gauge, ''worker_count'', [])"

text \<open>What \<open>init\<close> registers.\<close>

definition registered_vecs :: "prom_vec list" where
  "registered_vecs =
     [rulesEngineLockCount, rulesEngineSatisfiedThenNot, rulesEngineEvaluations,
      rulesEngineWorkerQueueWait, rulesEngineWorkBufferWaitTime, rulesEngineCallbackWaitTime,
      rulesEngineKeyProcessBufferCap, rulesEngineWatcherErrors, rulesEngineCrawlerQueryTime,
      rulesEngineCrawlerEvalTime, rulesEngineCrawlerValues, rulesEngineWorkerCount]"

datatype prom_call =
    Inc prom_vec "string list"
  | SetTo prom_vec "string list" rat
  | Observe prom_vec "string list" rat

definition FormatBool :: "bool \<Rightarrow> string" where
  "FormatBool b = (if b then ''true'' else ''false'')"

definition millis :: "int \<Rightarrow> rat" where
  "millis elapsed = fl64 (of_int (elapsed sdiv 1000000))"

definition seconds :: "int \<Rightarrow> rat" where
  "seconds elapsed = duration_Seconds elapsed"

definition IncLockMetric :: "string \<Rightarrow> string \<Rightarrow> string \<Rightarrow> bool \<Rightarrow> prom_call" where
  "IncLockMetric locker methodName pattern lockSucceeded =
     Inc rulesEngineLockCount [locker, methodName, pattern, FormatBool lockSucceeded]"

definition IncUnlockErrorMetric :: "string \<Rightarrow> string \<Rightarrow> string \<Rightarrow> prom_call" where
  "IncUnlockErrorMetric locker methodName pattern = Inc rulesEngineUnlockErrorCount [locker, methodName, pattern]"

definition IncSatisfiedThenNot :: "string \<Rightarrow> string \<Rightarrow> string \<Rightarrow> prom_call" where
  "IncSatisfiedThenNot methodName pattern phaseName = Inc rulesEngineSatisfiedThenNot [methodName, pattern, phaseName]"

definition TimesEvaluated :: "string \<Rightarrow> string \<Rightarrow> int \<Rightarrow> prom_call" where
  "TimesEvaluated methodName ruleID n = SetTo rulesEngineEvaluations [methodName, ruleID] (fl64 (of_int n))"

definition WorkerQueueWaitTime :: "string \<Rightarrow> int \<Rightarrow> prom_call" where
  "WorkerQueueWaitTime methodName elapsed = Observe rulesEngineWorkerQueueWait [methodName] (millis elapsed)"

definition WorkBufferWaitTime :: "string \<Rightarrow> string \<Rightarrow> int \<Rightarrow> prom_call" where
  "WorkBufferWaitTime methodName pattern elapsed =
     Observe rulesEngineWorkBufferWaitTime [methodName, pattern] (millis elapsed)"

definition CallbackWaitTime :: "string \<Rightarrow> string \<Rightarrow> string \<Rightarrow> int \<Rightarrow> prom_call" where
  "CallbackWaitTime pattern ruleID source elapsed =
     Observe rulesEngineCallbackWaitTime [pattern, ruleID, source] (millis elapsed)"

definition KeyProcessBufferCap :: "int \<Rightarrow> prom_call" where
  "KeyProcessBufferCap n = SetTo rulesEngineKeyProcessBufferCap [] (fl64 (of_int n))"

definition IncWatcherErrMetric :: "string \<Rightarrow> string \<Rightarrow> prom_call" where
  "IncWatcherErrMetric err pfx = Inc rulesEngineWatcherErrors [err, pfx]"

definition CrawlerQueryTime :: "string \<Rightarrow> int \<Rightarrow> prom_call" where
  "CrawlerQueryTime name elapsed = Observe rulesEngineCrawlerQueryTime [name] (seconds elapsed)"

definition CrawlerEvalTime :: "string \<Rightarrow> int \<Rightarrow> prom_call" where
  "CrawlerEvalTime name elapsed = Observe rulesEngineCrawlerEvalTime [name] (seconds elapsed)"

definition CrawlerValuesCount :: "string \<Rightarrow> int \<Rightarrow> prom_call" where
  "CrawlerValuesCount name n = SetTo rulesEngineCrawlerValues [name] (fl64 (of_int n))"

definition WorkersCount :: "int \<Rightarrow> prom_call" where
  "WorkersCount n = SetTo rulesEngineWorkerCount [] (fl64 (of_int n))"

lemmas prom_defs = IncLockMetric_def IncUnlockErrorMetric_def IncSatisfiedThenNot_def TimesEvaluated_def
  WorkerQueueWaitTime_def WorkBufferWaitTime_def CallbackWaitTime_def KeyProcessBufferCap_def IncWatcherErrMetric_def
  CrawlerQueryTime_def CrawlerEvalTime_def CrawlerValuesCount_def WorkersCount_def

subsection \<open>Who calls them\<close>

text \<open>The observers that \<open>WithMetrics\<close> gives to a metric locker.\<close>

primrec lock_calls :: "lock_event \<Rightarrow> prom_call" where
  "lock_calls (ObserveLock locker meth pattern ok) = IncLockMetric locker meth pattern ok"
| "lock_calls (ObserveUnlockError locker meth pattern) = IncUnlockErrorMetric locker meth pattern"

text \<open>
  A run of \<open>doWork\<close>: the calls at the events, and the duration of a callback that returned. The
  elapsed times are those of the queue and of the callback.
\<close>

primrec event_calls :: "metricsInfo \<Rightarrow> int \<Rightarrow> work_event \<Rightarrow> prom_call list" where
  "event_calls info queued (EvSatisfiedThenNot phase) = [IncSatisfiedThenNot (mi_method info) (mi_keyPattern info) phase]"
| "event_calls info queued (EvLockFailed key) = []"
| "event_calls info queued (EvLocked key) = []"
| "event_calls info queued (EvUnlocked key err) = []"
| "event_calls info queued EvQueueWait = [WorkerQueueWaitTime (mi_method info) queued]"
| "event_calls info queued (EvCallback cb attrs) = []"
| "event_calls info queued (EvCallbackDone ruleID attrs) = []"

definition is_callback :: "work_event \<Rightarrow> bool" where
  "is_callback e = (case e of EvCallback cb attrs \<Rightarrow> True | _ \<Rightarrow> False)"

definition doWork_calls ::
  "metricsInfo \<Rightarrow> int \<Rightarrow> int \<Rightarrow> string \<Rightarrow> string \<Rightarrow> work_event list \<times> 'st \<times> unit go \<Rightarrow> prom_call list" where
  "doWork_calls info queued took ruleID source run =
     (case run of (events, _, outcome) \<Rightarrow>
        concat (map (event_calls info queued) events) @
        (case outcome of
           Ret _ \<Rightarrow> if list_ex is_callback events then [CallbackWaitTime (mi_keyPattern info) ruleID source took] else []
         | _ \<Rightarrow> []))"

text \<open>A run of the crawler that is called \<open>name\<close>, and the crawler's counts.\<close>

primrec crawl_calls :: "string \<Rightarrow> int \<Rightarrow> int \<Rightarrow> crawl_outcome \<Rightarrow> prom_call list" where
  "crawl_calls name query eval CrawlStopping = []"
| "crawl_calls name query eval (CrawlLocked err) = []"
| "crawl_calls name query eval (CrawlFailed err) = []"
| "crawl_calls name query eval (CrawlDone n counts) =
     [CrawlerQueryTime name query, CrawlerValuesCount name (int n), CrawlerEvalTime name eval] @
     map (\<lambda>(ruleID, k). TimesEvaluated ''crawler'' ruleID (int k)) counts"

text \<open>\<open>incRuleProcessedCount\<close> of \<open>rules/watcher.go\<close>, the counter that a watcher gives to its tasks.\<close>

definition watcher_incRuleProcessedCount :: "string \<Rightarrow> prom_call" where
  "watcher_incRuleProcessedCount ruleID = TimesEvaluated ''watcher'' ruleID 1"

text \<open>
  \<open>dispatchWork\<close> observes how long the send of an item waited; the provider of the item gives the
  method, and without a provider the key worker panics here.
\<close>

definition dispatch_call :: "(unit \<Rightarrow> go_context \<times> 'cancel) option \<Rightarrow> string \<Rightarrow> int \<Rightarrow> prom_call go" where
  "dispatch_call provider keyPattern waited =
     go_bind (getMethodNameFromProvider provider) (\<lambda>meth. Ret (WorkBufferWaitTime meth keyPattern waited))"

text \<open>The errors that \<open>next\<close> of \<open>rules/etcd.go\<close> has met on the watch channel.\<close>

definition watch_error_calls :: "etcdV3KeyWatcher \<Rightarrow> prom_call list" where
  "watch_error_calls kw = map (\<lambda>err. IncWatcherErrMetric err (kw_prefix kw)) (rev (kw_errors kw))"

text \<open>
  A round of \<open>bufferCapacitySampler\<close>: the gauge, whether it warns, and the hour of the last warning.
  The quotient is computed in \<open>float32\<close>; for an unbuffered channel it is NaN, which is not below 0.05.
\<close>

definition bufferCapacitySampler :: "nat \<Rightarrow> nat \<Rightarrow> int \<Rightarrow> int \<Rightarrow> prom_call \<times> bool \<times> int" where
  "bufferCapacitySampler capacity queued currentHour lastNotified =
     (let remainingBuffer = int capacity - int queued;
          warn = (capacity > 0 \<and> fl32 (fl32 (of_int remainingBuffer) / fl32 (of_nat capacity)) < fl32 (1 / 20) \<and> lastNotified \<noteq> currentHour)
      in (KeyProcessBufferCap remainingBuffer, warn, if warn then currentHour else lastNotified))"

text \<open>Its rounds, over the hours and fill levels it meets; it starts without a notification (-1).\<close>

primrec sampler_warnings :: "nat \<Rightarrow> int \<Rightarrow> (int \<times> nat) list \<Rightarrow> int list" where
  "sampler_warnings capacity lastNotified [] = []"
| "sampler_warnings capacity lastNotified (r # rs) =
     (case r of (hour, queued) \<Rightarrow>
        case bufferCapacitySampler capacity queued hour lastNotified of (_, warn, last') \<Rightarrow>
          (if warn then [hour] else []) @ sampler_warnings capacity last' rs)"

section \<open>Contexts carry the method\<close>

lemma getMethodNameFromContext_SetMethod [simp]: "getMethodNameFromContext (SetMethod ctx meth) = meth"
  by (simp add: getMethodNameFromContext_def GetMetricsMetadata_def SetMethod_def WithValue_def)

lemma getMethodNameFromContext_WithValue:
  "k \<noteq> contextKeyEtcdMetricsMetadata \<Longrightarrow>
     getMethodNameFromContext (WithValue ctx k v) = getMethodNameFromContext ctx"
  by (simp add: getMethodNameFromContext_def GetMetricsMetadata_def WithValue_def)

lemma getMethodNameFromContext_background [simp]: "getMethodNameFromContext [] = notSetMethodName"
  by (simp add: getMethodNameFromContext_def GetMetricsMetadata_def)

section \<open>Calls of the client\<close>

primrec call_vec :: "prom_call \<Rightarrow> prom_vec" where
  "call_vec (Inc v ls) = v"
| "call_vec (SetTo v ls x) = v"
| "call_vec (Observe v ls x) = v"

primrec call_labels :: "prom_call \<Rightarrow> string list" where
  "call_labels (Inc v ls) = ls"
| "call_labels (SetTo v ls x) = ls"
| "call_labels (Observe v ls x) = ls"

primrec call_kind :: "prom_call \<Rightarrow> prom_kind" where
  "call_kind (Inc v ls) = Counter"
| "call_kind (SetTo v ls x) = Gauge"
| "call_kind (Observe v ls x) = Histogram"

text \<open>
  A call that \<open>WithLabelValues\<close> does not panic at, of an operation that the collector has: as many
  label values as labels were declared.
\<close>

definition well_labelled :: "prom_call \<Rightarrow> bool" where
  "well_labelled c \<longleftrightarrow> length (call_labels c) = length (snd (snd (declared (call_vec c)))) \<and>
     call_kind c = fst (declared (call_vec c))"

lemma call_fields [simp]: "well_labelled (IncLockMetric l m p b)" "well_labelled (IncUnlockErrorMetric l m p)"
  "well_labelled (IncSatisfiedThenNot m p ph)" "well_labelled (TimesEvaluated m ruleID n)"
  "well_labelled (WorkerQueueWaitTime m d)" "well_labelled (WorkBufferWaitTime m p d)"
  "well_labelled (CallbackWaitTime p ruleID so d)" "well_labelled (KeyProcessBufferCap n)"
  "well_labelled (IncWatcherErrMetric e p)" "well_labelled (CrawlerQueryTime na d)" "well_labelled (CrawlerEvalTime na d)"
  "well_labelled (CrawlerValuesCount na n)" "well_labelled (WorkersCount n)"
  by (simp_all add: well_labelled_def prom_defs)

text \<open>Calls that end up in what is exported: well-labelled, of a registered collector.\<close>

definition exported :: "prom_call \<Rightarrow> bool" where
  "exported c \<longleftrightarrow> well_labelled c \<and> call_vec c \<in> set registered_vecs"

lemma exported_calls [simp]: "exported (IncLockMetric l m p b)" "\<not> exported (IncUnlockErrorMetric l m p)"
  "exported (IncSatisfiedThenNot m p ph)" "exported (TimesEvaluated m ruleID n)"
  "exported (WorkerQueueWaitTime m d)" "exported (WorkBufferWaitTime m p d)"
  "exported (CallbackWaitTime p ruleID so d)" "exported (KeyProcessBufferCap n)"
  "exported (IncWatcherErrMetric e p)" "exported (CrawlerQueryTime na d)" "exported (CrawlerEvalTime na d)"
  "exported (CrawlerValuesCount na n)" "exported (WorkersCount n)"
  unfolding exported_def by (simp_all add: well_labelled_def prom_defs registered_vecs_def)

lemma event_calls_exported: "c \<in> set (event_calls info q e) \<Longrightarrow> exported c"
  by (cases e) auto

lemma crawl_calls_exported: "c \<in> set (crawl_calls na q e out) \<Longrightarrow> exported c"
  by (cases out) auto

lemma doWork_calls_exported: "c \<in> set (doWork_calls info q d ruleID so run) \<Longrightarrow> exported c"
  by (auto simp: doWork_calls_def event_calls_exported split: prod.splits go.splits if_splits)

section \<open>What is read later\<close>

text \<open>
  The documented behaviour of the client: \<open>exec\<close> performs a call, \<open>val\<close> reads a counter or a gauge.
\<close>

definition prometheus_laws :: "(prom_call \<Rightarrow> 's \<Rightarrow> 's) \<Rightarrow> ('s \<Rightarrow> prom_vec \<Rightarrow> string list \<Rightarrow> rat) \<Rightarrow> bool" where
  "prometheus_laws exec val \<longleftrightarrow>
     (\<forall>c s v ls. well_labelled c \<longrightarrow> fst (declared v) \<noteq> Histogram \<longrightarrow>
        val (exec c s) v ls =
          (case c of
             Inc v' ls' \<Rightarrow> if v = v' \<and> ls = ls' then val s v ls + 1 else val s v ls
           | SetTo v' ls' x \<Rightarrow> if v = v' \<and> ls = ls' then x else val s v ls
           | Observe v' ls' x \<Rightarrow> val s v ls))"

lemma prometheus_law:
  "prometheus_laws exec val \<Longrightarrow> well_labelled c \<Longrightarrow> fst (declared v) \<noteq> Histogram \<Longrightarrow>
     val (exec c s) v ls =
       (case c of
          Inc v' ls' \<Rightarrow> if v = v' \<and> ls = ls' then val s v ls + 1 else val s v ls
        | SetTo v' ls' x \<Rightarrow> if v = v' \<and> ls = ls' then x else val s v ls
        | Observe v' ls' x \<Rightarrow> val s v ls)"
  unfolding prometheus_laws_def by blast

lemma counter_counts:
  assumes "prometheus_laws exec val" and "\<forall>c \<in> set calls. well_labelled c" and "fst (declared v) = Counter"
  shows "val (fold exec calls s) v ls = val s v ls + of_nat (count_list calls (Inc v ls))"
  using assms(2)
proof (induction calls arbitrary: s)
  case (Cons c calls)
  have "well_labelled c" "fst (declared v) \<noteq> Histogram" using Cons.prems assms(3) by simp_all
  note law = prometheus_law [OF assms(1) this, of s ls]
  have "val (exec c s) v ls = (if c = Inc v ls then val s v ls + 1 else val s v ls)"
    unfolding law using \<open>well_labelled c\<close> assms(3) by (cases c) (auto simp: well_labelled_def)
  then show ?case using Cons by simp
qed simp

lemma gauge_keeps_last:
  assumes "prometheus_laws exec val" and "\<forall>c \<in> set calls. well_labelled c" and "fst (declared v) = Gauge"
    and "\<forall>c \<in> set calls. call_vec c = v \<and> call_labels c = ls \<longrightarrow> c = SetTo v ls x"
  shows "val (fold exec calls s) v ls = (if SetTo v ls x \<in> set calls then x else val s v ls)"
  using assms(2,4)
proof (induction calls arbitrary: s)
  case (Cons c calls)
  have "well_labelled c" "fst (declared v) \<noteq> Histogram" using Cons.prems assms(3) by simp_all
  note law = prometheus_law [OF assms(1) this, of s ls]
  have "val (exec c s) v ls = (if c = SetTo v ls x then x else val s v ls)"
    unfolding law using \<open>well_labelled c\<close> assms(3) Cons.prems(2) by (cases c) (auto simp: well_labelled_def)
  moreover have "val (fold exec calls (exec c s)) v ls = (if SetTo v ls x \<in> set calls then x else val (exec c s) v ls)"
    by (rule Cons.IH) (use Cons.prems in simp_all)
  ultimately show ?case by (cases "c = SetTo v ls x") auto
qed simp

text \<open>An instance: the value is kept in a function.\<close>

definition prom_exec :: "prom_call \<Rightarrow> (prom_vec \<times> string list \<Rightarrow> rat) \<Rightarrow> prom_vec \<times> string list \<Rightarrow> rat" where
  "prom_exec c s =
     (case c of Inc v ls \<Rightarrow> s((v, ls) := s (v, ls) + 1) | SetTo v ls x \<Rightarrow> s((v, ls) := x) | Observe v ls x \<Rightarrow> s)"

lemma prom_exec_laws: "prometheus_laws prom_exec (\<lambda>s v ls. s (v, ls))"
  by (auto simp: prometheus_laws_def prom_exec_def split: prom_call.splits)

section \<open>Lock metrics\<close>

text \<open>Lockers in which every locker that is not a nested one has its metrics, as the engine builds them.\<close>

primrec plain_locker :: "rule_locker \<Rightarrow> bool" where
  "plain_locker (ToggleLockerAdapter a) = True"
| "plain_locker (CoolOffLocker a d) = True"
| "plain_locker (V3Locker c t) = True"
| "plain_locker (NestedLocker own nested) = False"
| "plain_locker (MetricLocker lk n) = False"

primrec metered :: "rule_locker \<Rightarrow> bool" where
  "metered (ToggleLockerAdapter a) = False"
| "metered (CoolOffLocker a d) = False"
| "metered (V3Locker c t) = False"
| "metered (NestedLocker own nested) = (metered own \<and> metered nested)"
| "metered (MetricLocker lk n) = plain_locker lk"

text \<open>The lockers without their metrics, in the order in which they are tried.\<close>

primrec plain_lockers :: "rule_locker \<Rightarrow> rule_locker list" where
  "plain_lockers (ToggleLockerAdapter a) = [ToggleLockerAdapter a]"
| "plain_lockers (CoolOffLocker a d) = [CoolOffLocker a d]"
| "plain_lockers (V3Locker c t) = [V3Locker c t]"
| "plain_lockers (NestedLocker own nested) = plain_lockers own @ plain_lockers nested"
| "plain_lockers (MetricLocker lk n) = plain_lockers lk"

text \<open>The label under which the metrics of a locker of each kind belong.\<close>

primrec locker_label :: "rule_locker \<Rightarrow> string" where
  "locker_label (ToggleLockerAdapter a) = ''map''"
| "locker_label (CoolOffLocker a d) = ''cooloff''"
| "locker_label (V3Locker c t) = ''etcd''"
| "locker_label (NestedLocker own nested) = ''nested''"
| "locker_label (MetricLocker lk n) = ''metrics''"

primrec labelled :: "rule_locker \<Rightarrow> bool" where
  "labelled (ToggleLockerAdapter a) = True"
| "labelled (CoolOffLocker a d) = True"
| "labelled (V3Locker c t) = True"
| "labelled (NestedLocker own nested) = (labelled own \<and> labelled nested)"
| "labelled (MetricLocker lk n) = (n = locker_label lk)"

text \<open>
  Lockers tried one after the other: each with its answer, up to the first that refuses. This is the
  meaning the metrics are compared with; it knows neither nested nor metric lockers.
\<close>

primrec lock_attempts ::
  "'e etcd_api \<Rightarrow> string \<Rightarrow> lock_option list \<Rightarrow> rule_locker list \<Rightarrow> 'e lock_state \<Rightarrow> (rule_locker \<times> bool) list" where
  "lock_attempts api key opts [] st = []"
| "lock_attempts api key opts (lk # lks) st =
     (case Lock api lk key opts st of
        (Inl err, st1) \<Rightarrow> [(lk, False)]
      | (Inr l, st1) \<Rightarrow> (lk, True) # lock_attempts api key opts lks st1)"

lemma plain_Lock_events: "plain_locker lk \<Longrightarrow> ls_events (snd (Lock api lk key opts st)) = ls_events st"
  by (cases lk) (auto simp: toggle_Lock_def toggle_def coolOff_Lock_def lockWithTimeout_def Let_def
      split: prod.splits sum.splits option.splits)

text \<open>The lockers do not look at the events.\<close>

lemma plain_Lock_frame:
  "plain_locker lk \<Longrightarrow> Lock api lk key opts (st\<lparr>ls_events := e\<rparr>) =
     (fst (Lock api lk key opts st), (snd (Lock api lk key opts st))\<lparr>ls_events := e\<rparr>)"
  by (cases lk) (auto simp: toggle_Lock_def toggle_def coolOff_Lock_def lockWithTimeout_def Let_def
      split: prod.splits sum.splits option.splits)

lemma lock_attempts_frame:
  "list_all plain_locker lks \<Longrightarrow> lock_attempts api key opts lks (st\<lparr>ls_events := e\<rparr>) = lock_attempts api key opts lks st"
proof (induction lks arbitrary: st)
  case (Cons lk lks)
  then show ?case
    by (cases "Lock api lk key opts st") (auto simp: plain_Lock_frame split: sum.split)
qed simp

lemma metered_plain: "metered lk \<Longrightarrow> list_all plain_locker (plain_lockers lk)"
proof (induction lk)
  case (MetricLocker lk n)
  then show ?case by (cases lk) simp_all
qed simp_all

text \<open>The events of a call of the composed locker are the attempts, each under the label of its locker.\<close>

definition observed :: "lock_options \<Rightarrow> rule_locker \<times> bool \<Rightarrow> lock_event" where
  "observed os attempt = ObserveLock (locker_label (fst attempt)) (lo_method os) (lo_pattern os) (snd attempt)"

lemma Lock_attempts:
  assumes "metered lk" and "labelled lk" and "Lock api lk key opts st = (r, st')" and "list_all plain_locker rest"
  shows "ls_events st' = ls_events st @ map (observed (buildOptions opts)) (lock_attempts api key opts (plain_lockers lk) st) \<and>
    lock_attempts api key opts (plain_lockers lk @ rest) st =
      lock_attempts api key opts (plain_lockers lk) st @ (if isl r then [] else lock_attempts api key opts rest st') \<and>
    (isl r \<longleftrightarrow> (\<exists>l. (l, False) \<in> set (lock_attempts api key opts (plain_lockers lk) st)))"
  using assms
proof (induction lk arbitrary: st r st' rest)
  case (NestedLocker own nested)
  obtain r1 st1 where own: "Lock api own key opts st = (r1, st1)" by fastforce
  have pl: "list_all plain_locker (plain_lockers nested @ rest)" "list_all plain_locker (plain_lockers nested)"
    using NestedLocker.prems(1,4) metered_plain by simp_all
  note IH1 = NestedLocker.IH(1) [OF _ _ own] and IH2 = NestedLocker.IH(2)
  have one: "ls_events st1 = ls_events st @ map (observed (buildOptions opts)) (lock_attempts api key opts (plain_lockers own) st)"
    "lock_attempts api key opts (plain_lockers own @ plain_lockers nested @ rest) st =
      lock_attempts api key opts (plain_lockers own) st @ (if isl r1 then [] else lock_attempts api key opts (plain_lockers nested @ rest) st1)"
    "lock_attempts api key opts (plain_lockers own @ plain_lockers nested) st =
      lock_attempts api key opts (plain_lockers own) st @ (if isl r1 then [] else lock_attempts api key opts (plain_lockers nested) st1)"
    "isl r1 \<longleftrightarrow> (\<exists>l. (l, False) \<in> set (lock_attempts api key opts (plain_lockers own) st))"
    using IH1 [OF _ _ pl(1)] IH1 [OF _ _ pl(2)] NestedLocker.prems(1,2) by simp_all
  show ?case
  proof (cases r1)
    case (Inl err)
    then have "r = Inl err" "st' = st1" using NestedLocker.prems(3) own by simp_all
    then show ?thesis using one Inl by simp
  next
    case (Inr l)
    obtain r2 st2 where nst: "Lock api nested key opts st1 = (r2, st2)" by fastforce
    note two = IH2 [OF _ _ nst NestedLocker.prems(4)]
    have quiet: "ls_events (snd (Unlock api l [] st2)) = ls_events st2"
      by (rule Unlock_unmetered) (use Lock_unmetered own Inr in blast)
    have "ls_events st' = ls_events st2" "isl r = isl r2" "\<not> isl r2 \<Longrightarrow> st' = st2"
      using NestedLocker.prems(3) own nst Inr quiet by (auto split: sum.splits prod.splits)
    then show ?thesis using one two NestedLocker.prems(1,2) Inr by auto
  qed
next
  case (MetricLocker lk n)
  obtain r1 st1 where one: "Lock api lk key opts st = (r1, st1)" by fastforce
  have lk: "plain_locker lk" "n = locker_label lk" using MetricLocker.prems(1,2) by simp_all
  then have ev: "ls_events st1 = ls_events st" using plain_Lock_events [OF lk(1), of api key opts st] one by simp
  have single: "plain_lockers lk = [lk]" using lk(1) by (cases lk) simp_all
  have r: "r = r1" "st' = st1\<lparr>ls_events := ls_events st1 @
      [ObserveLock n (lo_method (buildOptions opts)) (lo_pattern (buildOptions opts)) (\<not> isl r1)]\<rparr>"
    using MetricLocker.prems(3) one by (auto simp: Let_def)
  have frame: "lock_attempts api key opts rest st' = lock_attempts api key opts rest st1"
    unfolding r(2) by (rule lock_attempts_frame [OF MetricLocker.prems(4)])
  show ?case
    unfolding plain_lockers.simps single frame using one lk(2) ev r by (cases r1) (simp_all add: observed_def)
qed simp_all

lemma engine_locker_metered: "metered (engine_locker dont useTry coolOff a b)"
  by (simp add: engine_locker_def Let_def)

lemma engine_locker_labelled: "labelled (engine_locker dont useTry coolOff a b)"
  by (simp add: engine_locker_def Let_def)

lemma engine_locker_plain:
  "plain_lockers (engine_locker dont useTry coolOff a b) =
     (if coolOff = 0 then [] else [CoolOffLocker b coolOff]) @ (if dont then [] else [ToggleLockerAdapter a]) @
     [V3Locker dont useTry]"
  by (simp add: engine_locker_def Let_def)

lemma engine_Lock_attempts:
  assumes "Lock api (engine_locker dont useTry coolOff a b) key opts st = (r, st')" and "ls_events st' = ls_events st @ new"
  shows "new = map (observed (buildOptions opts)) (lock_attempts api key opts (plain_lockers (engine_locker dont useTry coolOff a b)) st)"
    and "isl r \<longleftrightarrow> (\<exists>l. (l, False) \<in> set (lock_attempts api key opts (plain_lockers (engine_locker dont useTry coolOff a b)) st))"
  using Lock_attempts [OF engine_locker_metered engine_locker_labelled assms(1), of "[]"] assms(2) by simp_all

section \<open>The sampler\<close>

lemma sampler_warnings_hours:
  "successively (\<noteq>) (sampler_warnings capacity lastNotified rounds) \<and>
     (sampler_warnings capacity lastNotified rounds \<noteq> [] \<longrightarrow> hd (sampler_warnings capacity lastNotified rounds) \<noteq> lastNotified)"
proof (induction rounds arbitrary: lastNotified)
  case (Cons r rs)
  obtain hour queued where r: "r = (hour, queued)" by fastforce
  show ?case
    using Cons.IH [of hour] Cons.IH [of lastNotified]
    by (auto simp: r bufferCapacitySampler_def Let_def successively_Cons)
qed simp

section \<open>Properties\<close>

lemma observed_count:
  "count_list (map (lock_calls \<circ> observed os) xs) (Inc rulesEngineLockCount [n, lo_method os, lo_pattern os, FormatBool ok]) =
     count_list (map (\<lambda>(l, b). (locker_label l, b)) xs) (n, ok)"
  by (induction xs) (auto simp: observed_def prom_defs FormatBool_def split: if_splits)

text \<open>An etcd client whose calls succeed, and an empty lock state, for concrete instances.\<close>

definition calm_api :: "unit etcd_api" where
  "calm_api = \<lparr>newSession = \<lambda>e. (Inr 0, e), mutex_Lock = \<lambda>s k e. (None, e), mutex_TryLock = \<lambda>s k e. (None, e),
     mutex_Unlock = \<lambda>s k e. (None, e), session_Close = \<lambda>s e. (None, e)\<rparr>"

definition no_locks :: "unit lock_state" where
  "no_locks = \<lparr>ls_maps = \<lambda>_. [], ls_cooloff = \<lambda>_. [], ls_now = 0, ls_etcd = (), ls_events = []\<rparr>"

lemma calm_lock:
  "\<exists>l. Lock calm_api (engine_locker False False 0 0 1) ''/k'' [MethodForLock ''worker_lock''] no_locks =
     (Inr l, no_locks\<lparr>ls_maps := (\<lambda>_. [])(0 := gm_put [] ''/k'' True),
       ls_events := [ObserveLock ''map'' ''worker_lock'' ''unknown'' True, ObserveLock ''etcd'' ''worker_lock'' ''unknown'' True]\<rparr>)"
  by (simp add: engine_locker_def Let_def calm_api_def no_locks_def toggle_Lock_def toggle_def lockWithTimeout_def
      buildOptions_def MethodForLock_def gm_get_def)

definition taken_lock :: "unit lock_state" where
  "taken_lock = no_locks\<lparr>ls_maps := (\<lambda>_. [])(0 := gm_put [] ''/k'' True)\<rparr>"

text \<open>
  C15. The lock metrics of the engine tell the truth. Its locker tries the cool-off locker if there is
  one, then the map locker unless sessions are not shared, then etcd, and stops at the first that
  refuses; the caller gets the lock unless one refuses. For each label, the counter of successes rises by
  one exactly when the locker of that kind was tried and granted the lock, and the counter of failures by
  one exactly when that locker refused; no counter of another label changes.
\<close>

theorem lock_metrics_exact:
  assumes "prometheus_laws exec val"
    and "Lock api (engine_locker dontUseSharedLockSession useTryLock lockCoolOff a b) key opts st = (r, st')"
    and "ls_events st' = ls_events st @ new" and "s' = fold exec (map lock_calls new) s" and "os = buildOptions opts"
    and "tries = lock_attempts api key opts ((if lockCoolOff = 0 then [] else [CoolOffLocker b lockCoolOff]) @
      (if dontUseSharedLockSession then [] else [ToggleLockerAdapter a]) @ [V3Locker dontUseSharedLockSession useTryLock]) st"
  shows "(isl r \<longleftrightarrow> (\<exists>l. (l, False) \<in> set tries)) \<and>
    (\<forall>ok. val s' rulesEngineLockCount [''cooloff'', lo_method os, lo_pattern os, FormatBool ok] =
        val s rulesEngineLockCount [''cooloff'', lo_method os, lo_pattern os, FormatBool ok] +
        (if (CoolOffLocker b lockCoolOff, ok) \<in> set tries then 1 else 0)) \<and>
    (\<forall>ok. val s' rulesEngineLockCount [''map'', lo_method os, lo_pattern os, FormatBool ok] =
        val s rulesEngineLockCount [''map'', lo_method os, lo_pattern os, FormatBool ok] +
        (if (ToggleLockerAdapter a, ok) \<in> set tries then 1 else 0)) \<and>
    (\<forall>ok. val s' rulesEngineLockCount [''etcd'', lo_method os, lo_pattern os, FormatBool ok] =
        val s rulesEngineLockCount [''etcd'', lo_method os, lo_pattern os, FormatBool ok] +
        (if (V3Locker dontUseSharedLockSession useTryLock, ok) \<in> set tries then 1 else 0)) \<and>
    (\<forall>n ok. n \<notin> {''cooloff'', ''map'', ''etcd''} \<longrightarrow>
      val s' rulesEngineLockCount [n, lo_method os, lo_pattern os, FormatBool ok] =
      val s rulesEngineLockCount [n, lo_method os, lo_pattern os, FormatBool ok])"
proof -
  have new: "new = map (observed os) tries" and r: "isl r \<longleftrightarrow> (\<exists>l. (l, False) \<in> set tries)"
    using engine_Lock_attempts [OF assms(2,3)] unfolding engine_locker_plain assms(5,6) by simp_all
  have wl: "\<forall>c \<in> set (map lock_calls new). well_labelled c" by (auto simp: new observed_def)
  have v: "val s' rulesEngineLockCount [n, lo_method os, lo_pattern os, FormatBool ok] =
      val s rulesEngineLockCount [n, lo_method os, lo_pattern os, FormatBool ok] +
      of_nat (count_list (map (\<lambda>(l, b). (locker_label l, b)) tries) (n, ok))" for n ok
    using counter_counts [OF assms(1) wl, of rulesEngineLockCount s "[n, lo_method os, lo_pattern os, FormatBool ok]"]
    unfolding assms(4) new by (simp add: observed_count)
  show ?thesis
    unfolding v using r unfolding assms(6)
    by (cases "lockCoolOff = 0"; cases dontUseSharedLockSession) (auto split: prod.splits sum.splits)
qed

theorem lock_metrics_exact_witness:
  "\<exists>err st'. Lock calm_api (engine_locker False False 0 0 1) ''/k'' [MethodForLock ''worker_lock''] taken_lock = (Inl err, st') \<and>
     fold prom_exec (map lock_calls (ls_events st')) (\<lambda>_. 0)
       (rulesEngineLockCount, [''map'', ''worker_lock'', ''unknown'', ''false'']) = 1 \<and>
     fold prom_exec (map lock_calls (ls_events st')) (\<lambda>_. 0)
       (rulesEngineLockCount, [''etcd'', ''worker_lock'', ''unknown'', ''false'']) = 0"
proof -
  let ?opts = "[MethodForLock ''worker_lock'']"
  let ?e = "[ObserveLock ''map'' ''worker_lock'' ''unknown'' False]"
  have os: "lo_method (buildOptions ?opts) = ''worker_lock''" "lo_pattern (buildOptions ?opts) = ''unknown''"
    by (simp_all add: buildOptions_def MethodForLock_def)
  have l: "Lock calm_api (engine_locker False False 0 0 1) ''/k'' ?opts taken_lock =
      (Inl ErrLockedLocally, taken_lock\<lparr>ls_events := ?e\<rparr>)"
    by (simp add: engine_locker_def Let_def taken_lock_def no_locks_def toggle_Lock_def toggle_def gomap_simps os)
  have t: "[(ToggleLockerAdapter 0, False)] = lock_attempts calm_api ''/k'' ?opts
      ((if (0 :: int) = 0 then [] else [CoolOffLocker 1 0]) @ (if False then [] else [ToggleLockerAdapter 0]) @ [V3Locker False False])
      taken_lock"
    by (simp add: taken_lock_def no_locks_def toggle_Lock_def toggle_def gomap_simps)
  have ev: "ls_events (taken_lock\<lparr>ls_events := ?e\<rparr>) = ls_events taken_lock @ ?e" by (simp add: taken_lock_def no_locks_def)
  have f: "FormatBool False = ''false''" by (simp add: FormatBool_def)
  note exact = lock_metrics_exact [OF prom_exec_laws l ev refl refl t, of "\<lambda>_. 0", unfolded os]
  have "fold prom_exec (map lock_calls ?e) (\<lambda>_. 0) (rulesEngineLockCount, [''map'', ''worker_lock'', ''unknown'', ''false'']) = 1"
    "fold prom_exec (map lock_calls ?e) (\<lambda>_. 0) (rulesEngineLockCount, [''etcd'', ''worker_lock'', ''unknown'', ''false'']) = 0"
    using exact unfolding f [symmetric] by auto
  then show ?thesis using l by auto
qed

text \<open>
  C30. Every metrics call that the engine makes is accepted and exported: the calls of the locks, of
  the workers, the crawler, the watchers, the key workers (for items with a context provider) and the
  sampler name a registered collector,
  use the operation it has and pass as many label values as it declares, so none of them panics. The
  one collector that is not registered, the counter of unlock errors, is never called.
\<close>

theorem issued_metrics_exported:
  assumes "Lock api (engine_locker dont useTryLock lockCoolOff a b) key opts st = (r, st')" and "ls_events st' = ls_events st @ new"
  shows "(\<forall>c \<in> set (map lock_calls new) \<union> set (doWork_calls info queued took ruleID source run) \<union>
        set (crawl_calls name query eval outcome) \<union> set (watch_error_calls kw) \<union>
        {c. dispatch_call provider pattern waited = Ret c} \<union>
        {watcher_incRuleProcessedCount ruleID, WorkersCount workers, fst (bufferCapacitySampler capacity len hour last')}.
      call_vec c \<in> set registered_vecs \<and> call_kind c = fst (declared (call_vec c)) \<and>
      length (call_labels c) = length (snd (snd (declared (call_vec c))))) \<and>
    (\<forall>l opts' st2. r = Inr l \<longrightarrow> ls_events (snd (Unlock api l opts' st2)) = ls_events st2) \<and>
    rulesEngineUnlockErrorCount \<notin> set registered_vecs"
proof -
  have locks: "\<forall>c \<in> set (map lock_calls new). exported c"
    using engine_Lock_attempts(1) [OF assms] by (auto simp: observed_def)
  have others: "exported (watcher_incRuleProcessedCount ruleID)" "\<forall>c \<in> {c. dispatch_call provider pattern waited = Ret c}. exported c"
    "exported (WorkersCount workers)" "exported (fst (bufferCapacitySampler capacity len hour last'))"
    "\<forall>c \<in> set (watch_error_calls kw). exported c"
    by (auto simp: watcher_incRuleProcessedCount_def dispatch_call_def getMethodNameFromProvider_def go_simps bufferCapacitySampler_def Let_def watch_error_calls_def)
  have "\<forall>c \<in> set (map lock_calls new) \<union> set (doWork_calls info queued took ruleID source run) \<union>
      set (crawl_calls name query eval outcome) \<union> set (watch_error_calls kw) \<union>
      {c. dispatch_call provider pattern waited = Ret c} \<union>
      {watcher_incRuleProcessedCount ruleID, WorkersCount workers, fst (bufferCapacitySampler capacity len hour last')}. exported c"
    using locks others doWork_calls_exported crawl_calls_exported by blast
  moreover have "ls_events (snd (Unlock api l opts' st2)) = ls_events st2" if "r = Inr l" for l opts' st2
    using Unlock_unmetered Lock_unmetered assms(1) that by blast
  moreover have "rulesEngineUnlockErrorCount \<notin> set registered_vecs" by (simp add: registered_vecs_def)
  ultimately show ?thesis unfolding exported_def well_labelled_def by blast
qed

theorem issued_metrics_exported_witness:
  "\<exists>l st'. Lock calm_api (engine_locker False False 0 0 1) ''/k'' [MethodForLock ''worker_lock''] no_locks = (Inr l, st') \<and>
     (\<forall>c \<in> set (map lock_calls (ls_events st')). call_vec c \<in> set registered_vecs)"
proof -
  obtain l st' where l: "Lock calm_api (engine_locker False False 0 0 1) ''/k'' [MethodForLock ''worker_lock''] no_locks = (Inr l, st')"
    using calm_lock by blast
  have "ls_events st' = ls_events no_locks @ ls_events st'" by (simp add: no_locks_def)
  note all = issued_metrics_exported [OF l this, where info = "newMetricsInfo [] ''/k'' 0" and run = "([], (), Ret ())"
      and outcome = CrawlStopping and kw = "newEtcdV3KeyWatcher ''/''" and provider = "Some (\<lambda>_. ([], ()))"]
  have "\<forall>c \<in> set (map lock_calls (ls_events st')). call_vec c \<in> set registered_vecs"
    using conjunct1 [OF all] by blast
  then show ?thesis using l by blast
qed

text \<open>
  The evaluation gauge of the watchers does not count: after any number of evaluations of a rule
  for watched keys its value is one, whereas a crawl sets its gauge to the number of evaluations that
  were counted.
\<close>

theorem watcher_gauge_never_counts:
  assumes "prometheus_laws exec val"
  shows "val (fold exec (map watcher_incRuleProcessedCount ids) s) rulesEngineEvaluations [''watcher'', ruleID] =
    (if ruleID \<in> set ids then 1 else val s rulesEngineEvaluations [''watcher'', ruleID])"
proof -
  have "val (fold exec (map watcher_incRuleProcessedCount ids) s) rulesEngineEvaluations [''watcher'', ruleID] =
      (if SetTo rulesEngineEvaluations [''watcher'', ruleID] 1 \<in> set (map watcher_incRuleProcessedCount ids) then 1
       else val s rulesEngineEvaluations [''watcher'', ruleID])"
    by (rule gauge_keeps_last [OF assms]) (auto simp: watcher_incRuleProcessedCount_def TimesEvaluated_def well_labelled_def)
  then show ?thesis by (auto simp: watcher_incRuleProcessedCount_def TimesEvaluated_def)
qed

theorem watcher_gauge_never_counts_witness:
  "fold prom_exec (map watcher_incRuleProcessedCount [''r'', ''r'', ''r'']) (\<lambda>_. 0)
     (rulesEngineEvaluations, [''watcher'', ''r'']) = 1"
  using watcher_gauge_never_counts [OF prom_exec_laws, of "[''r'', ''r'', ''r'']" "\<lambda>_. 0" "''r''"] by simp

end
