(* ===== verification/Doubles.thy ===== *)
theory Doubles
  imports Metrics
begin

text \<open>
  The collector interface of the engine's users with its implementations (\<open>rules/metrics_collector.go\<close>,
  \<open>rules/mock_metrics_collector.go\<close>), and the other doubles that the repository offers to tests: mock
  lockers (\<open>rules/lock/mock.go\<close>) and the watcher wrapper that records what it passes on
  (\<open>rules/mock_wrap_watcher.go\<close>). The locale \<open>recording_collector\<close> says what a collector that
  records its calls promises; the mock collector keeps the arguments of a call in parallel lists and
  is shown to promise it.
\<close>

section \<open>Definitions\<close>

subsection \<open>Collectors\<close>

text \<open>
  A collector over a state of type \<open>'m\<close>; the advanced interface embeds the basic one. Start times are
  nanoseconds.
\<close>

record 'm MetricsCollector =
  mc_IncLockMetric :: "string \<Rightarrow> string \<Rightarrow> bool \<Rightarrow> 'm \<Rightarrow> 'm"
  mc_IncSatisfiedThenNot :: "string \<Rightarrow> string \<Rightarrow> string \<Rightarrow> 'm \<Rightarrow> 'm"
  mc_TimesEvaluated :: "string \<Rightarrow> string \<Rightarrow> int \<Rightarrow> 'm \<Rightarrow> 'm"
  mc_WorkerQueueWaitTime :: "string \<Rightarrow> int \<Rightarrow> 'm \<Rightarrow> 'm"

record 'm AdvancedMetricsCollector = "'m MetricsCollector" +
  mc_ObserveWatchEvents :: "string \<Rightarrow> int \<Rightarrow> int \<Rightarrow> 'm \<Rightarrow> 'm"

text \<open>The default collector does nothing.\<close>

definition newMetricsCollector :: "'m AdvancedMetricsCollector" where
  "newMetricsCollector =
     \<lparr>mc_IncLockMetric = \<lambda>methodName pattern lockSucceeded m. m,
      mc_IncSatisfiedThenNot = \<lambda>methodName pattern phaseName m. m,
      mc_TimesEvaluated = \<lambda>methodName ruleID n m. m,
      mc_WorkerQueueWaitTime = \<lambda>methodName startTime m. m,
      mc_ObserveWatchEvents = \<lambda>pfx events totalBytes m. m\<rparr>"

text \<open>The adaptor embeds a basic collector and ignores watch events.\<close>

definition advancedMetricsCollectorAdaptor :: "'m MetricsCollector \<Rightarrow> 'm AdvancedMetricsCollector" where
  "advancedMetricsCollectorAdaptor base =
     \<lparr>mc_IncLockMetric = mc_IncLockMetric base, mc_IncSatisfiedThenNot = mc_IncSatisfiedThenNot base,
      mc_TimesEvaluated = mc_TimesEvaluated base, mc_WorkerQueueWaitTime = mc_WorkerQueueWaitTime base,
      mc_ObserveWatchEvents = \<lambda>pfx events totalBytes m. m\<rparr>"

text \<open>\<open>newV3Engine\<close> uses an advanced collector as it is and adapts any other.\<close>

definition engine_collector :: "'m MetricsCollector + 'm AdvancedMetricsCollector \<Rightarrow> 'm AdvancedMetricsCollector" where
  "engine_collector baseMetrics =
     (case baseMetrics of Inr adv \<Rightarrow> adv | Inl base \<Rightarrow> advancedMetricsCollectorAdaptor base)"

subsection \<open>The mock collector\<close>

record MockMetricsCollector =
  IncLockMetricPattern :: "string list"
  IncLockMetricLockSuccess :: "bool list"
  IncLockMetricMethod :: "string list"
  IncSatisfiedThenNotPattern :: "string list"
  IncIncSatisfiedThenNotPhase :: "string list"
  IncIncSatisfiedThenNotMethod :: "string list"
  TimesEvaluatedRuleID :: "string list"
  TimesEvaluatedCount :: "int list"
  TimesEvaluatedMethod :: "string list"
  WorkerQueueWaitTimeTimes :: "int list"
  WorkerQueueWaitTimeMethod :: "string list"
  ObserveWatchEventsPrefixes :: "string list"
  ObserveWatchEventsEvents :: "int list"
  ObserveWatchEventsTotalBytes :: "int list"

definition NewMockMetricsCollector :: MockMetricsCollector where
  "NewMockMetricsCollector =
     \<lparr>IncLockMetricPattern = [], IncLockMetricLockSuccess = [], IncLockMetricMethod = [],
      IncSatisfiedThenNotPattern = [], IncIncSatisfiedThenNotPhase = [], IncIncSatisfiedThenNotMethod = [],
      TimesEvaluatedRuleID = [], TimesEvaluatedCount = [], TimesEvaluatedMethod = [],
      WorkerQueueWaitTimeTimes = [], WorkerQueueWaitTimeMethod = [],
      ObserveWatchEventsPrefixes = [], ObserveWatchEventsEvents = [], ObserveWatchEventsTotalBytes = []\<rparr>"

definition mock_IncLockMetric :: "string \<Rightarrow> string \<Rightarrow> bool \<Rightarrow> MockMetricsCollector \<Rightarrow> MockMetricsCollector" where
  "mock_IncLockMetric methodName pattern lockSucceeded m =
     m\<lparr>IncLockMetricMethod := IncLockMetricMethod m @ [methodName],
       IncLockMetricPattern := IncLockMetricPattern m @ [pattern],
       IncLockMetricLockSuccess := IncLockMetricLockSuccess m @ [lockSucceeded]\<rparr>"

definition mock_IncSatisfiedThenNot :: "string \<Rightarrow> string \<Rightarrow> string \<Rightarrow> MockMetricsCollector \<Rightarrow> MockMetricsCollector" where
  "mock_IncSatisfiedThenNot methodName pattern phaseName m =
     m\<lparr>IncIncSatisfiedThenNotMethod := IncIncSatisfiedThenNotMethod m @ [methodName],
       IncSatisfiedThenNotPattern := IncSatisfiedThenNotPattern m @ [pattern],
       IncIncSatisfiedThenNotPhase := IncIncSatisfiedThenNotPhase m @ [phaseName]\<rparr>"

definition mock_TimesEvaluated :: "string \<Rightarrow> string \<Rightarrow> int \<Rightarrow> MockMetricsCollector \<Rightarrow> MockMetricsCollector" where
  "mock_TimesEvaluated methodName ruleID n m =
     m\<lparr>TimesEvaluatedMethod := TimesEvaluatedMethod m @ [methodName],
       TimesEvaluatedRuleID := TimesEvaluatedRuleID m @ [ruleID],
       TimesEvaluatedCount := TimesEvaluatedCount m @ [n]\<rparr>"

definition mock_WorkerQueueWaitTime :: "string \<Rightarrow> int \<Rightarrow> MockMetricsCollector \<Rightarrow> MockMetricsCollector" where
  "mock_WorkerQueueWaitTime methodName startTime m =
     m\<lparr>WorkerQueueWaitTimeTimes := WorkerQueueWaitTimeTimes m @ [startTime],
       WorkerQueueWaitTimeMethod := WorkerQueueWaitTimeMethod m @ [methodName]\<rparr>"

definition mock_ObserveWatchEvents :: "string \<Rightarrow> int \<Rightarrow> int \<Rightarrow> MockMetricsCollector \<Rightarrow> MockMetricsCollector" where
  "mock_ObserveWatchEvents pfx events totalBytes m =
     m\<lparr>ObserveWatchEventsPrefixes := ObserveWatchEventsPrefixes m @ [pfx],
       ObserveWatchEventsEvents := ObserveWatchEventsEvents m @ [events],
       ObserveWatchEventsTotalBytes := ObserveWatchEventsTotalBytes m @ [totalBytes]\<rparr>"

definition mock_collector :: "MockMetricsCollector AdvancedMetricsCollector" where
  "mock_collector =
     \<lparr>mc_IncLockMetric = mock_IncLockMetric, mc_IncSatisfiedThenNot = mock_IncSatisfiedThenNot,
      mc_TimesEvaluated = mock_TimesEvaluated, mc_WorkerQueueWaitTime = mock_WorkerQueueWaitTime,
      mc_ObserveWatchEvents = mock_ObserveWatchEvents\<rparr>"

lemmas mock_defs = mock_IncLockMetric_def mock_IncSatisfiedThenNot_def mock_TimesEvaluated_def
  mock_WorkerQueueWaitTime_def mock_ObserveWatchEvents_def mock_collector_def

subsection \<open>Mock lockers\<close>

text \<open>A \<open>MockLocker\<close> refuses with its message or gives a lock; its channel is the list of what was sent.\<close>

record MockLocker =
  tlkr_ErrorMsg :: "string option"
  tlkr_Channel :: "bool list"

definition MockLocker_Lock :: "string \<Rightarrow> MockLocker \<Rightarrow> string + unit" where
  "MockLocker_Lock key tlkr = (case tlkr_ErrorMsg tlkr of Some msg \<Rightarrow> Inl msg | None \<Rightarrow> Inr ())"

definition mockLock_Unlock :: "MockLocker \<Rightarrow> string option \<times> MockLocker" where
  "mockLock_Unlock tlkr = (None, tlkr\<lparr>tlkr_Channel := tlkr_Channel tlkr @ [True]\<rparr>)"

definition FuncMockLocker_Lock :: "(string \<Rightarrow> 'o list \<Rightarrow> 'r) \<Rightarrow> string \<Rightarrow> 'o list \<Rightarrow> 'r" where
  "FuncMockLocker_Lock LockF key options = LockF key options"

definition FuncMockLock_Unlock :: "('o list \<Rightarrow> 'r) \<Rightarrow> 'o list \<Rightarrow> 'r" where
  "FuncMockLock_Unlock UnlockF options = UnlockF options"

subsection \<open>The recording watcher\<close>

text \<open>
  The goroutine of \<open>Watch\<close>: the responses that the wrapped channel delivers, then the zero value
  \<open>zero\<close> at every further receive when it is closed. A number of iterations gives what is recorded
  and what is passed on. \<open>WrapWatcher\<close> keeps one watcher, the last one that was wrapped.
\<close>

record ('r, 'w) MockWatcherWrapper =
  mww_Responses :: "'r list"
  mww_KvWatcher :: 'w

primrec mww_Watch :: "'r \<Rightarrow> nat \<Rightarrow> 'r list \<Rightarrow> ('r, 'w) MockWatcherWrapper \<Rightarrow> 'r list \<times> ('r, 'w) MockWatcherWrapper" where
  "mww_Watch zero 0 watcherChan ww = ([], ww)"
| "mww_Watch zero (Suc n) watcherChan ww =
     (let watcherResp = (case watcherChan of r # rs \<Rightarrow> r | [] \<Rightarrow> zero);
          ww1 = ww\<lparr>mww_Responses := mww_Responses ww @ [watcherResp]\<rparr>
      in case mww_Watch zero n (tl watcherChan) ww1 of (c, ww2) \<Rightarrow> (watcherResp # c, ww2))"

definition WrapWatcher :: "'w \<Rightarrow> ('r, 'w) MockWatcherWrapper \<Rightarrow> ('r, 'w) MockWatcherWrapper" where
  "WrapWatcher kvw mww = mww\<lparr>mww_KvWatcher := kvw\<rparr>"

definition mww_delegate :: "('w \<Rightarrow> 'r2) \<Rightarrow> ('r, 'w) MockWatcherWrapper \<Rightarrow> 'r2" where
  "mww_delegate f ww = f (mww_KvWatcher ww)"

section \<open>Collectors that record\<close>

text \<open>The calls of the interface.\<close>

datatype collector_call =
    CallLock string string bool
  | CallSatisfied string string string
  | CallTimes string string int
  | CallWait string int
  | CallWatch string int int

primrec perform :: "'m AdvancedMetricsCollector \<Rightarrow> collector_call \<Rightarrow> 'm \<Rightarrow> 'm" where
  "perform c (CallLock meth p b) = mc_IncLockMetric c meth p b"
| "perform c (CallSatisfied meth p ph) = mc_IncSatisfiedThenNot c meth p ph"
| "perform c (CallTimes meth ruleID n) = mc_TimesEvaluated c meth ruleID n"
| "perform c (CallWait meth t) = mc_WorkerQueueWaitTime c meth t"
| "perform c (CallWatch pfx n b) = mc_ObserveWatchEvents c pfx n b"

datatype call_class = ClassLock | ClassSatisfied | ClassTimes | ClassWait | ClassWatch

primrec class_of :: "collector_call \<Rightarrow> call_class" where
  "class_of (CallLock meth p b) = ClassLock"
| "class_of (CallSatisfied meth p ph) = ClassSatisfied"
| "class_of (CallTimes meth ruleID n) = ClassTimes"
| "class_of (CallWait meth t) = ClassWait"
| "class_of (CallWatch pfx n b) = ClassWatch"

text \<open>
  A collector that records: for each kind of call the list of the calls in their order, as long as its
  state is consistent, and every call keeps it so.
\<close>

locale recording_collector =
  fixes c :: "'m AdvancedMetricsCollector" and consistent :: "'m \<Rightarrow> bool"
    and recorded :: "call_class \<Rightarrow> 'm \<Rightarrow> collector_call list"
  assumes keeps: "consistent m \<Longrightarrow> consistent (perform c x m)"
    and records: "consistent m \<Longrightarrow>
      recorded k (perform c x m) = recorded k m @ (if class_of x = k then [x] else [])"
begin

lemma recorded_all:
  "consistent m \<Longrightarrow> consistent (fold (perform c) xs m) \<and>
     recorded k (fold (perform c) xs m) = recorded k m @ filter (\<lambda>x. class_of x = k) xs"
proof (induction xs arbitrary: m)
  case (Cons x xs)
  then show ?case using keeps [of m x] records [of m k x] by simp
qed simp

end

text \<open>The mock collector: the lists of one kind of call are equally long.\<close>

definition mock_consistent :: "MockMetricsCollector \<Rightarrow> bool" where
  "mock_consistent m \<longleftrightarrow>
     length (IncLockMetricPattern m) = length (IncLockMetricMethod m) \<and>
     length (IncLockMetricLockSuccess m) = length (IncLockMetricMethod m) \<and>
     length (IncSatisfiedThenNotPattern m) = length (IncIncSatisfiedThenNotMethod m) \<and>
     length (IncIncSatisfiedThenNotPhase m) = length (IncIncSatisfiedThenNotMethod m) \<and>
     length (TimesEvaluatedRuleID m) = length (TimesEvaluatedMethod m) \<and>
     length (TimesEvaluatedCount m) = length (TimesEvaluatedMethod m) \<and>
     length (WorkerQueueWaitTimeTimes m) = length (WorkerQueueWaitTimeMethod m) \<and>
     length (ObserveWatchEventsEvents m) = length (ObserveWatchEventsPrefixes m) \<and>
     length (ObserveWatchEventsTotalBytes m) = length (ObserveWatchEventsPrefixes m)"

primrec mock_recorded :: "call_class \<Rightarrow> MockMetricsCollector \<Rightarrow> collector_call list" where
  "mock_recorded ClassLock m =
     map (\<lambda>(meth, p, b). CallLock meth p b) (zip (IncLockMetricMethod m) (zip (IncLockMetricPattern m) (IncLockMetricLockSuccess m)))"
| "mock_recorded ClassSatisfied m =
     map (\<lambda>(meth, p, ph). CallSatisfied meth p ph)
       (zip (IncIncSatisfiedThenNotMethod m) (zip (IncSatisfiedThenNotPattern m) (IncIncSatisfiedThenNotPhase m)))"
| "mock_recorded ClassTimes m =
     map (\<lambda>(meth, ruleID, n). CallTimes meth ruleID n)
       (zip (TimesEvaluatedMethod m) (zip (TimesEvaluatedRuleID m) (TimesEvaluatedCount m)))"
| "mock_recorded ClassWait m =
     map (\<lambda>(meth, t). CallWait meth t) (zip (WorkerQueueWaitTimeMethod m) (WorkerQueueWaitTimeTimes m))"
| "mock_recorded ClassWatch m =
     map (\<lambda>(pfx, n, b). CallWatch pfx n b)
       (zip (ObserveWatchEventsPrefixes m) (zip (ObserveWatchEventsEvents m) (ObserveWatchEventsTotalBytes m)))"

interpretation mock: recording_collector mock_collector mock_consistent mock_recorded
proof
  fix m x k
  assume ok: "mock_consistent m"
  show "mock_consistent (perform mock_collector x m)"
    using ok by (cases x) (simp_all add: mock_defs mock_consistent_def)
  show "mock_recorded k (perform mock_collector x m) = mock_recorded k m @ (if class_of x = k then [x] else [])"
    using ok by (cases x; cases k) (simp_all add: mock_defs mock_consistent_def)
qed

lemma mock_new_consistent: "mock_consistent NewMockMetricsCollector" "mock_recorded k NewMockMetricsCollector = []"
  by (simp add: mock_consistent_def NewMockMetricsCollector_def) (cases k; simp add: NewMockMetricsCollector_def)

lemma mww_Watch_forwards:
  "mww_Watch zero n watcherChan ww = (c, ww') \<Longrightarrow>
     c = take n watcherChan @ replicate (n - length watcherChan) zero \<and> mww_Responses ww' = mww_Responses ww @ c"
proof (induction n arbitrary: watcherChan ww c ww')
  case (Suc n)
  then show ?case by (cases watcherChan) (fastforce simp: Let_def split: prod.splits)+
qed simp

section \<open>Properties\<close>

text \<open>
  The mock collector loses nothing: after any sequence of calls its parallel lists are equally long
  and give, for each kind of call, precisely the calls of that kind with all their arguments and in
  their order.
\<close>

theorem mock_collector_records:
  "mock_consistent (fold (perform mock_collector) calls NewMockMetricsCollector) \<and>
   mock_recorded k (fold (perform mock_collector) calls NewMockMetricsCollector) = filter (\<lambda>x. class_of x = k) calls"
  using mock.recorded_all [OF mock_new_consistent(1), of calls k] by (simp add: mock_new_consistent(2))

text \<open>The adaptor passes on the calls of the basic interface and swallows watch events.\<close>

lemma adaptor_performs:
  "perform (engine_collector (Inl base)) x m =
     (case x of
        CallLock meth p b \<Rightarrow> mc_IncLockMetric base meth p b m
      | CallSatisfied meth p ph \<Rightarrow> mc_IncSatisfiedThenNot base meth p ph m
      | CallTimes meth ruleID n \<Rightarrow> mc_TimesEvaluated base meth ruleID n m
      | CallWait meth t \<Rightarrow> mc_WorkerQueueWaitTime base meth t m
      | CallWatch pfx n b \<Rightarrow> m)"
  by (cases x) (simp_all add: engine_collector_def advancedMetricsCollectorAdaptor_def)

lemma default_collector_idle: "fold (perform newMetricsCollector) calls m = m"
proof (induction calls)
  case (Cons x calls)
  then show ?case by (cases x) (simp_all add: newMetricsCollector_def)
qed simp

end
