(* ===== verification/Attributes.thy ===== *)
theory Attributes
  imports Worker
begin

text \<open>
  The interface \<open>extendedAttributes\<close> (\<open>rules/task.go\<close>) and its three implementers, method by method
  as the code has them: \<open>regexKeyMatch\<close> and \<open>mapAttributes\<close> (\<open>rules/matcher.go\<close>) and
  \<open>nestingAttributes\<close> (\<open>rules/dynamic_rule.go\<close>). The datatype of theory Matcher dispatches to them.
  The locale \<open>extended_attributes\<close> states what callers rely on; \<open>nesting_attributes\<close> shows that fixed
  attributes in front of other ones keep it.
\<close>

section \<open>Definitions\<close>

text \<open>\<open>FindAttribute\<close> returns a string and whether it was found; the string is empty when it was not.\<close>

definition found_pair :: "string option \<Rightarrow> string \<times> bool" where
  "found_pair p = (case p of Some v \<Rightarrow> (v, True) | None \<Rightarrow> ([], False))"

subsection \<open>A match of a regular expression\<close>

definition regexKeyMatch_GetAttribute :: "string list \<Rightarrow> (string, nat) gomap \<Rightarrow> string \<Rightarrow> string option go" where
  "regexKeyMatch_GetAttribute strs fieldMap name =
     (case gm_get fieldMap name of
        None \<Rightarrow> Ret None
      | Some index \<Rightarrow> go_bind (go_index strs index) (\<lambda>result. Ret (Some result)))"

definition regexKeyMatch_FindAttribute :: "string list \<Rightarrow> (string, nat) gomap \<Rightarrow> string \<Rightarrow> (string \<times> bool) go" where
  "regexKeyMatch_FindAttribute strs fieldMap name =
     (case gm_get fieldMap name of
        None \<Rightarrow> Ret ([], False)
      | Some index \<Rightarrow> go_bind (go_index strs index) (\<lambda>result. Ret (result, True)))"

definition regexKeyMatch_names :: "string range_order \<Rightarrow> (string, nat) gomap \<Rightarrow> string list" where
  "regexKeyMatch_names ord fieldMap = range_in ord (gm_keys fieldMap)"

definition regexKeyMatch_Format :: "string list \<Rightarrow> (string, nat) gomap \<Rightarrow> string \<Rightarrow> string go" where
  "regexKeyMatch_Format strs fieldMap pattern = FormatWithAttributes pattern (RegexKeyMatch strs fieldMap)"

definition getPattern :: "regexKeyMatcher \<Rightarrow> string" where
  "getPattern rkm = rkm_pattern rkm"

subsection \<open>A map\<close>

definition NewAttributes :: "(string, string) gomap \<Rightarrow> attributes" where
  "NewAttributes kvs = MapAttributes kvs"

definition mapAttributes_GetAttribute :: "(string, string) gomap \<Rightarrow> string \<Rightarrow> string option go" where
  "mapAttributes_GetAttribute kvs key = (case gm_get kvs key of None \<Rightarrow> Ret None | Some v \<Rightarrow> Ret (Some v))"

definition mapAttributes_FindAttribute :: "(string, string) gomap \<Rightarrow> string \<Rightarrow> (string \<times> bool) go" where
  "mapAttributes_FindAttribute kvs key = (case gm_get kvs key of None \<Rightarrow> Ret ([], False) | Some v \<Rightarrow> Ret (v, True))"

definition mapAttributes_Format :: "(string, string) gomap \<Rightarrow> string \<Rightarrow> string go" where
  "mapAttributes_Format kvs path = FormatWithAttributes path (NewAttributes kvs)"

definition mapAttributes_names :: "string range_order \<Rightarrow> (string, string) gomap \<Rightarrow> string list" where
  "mapAttributes_names ord kvs = range_in ord (gm_keys kvs)"

subsection \<open>Fixed attributes in front of others\<close>

definition nestingAttributes_names :: "attributeInstance list \<Rightarrow> string list \<Rightarrow> string list" where
  "nestingAttributes_names attrs nestedNames = map attr_key attrs @ nestedNames"

primrec nestingAttributes_GetAttribute ::
  "attributeInstance list \<Rightarrow> (string \<Rightarrow> string option go) \<Rightarrow> string \<Rightarrow> string option go" where
  "nestingAttributes_GetAttribute [] nestedGet key = nestedGet key"
| "nestingAttributes_GetAttribute (attribute # attrs) nestedGet key =
     (if attr_key attribute = key then Ret (Some (attr_value attribute))
      else nestingAttributes_GetAttribute attrs nestedGet key)"

primrec nestingAttributes_FindAttribute ::
  "attributeInstance list \<Rightarrow> (string \<Rightarrow> (string \<times> bool) go) \<Rightarrow> string \<Rightarrow> (string \<times> bool) go" where
  "nestingAttributes_FindAttribute [] nestedFind key = nestedFind key"
| "nestingAttributes_FindAttribute (attribute # attrs) nestedFind key =
     (if attr_key attribute = key then Ret (attr_value attribute, True)
      else nestingAttributes_FindAttribute attrs nestedFind key)"

definition nestingAttributes_Format :: "attributes \<Rightarrow> attributeInstance list \<Rightarrow> string \<Rightarrow> string go" where
  "nestingAttributes_Format nested attrs pattern = FormatWithAttributes pattern (NestingAttributes nested attrs)"

section \<open>The interface\<close>

text \<open>
  What callers rely on: nothing panics, the two readers agree, and the names are those that are found.
\<close>

locale extended_attributes =
  fixes get :: "string \<Rightarrow> string option go" and find :: "string \<Rightarrow> (string \<times> bool) go" and nms :: "string list"
  assumes get_returns: "\<exists>r. get k = Ret r"
    and find_get: "find k = go_bind (get k) (\<lambda>r. Ret (found_pair r))"
    and names_get: "k \<in> set nms \<longleftrightarrow> (\<exists>v. get k = Ret (Some v))"
begin

text \<open>The loop of \<open>doWork\<close> that copies the attributes dereferences no nil.\<close>

lemma copy_returns:
  "\<exists>m. go_collect (map (\<lambda>n. go_bind (get n) (\<lambda>p. case p of Some v \<Rightarrow> Ret (n, v) | None \<Rightarrow> Panic)) nms) = Ret m \<and>
     map fst m = nms"
proof -
  have "\<exists>m. go_collect (map (\<lambda>n. go_bind (get n) (\<lambda>p. case p of Some v \<Rightarrow> Ret (n, v) | None \<Rightarrow> Panic)) xs) = Ret m \<and>
      map fst m = xs" if "set xs \<subseteq> set nms" for xs
    using that
  proof (induction xs)
    case (Cons x xs)
    obtain v where "get x = Ret (Some v)" using names_get Cons.prems by auto
    then show ?case using Cons by auto
  qed simp
  then show ?thesis by simp
qed

lemma find_returns: "find k = Ret (v, ok) \<Longrightarrow> ok \<longleftrightarrow> k \<in> set nms"
  using get_returns [of k] names_get [of k] by (auto simp: find_get found_pair_def split: option.splits)

end

locale nesting_attributes = extended_attributes get find nms
  for get :: "string \<Rightarrow> string option go" and find :: "string \<Rightarrow> (string \<times> bool) go" and nms :: "string list" +
  fixes attrs :: "attributeInstance list"

sublocale nesting_attributes \<subseteq> own: extended_attributes "nestingAttributes_GetAttribute attrs get"
  "nestingAttributes_FindAttribute attrs find" "nestingAttributes_names attrs nms"
proof
  fix k
  show "\<exists>r. nestingAttributes_GetAttribute attrs get k = Ret r"
    using get_returns by (induction attrs) auto
  show "nestingAttributes_FindAttribute attrs find k =
      go_bind (nestingAttributes_GetAttribute attrs get k) (\<lambda>r. Ret (found_pair r))"
    using find_get by (induction attrs) (auto simp: found_pair_def)
  show "k \<in> set (nestingAttributes_names attrs nms) \<longleftrightarrow> (\<exists>v. nestingAttributes_GetAttribute attrs get k = Ret (Some v))"
    using names_get by (induction attrs) (auto simp: nestingAttributes_names_def)
qed

context nesting_attributes
begin

lemma own_contract: "extended_attributes (nestingAttributes_GetAttribute attrs get)
    (nestingAttributes_FindAttribute attrs find) (nestingAttributes_names attrs nms)"
  by (rule own.extended_attributes_axioms)

end

lemma gm_get_keys: "gm_get m k = Some v \<Longrightarrow> k \<in> set (gm_keys m)"
  using gm_get_None_iff [of m k] by auto

interpretation map_attributes: extended_attributes "mapAttributes_GetAttribute kvs" "mapAttributes_FindAttribute kvs"
  "mapAttributes_names ord kvs" for kvs ord
  by unfold_locales
    (auto simp: mapAttributes_GetAttribute_def mapAttributes_FindAttribute_def mapAttributes_names_def found_pair_def
      gm_get_None_iff dest: gm_get_keys split: option.splits)

interpretation nested_map: nesting_attributes "mapAttributes_GetAttribute kvs" "mapAttributes_FindAttribute kvs"
  "mapAttributes_names ord kvs" attrs for kvs ord attrs
  by unfold_locales

section \<open>Dispatch\<close>

lemma nesting_get: "nestingAttributes_GetAttribute attrs get key =
    (case nesting_find attrs key of Some v \<Rightarrow> Ret (Some v) | None \<Rightarrow> get key)"
  by (induction attrs) auto

lemma nesting_found: "nestingAttributes_FindAttribute attrs fnd key =
    (case nesting_find attrs key of Some v \<Rightarrow> Ret (v, True) | None \<Rightarrow> fnd key)"
  by (induction attrs) auto

text \<open>The methods of the interface call the method of the implementer.\<close>

lemma GetAttribute_dispatch:
  "GetAttribute (RegexKeyMatch ms fm) = regexKeyMatch_GetAttribute ms fm"
  "GetAttribute (NewAttributes kvs) = mapAttributes_GetAttribute kvs"
  "GetAttribute (NestingAttributes n as) = nestingAttributes_GetAttribute as (GetAttribute n)"
  by (auto simp: fun_eq_iff regexKeyMatch_GetAttribute_def NewAttributes_def mapAttributes_GetAttribute_def nesting_get
      split: option.split)

definition find_pair :: "attributes \<Rightarrow> string \<Rightarrow> (string \<times> bool) go" where
  "find_pair a key = go_bind (FindAttribute a key) (\<lambda>r. Ret (found_pair r))"

lemma FindAttribute_dispatch:
  "find_pair (RegexKeyMatch ms fm) = regexKeyMatch_FindAttribute ms fm"
  "find_pair (NewAttributes kvs) = mapAttributes_FindAttribute kvs"
  "find_pair (NestingAttributes n as) = nestingAttributes_FindAttribute as (find_pair n)"
  by (auto simp: fun_eq_iff find_pair_def regexKeyMatch_FindAttribute_def NewAttributes_def mapAttributes_FindAttribute_def
      nesting_found found_pair_def go_index_def split: option.split)

lemma names_dispatch:
  "names ord (RegexKeyMatch ms fm) = regexKeyMatch_names ord fm"
  "names ord (NewAttributes kvs) = mapAttributes_names ord kvs"
  "names ord (NestingAttributes n as) = nestingAttributes_names as (names ord n)"
  by (simp_all add: regexKeyMatch_names_def NewAttributes_def mapAttributes_names_def nestingAttributes_names_def)

text \<open>Every well-formed value of the datatype meets the interface.\<close>

lemma attributes_contract: "attr_wf a \<Longrightarrow> extended_attributes (GetAttribute a) (find_pair a) (names ord a)"
proof (induction a)
  case (RegexKeyMatch ms fm)
  then have idx: "gm_get fm k = Some i \<Longrightarrow> i < length ms" for k i
    using gm_get_keys [of fm k i] by (auto simp: list_all_iff dest!: bspec)
  show ?case
    unfolding GetAttribute_dispatch FindAttribute_dispatch names_dispatch
  proof
    fix k
    show "\<exists>r. regexKeyMatch_GetAttribute ms fm k = Ret r"
      using idx by (auto simp: regexKeyMatch_GetAttribute_def go_index_def split: option.split)
    show "regexKeyMatch_FindAttribute ms fm k = go_bind (regexKeyMatch_GetAttribute ms fm k) (\<lambda>r. Ret (found_pair r))"
      by (auto simp: regexKeyMatch_FindAttribute_def regexKeyMatch_GetAttribute_def go_index_def found_pair_def split: option.split)
    show "k \<in> set (regexKeyMatch_names ord fm) \<longleftrightarrow> (\<exists>v. regexKeyMatch_GetAttribute ms fm k = Ret (Some v))"
      using idx [of k] gm_get_None_iff [of fm k]
      by (auto simp: regexKeyMatch_names_def regexKeyMatch_GetAttribute_def go_index_def split: option.split)
  qed
next
  case (MapAttributes kvs)
  show ?case
    unfolding GetAttribute_dispatch(2) [unfolded NewAttributes_def] FindAttribute_dispatch(2) [unfolded NewAttributes_def]
      names_dispatch(2) [unfolded NewAttributes_def] by (rule map_attributes.extended_attributes_axioms)
next
  case (NestingAttributes a as)
  then have "nesting_attributes (GetAttribute a) (find_pair a) (names ord a)" by (simp add: nesting_attributes_def)
  from nesting_attributes.own_contract [OF this] show ?case
    unfolding GetAttribute_dispatch FindAttribute_dispatch names_dispatch .
qed

section \<open>Properties\<close>

text \<open>
  C28. The attributes that callbacks get can be read safely: for every rule of the constructors and
  every key that makes it, both readers return for every name and agree, the names are precisely those
  for which they find a value, and the copy of all attributes that a worker logs dereferences no nil
  and has an entry for every name.
\<close>

theorem task_attributes_safe:
  assumes "built ord0 r" and "makeStaticRule r key v = Ret (Some (sr, a))"
  shows "(\<forall>k. \<exists>res. GetAttribute a k = Ret res \<and> find_pair a k = Ret (found_pair res) \<and>
      (k \<in> set (names ord a) \<longleftrightarrow> res \<noteq> None)) \<and>
    (\<exists>m. attr_map ord a = Ret m \<and> map fst m = names ord a)"
proof -
  have wf: "attr_wf a" using make_attr_wf [OF built_wf [OF assms(1)] assms(2)] .
  note c = attributes_contract [OF wf, of ord]
  have "\<exists>res. GetAttribute a k = Ret res \<and> find_pair a k = Ret (found_pair res) \<and> (k \<in> set (names ord a) \<longleftrightarrow> res \<noteq> None)" for k
  proof -
    obtain res where res: "GetAttribute a k = Ret res" using extended_attributes.get_returns [OF c] by blast
    have "find_pair a k = Ret (found_pair res)" using extended_attributes.find_get [OF c, of k] res by simp
    then show ?thesis using res extended_attributes.names_get [OF c, of k] by auto
  qed
  moreover have "\<exists>m. attr_map ord a = Ret m \<and> map fst m = names ord a"
    using extended_attributes.copy_returns [OF c] by (simp add: attr_map_def)
  ultimately show ?thesis by blast
qed

theorem task_attributes_safe_witness:
  "\<exists>r sr a m. NewEqualsLiteralRule ''/a/:x'' (Some ''1'') = Inr r \<and> makeStaticRule r ''/a/7'' None = Ret (Some (sr, a)) \<and>
     attr_map insertion_order a = Ret m \<and> map fst m = [''x'']"
proof -
  define r where "r = projr (NewEqualsLiteralRule ''/a/:x'' (Some ''1''))"
  have r: "NewEqualsLiteralRule ''/a/:x'' (Some ''1'') = Inr r" unfolding r_def by (rule Inr_projr) code_simp
  let ?m = "makeStaticRule r ''/a/7'' None"
  have "go_is_some ?m" unfolding r_def by code_simp
  then have mk: "?m = Ret (Some (fst (go_some ?m), snd (go_some ?m)))" using go_some_eq by simp
  have n: "names insertion_order (snd (go_some ?m)) = [''x'']" unfolding r_def by code_simp
  obtain m where "attr_map insertion_order (snd (go_some ?m)) = Ret m" "map fst m = [''x'']"
    using conjunct2 [OF task_attributes_safe [OF built_literal [OF r] mk, where ord = insertion_order]] unfolding n
    by (elim exE conjE)
  then show ?thesis
    using r mk by (intro exI [of _ r] exI [of _ "fst (go_some ?m)"] exI [of _ "snd (go_some ?m)"] exI [of _ m]) simp
qed

end
