(* ===== verification/RuleObjects.thy ===== *)
theory RuleObjects
  imports StaticRule
begin

text \<open>
  The interface \<open>staticRule\<close> (\<open>rules/static_rule.go\<close>) as the code dispatches it: an object is the
  table of its methods, the classes build their tables from the tables of the rules they hold, and the
  embedded \<open>compoundStaticRule\<close> gives AND and OR four of their methods. Theory StaticRule has the same
  methods as functions on a datatype, to which those of the objects are reduced; the objects are then
  shown to implement the boolean meaning \<open>holds\<close> of the rules. The locale \<open>static_rule_object\<close> is the
  contract of the interface that the rest of the engine relies on.
\<close>

section \<open>Definitions\<close>

record staticRule =
  so_keyMatch :: "string \<Rightarrow> bool"
  so_satisfiable :: "string \<Rightarrow> string option \<Rightarrow> bool"
  so_qSatisfiable :: "string \<Rightarrow> string option \<Rightarrow> quadState"
  so_satisfied :: "read_get \<Rightarrow> string + bool"
  so_getAttributes :: "attributes go"
  so_getKeys :: "string list"
  so_String :: "string option"

text \<open>The factories.\<close>

definition newCompareLiteralRuleFactory :: "comparator \<Rightarrow> string \<Rightarrow> ruleFactory" where
  "newCompareLiteralRuleFactory comparator stringTemplate = CompareLiteralRuleFactory comparator stringTemplate"

definition newEqualsRuleFactory :: ruleFactory where
  "newEqualsRuleFactory = EqualsRuleFactory"

subsection \<open>Literal comparison\<close>

definition compareLiteral_satisfiable :: "string \<Rightarrow> string \<Rightarrow> string option \<Rightarrow> bool" where
  "compareLiteral_satisfiable elr_key key v = (key = elr_key)"

definition compareLiteral_qSatisfiable :: "string \<Rightarrow> comparator \<Rightarrow> string \<Rightarrow> string option \<Rightarrow> quadState" where
  "compareLiteral_qSatisfiable elr_key comparator key v =
     (if key \<noteq> elr_key then qNone else if comparator v then qTrue else qFalse)"

definition compareLiteral_satisfied :: "string \<Rightarrow> comparator \<Rightarrow> read_get \<Rightarrow> string + bool" where
  "compareLiteral_satisfied elr_key comparator get =
     (case get elr_key of Inl err \<Rightarrow> Inl err | Inr v \<Rightarrow> Inr (comparator v))"

definition compareLiteralRule :: "attributes \<Rightarrow> string \<Rightarrow> comparator \<Rightarrow> string \<Rightarrow> staticRule" where
  "compareLiteralRule attr key comparator stringTemplate =
     \<lparr>so_keyMatch = \<lambda>k. key = k, so_satisfiable = compareLiteral_satisfiable key,
      so_qSatisfiable = compareLiteral_qSatisfiable key comparator,
      so_satisfied = compareLiteral_satisfied key comparator, so_getAttributes = Ret attr, so_getKeys = [key],
      so_String = fmt_Sprintf stringTemplate key\<rparr>"

subsection \<open>Compound rules\<close>

definition compound_getAttributes :: "staticRule list \<Rightarrow> attributes go" where
  "compound_getAttributes nestedRules = (case nestedRules of [] \<Rightarrow> Panic | r # _ \<Rightarrow> so_getAttributes r)"

primrec compound_satisfiable :: "staticRule list \<Rightarrow> string \<Rightarrow> string option \<Rightarrow> bool" where
  "compound_satisfiable [] key v = False"
| "compound_satisfiable (r # rs) key v = (if so_satisfiable r key v then True else compound_satisfiable rs key v)"

primrec compound_keyMatch :: "staticRule list \<Rightarrow> string \<Rightarrow> bool" where
  "compound_keyMatch [] key = False"
| "compound_keyMatch (r # rs) key = (if so_keyMatch r key then True else compound_keyMatch rs key)"

primrec compound_getKeys :: "staticRule list \<Rightarrow> string list" where
  "compound_getKeys [] = []"
| "compound_getKeys (r # rs) = so_getKeys r @ compound_getKeys rs"

primrec and_object_satisfied :: "staticRule list \<Rightarrow> read_get \<Rightarrow> string + bool" where
  "and_object_satisfied [] get = Inr True"
| "and_object_satisfied (r # rs) get =
     (case so_satisfied r get of
        Inl err \<Rightarrow> Inl err
      | Inr sat \<Rightarrow> if \<not> sat then Inr False else and_object_satisfied rs get)"

primrec or_object_satisfied :: "staticRule list \<Rightarrow> read_get \<Rightarrow> string + bool" where
  "or_object_satisfied [] get = Inr False"
| "or_object_satisfied (r # rs) get =
     (case so_satisfied r get of
        Inl err \<Rightarrow> Inl err
      | Inr sat \<Rightarrow> if sat then Inr True else or_object_satisfied rs get)"

definition object_text :: "string \<Rightarrow> staticRule list \<Rightarrow> string option" where
  "object_text sep nestedRules =
     map_option (\<lambda>ss. ''('' @ strings_Join ss sep @ '')'') (those (map so_String nestedRules))"

definition and_object_String :: "staticRule list \<Rightarrow> string option" where
  "and_object_String nestedRules = object_text '' AND '' nestedRules"

definition or_object_String :: "staticRule list \<Rightarrow> string option" where
  "or_object_String nestedRules = object_text '' OR '' nestedRules"

definition andStaticRule :: "staticRule list \<Rightarrow> staticRule" where
  "andStaticRule nestedRules =
     \<lparr>so_keyMatch = compound_keyMatch nestedRules, so_satisfiable = compound_satisfiable nestedRules,
      so_qSatisfiable = \<lambda>key v. and_q (map (\<lambda>r. so_qSatisfiable r key v) nestedRules),
      so_satisfied = and_object_satisfied nestedRules, so_getAttributes = compound_getAttributes nestedRules,
      so_getKeys = compound_getKeys nestedRules, so_String = and_object_String nestedRules\<rparr>"

definition orStaticRule :: "staticRule list \<Rightarrow> staticRule" where
  "orStaticRule nestedRules =
     \<lparr>so_keyMatch = compound_keyMatch nestedRules, so_satisfiable = compound_satisfiable nestedRules,
      so_qSatisfiable = \<lambda>key v. or_q (map (\<lambda>r. so_qSatisfiable r key v) nestedRules),
      so_satisfied = or_object_satisfied nestedRules, so_getAttributes = compound_getAttributes nestedRules,
      so_getKeys = compound_getKeys nestedRules, so_String = or_object_String nestedRules\<rparr>"

text \<open>Negation embeds the rule it negates; the methods it does not define are the embedded ones.\<close>

definition notStaticRule :: "staticRule \<Rightarrow> staticRule" where
  "notStaticRule r =
     r\<lparr>so_satisfiable := (\<lambda>key v. so_keyMatch r key),
       so_qSatisfiable := (\<lambda>key v. not_q (so_qSatisfiable r key v)),
       so_satisfied := (\<lambda>get. case so_satisfied r get of Inl err \<Rightarrow> Inl err | Inr sat \<Rightarrow> Inr (\<not> sat)),
       so_String := map_option (\<lambda>s. ''NOT ('' @ s @ '')'') (so_String r)\<rparr>"

subsection \<open>Equality\<close>

definition equalsRule_keyMatch :: "string list \<Rightarrow> string \<Rightarrow> bool" where
  "equalsRule_keyMatch keys key = (length keys = 0 \<or> list_ex (\<lambda>ruleKey. key = ruleKey) keys)"

definition equalsRule_satisfied :: "string list \<Rightarrow> read_get \<Rightarrow> string + bool" where
  "equalsRule_satisfied keys get =
     (case keys of
        [] \<Rightarrow> Inr True
      | key0 # rest \<Rightarrow> (case get key0 of Inl err1 \<Rightarrow> Inl err1 | Inr ref \<Rightarrow> equals_satisfied get ref rest))"

definition equalsRule :: "attributes \<Rightarrow> string list \<Rightarrow> staticRule" where
  "equalsRule attr keys =
     \<lparr>so_keyMatch = equalsRule_keyMatch keys, so_satisfiable = \<lambda>key v. equalsRule_keyMatch keys key,
      so_qSatisfiable = \<lambda>key v. if equalsRule_keyMatch keys key then qMaybe else qNone,
      so_satisfied = equalsRule_satisfied keys, so_getAttributes = Ret attr, so_getKeys = keys,
      so_String = Some (strings_Join keys '' = '')\<rparr>"

text \<open>The object that the constructors of the code build for a rule.\<close>

primrec object_of :: "static_rule \<Rightarrow> staticRule" where
  "object_of (CompareLiteralRule attr key c t) = compareLiteralRule attr key c t"
| "object_of (AndStaticRule rs) = andStaticRule (map object_of rs)"
| "object_of (OrStaticRule rs) = orStaticRule (map object_of rs)"
| "object_of (NotStaticRule r) = notStaticRule (object_of r)"
| "object_of (EqualsRule attr keys) = equalsRule attr keys"

section \<open>The methods of compound objects\<close>

lemma compound_satisfiable_ex: "compound_satisfiable rs key v = list_ex (\<lambda>r. so_satisfiable r key v) rs"
  by (induction rs) auto

lemma compound_keyMatch_ex: "compound_keyMatch rs key = list_ex (\<lambda>r. so_keyMatch r key) rs"
  by (induction rs) auto

lemma compound_getKeys_concat: "compound_getKeys rs = concat (map so_getKeys rs)"
  by (induction rs) auto

lemma and_object_satisfied_map: "and_object_satisfied rs get = and_satisfied (map (\<lambda>r. so_satisfied r get) rs)"
  by (induction rs) (auto split: sum.split)

lemma or_object_satisfied_map: "or_object_satisfied rs get = or_satisfied (map (\<lambda>r. so_satisfied r get) rs)"
  by (induction rs) (auto split: sum.split)

lemmas object_simps = compareLiteralRule_def compareLiteral_satisfiable_def compareLiteral_qSatisfiable_def
  compareLiteral_satisfied_def andStaticRule_def orStaticRule_def notStaticRule_def equalsRule_def
  equalsRule_keyMatch_def equalsRule_satisfied_def compound_satisfiable_ex compound_keyMatch_ex compound_getKeys_concat
  and_object_satisfied_map or_object_satisfied_map and_object_String_def or_object_String_def object_text_def
  compound_getAttributes_def

text \<open>Each method of an object is the function on the datatype.\<close>

lemma object_keyMatch: "so_keyMatch (object_of r) key = keyMatch r key"
  by (induction r) (auto simp: object_simps list_ex_iff static_simps)

lemma object_satisfiable: "so_satisfiable (object_of r) key v = satisfiable r key v"
  by (induction r) (auto simp: object_simps list_ex_iff static_simps object_keyMatch)

lemma object_satisfied: "so_satisfied (object_of r) get = satisfied r get"
  by (induction r) (auto simp: object_simps comp_def cong: map_cong)

lemma object_qSatisfiable: "so_qSatisfiable (object_of r) key v = qSatisfiable r key v"
  by (induction r) (auto simp: object_simps comp_def cong: map_cong)

lemma object_getKeys: "so_getKeys (object_of r) = getKeys r"
  by (induction r) (auto simp: object_simps comp_def cong: map_cong)

lemma object_getAttributes: "so_getAttributes (object_of r) = getAttributes r"
  by (induction r) (auto simp: object_simps split: list.split)

lemma object_String: "so_String (object_of r) = static_String r"
  by (induction r) (auto simp: object_simps comp_def cong: map_cong)

lemmas object_methods = object_keyMatch object_satisfiable object_satisfied object_qSatisfiable object_getKeys
  object_getAttributes object_String

section \<open>The contract\<close>

text \<open>
  What the engine relies on: an evaluation reads no other keys than \<open>getKeys\<close>, so one batch of reads is
  enough; the basic filter asks whether the key concerns the rule; and a key that does not concern it
  never warrants an evaluation for the enhanced filter.
\<close>

locale static_rule_object =
  fixes obj :: staticRule
  assumes reads_own: "(\<And>k. k \<in> set (so_getKeys obj) \<Longrightarrow> get k = get' k) \<Longrightarrow> so_satisfied obj get = so_satisfied obj get'"
    and filter_match: "so_satisfiable obj key v = so_keyMatch obj key"
    and q_none: "\<not> so_keyMatch obj key \<Longrightarrow> so_qSatisfiable obj key v = qNone"
begin

text \<open>A cache of the keys answers as the store it was read from.\<close>

lemma cached: "(\<And>k. k \<in> set (so_getKeys obj) \<Longrightarrow> cache k = Inr (st k)) \<Longrightarrow>
    so_satisfied obj cache = so_satisfied obj (\<lambda>k. Inr (st k))"
  by (rule reads_own)

text \<open>The enhanced filter selects no more than the basic one.\<close>

lemma enhanced_basic: "so_qSatisfiable obj key v \<noteq> qNone \<Longrightarrow> so_satisfiable obj key v"
  using filter_match q_none by metis

end

lemma q_none_list: "(\<forall>q \<in> set qs. q = qNone) \<Longrightarrow> q_flags qs st = st"
  by (induction qs st rule: q_flags.induct) auto

lemma qSatisfiable_unmatched: "\<not> keyMatch r key \<Longrightarrow> qSatisfiable r key v = qNone"
proof (induction r)
  case (AndStaticRule rs)
  then have "\<forall>q \<in> set (map (\<lambda>r. qSatisfiable r key v) rs). q = qNone" by (auto simp: static_simps list_ex_iff)
  from q_none_list [OF this] show ?case by (simp add: and_q_def)
next
  case (OrStaticRule rs)
  then have "\<forall>q \<in> set (map (\<lambda>r. qSatisfiable r key v) rs). q = qNone" by (auto simp: static_simps list_ex_iff)
  from q_none_list [OF this] show ?case by (simp add: or_q_def)
qed (auto simp: not_q_def)

interpretation rule_object: static_rule_object "object_of r" for r
  by unfold_locales
    (auto simp: object_methods satisfiable_eq_keyMatch qSatisfiable_unmatched intro: satisfied_cong)

section \<open>Properties\<close>

text \<open>
  C29. The method tables that the classes of static rules build, by embedding and by calling the tables
  of the rules they hold, implement the boolean meaning \<open>holds\<close> of the rule. An evaluation that answers
  gives the truth value of the rule in every store that agrees with the values read, whichever reads fail
  or are skipped by short-circuiting; an error is that of a read of a key which the object names, and
  the verdict depends on no other keys. Both filters of an object select it for the same keys, and, when
  every comparison has keys, precisely for those it names; when no two nested rules share a key, the enhanced
  filter misses no change of a key that makes the rule true.
\<close>

theorem rule_objects_implement_meaning:
  "(\<forall>get e. so_satisfied (object_of r) get = Inl e \<longrightarrow> (\<exists>k \<in> set (so_getKeys (object_of r)). get k = Inl e)) \<and>
   (\<forall>get b st. so_satisfied (object_of r) get = Inr b \<longrightarrow> (\<forall>k v. get k = Inr v \<longrightarrow> st k = v) \<longrightarrow> b = holds r st) \<and>
   (\<forall>get get'. (\<forall>k \<in> set (so_getKeys (object_of r)). get k = get' k) \<longrightarrow>
      so_satisfied (object_of r) get = so_satisfied (object_of r) get') \<and>
   (\<forall>key v. so_qSatisfiable (object_of r) key v \<noteq> qNone \<longleftrightarrow> so_satisfiable (object_of r) key v) \<and>
   (\<forall>key v. keys_nonempty r \<longrightarrow> (so_satisfiable (object_of r) key v \<longleftrightarrow> key \<in> set (so_getKeys (object_of r)))) \<and>
   (\<forall>st key v. linear r \<longrightarrow> \<not> holds r st \<longrightarrow> holds r (st(key := v)) \<longrightarrow>
      so_qSatisfiable (object_of r) key v \<in> {qTrue, qMaybe})"
proof (intro conjI allI impI)
  show "\<exists>k \<in> set (so_getKeys (object_of r)). get k = Inl e" if "so_satisfied (object_of r) get = Inl e" for get e
    using that satisfied_Inl unfolding object_methods by blast
  show "b = holds r st" if "so_satisfied (object_of r) get = Inr b" "\<forall>k v. get k = Inr v \<longrightarrow> st k = v" for get b st
    using that satisfied_Inr [of r get b st] unfolding object_methods by blast
  show "so_satisfied (object_of r) get = so_satisfied (object_of r) get'"
    if "\<forall>k \<in> set (so_getKeys (object_of r)). get k = get' k" for get get'
    by (rule rule_object.reads_own) (use that in blast)
  show "so_qSatisfiable (object_of r) key v \<noteq> qNone \<longleftrightarrow> so_satisfiable (object_of r) key v" for key v
    unfolding object_methods using qNone_iff_no_keyMatch satisfiable_eq_keyMatch by simp
  show "so_satisfiable (object_of r) key v \<longleftrightarrow> key \<in> set (so_getKeys (object_of r))" if "keys_nonempty r" for key v
    unfolding object_methods using keyMatch_iff_getKeys [OF that] satisfiable_eq_keyMatch by simp
  show "so_qSatisfiable (object_of r) key v \<in> {qTrue, qMaybe}"
    if "linear r" "\<not> holds r st" "holds r (st(key := v))" for st key v
    unfolding object_methods using linear_filter [OF that(1), of "st(key := v)" st key v] that(2,3) by auto
qed

text \<open>
  The negation of a conjunction of two comparisons: the object reads both keys; reads of other keys fail.
\<close>

definition small_rule :: static_rule where
  "small_rule =
     NotStaticRule (AndStaticRule
       [CompareLiteralRule (RegexKeyMatch [''/a''] []) ''/a'' (\<lambda>v. v = Some ''1'') ''%s = 1'',
        CompareLiteralRule (RegexKeyMatch [''/b''] []) ''/b'' (\<lambda>v. v = None) ''%s = <nil>''])"

definition small_get :: "string \<Rightarrow> string \<Rightarrow> string + string option" where
  "small_get other k = (if k = ''/a'' then Inr (Some ''1'') else if k = ''/b'' then Inr (Some ''2'') else Inl other)"

theorem rule_objects_implement_meaning_witness:
  "so_getKeys (object_of small_rule) = [''/a'', ''/b''] \<and>
   so_satisfied (object_of small_rule) (small_get ''x'') = Inr True \<and>
   holds small_rule [''/a'' \<mapsto> ''1'', ''/b'' \<mapsto> ''2'', ''/c'' \<mapsto> ''3''] \<and>
   so_qSatisfiable (object_of small_rule) ''/b'' (Some ''2'') \<in> {qTrue, qMaybe}"
proof (intro conjI)
  note m = rule_objects_implement_meaning [of small_rule]
  show "so_getKeys (object_of small_rule) = [''/a'', ''/b'']" by code_simp
  show sat: "so_satisfied (object_of small_rule) (small_get ''x'') = Inr True" by code_simp
  have "\<forall>k v. small_get ''x'' k = Inr v \<longrightarrow> [''/a'' \<mapsto> ''1'', ''/b'' \<mapsto> ''2'', ''/c'' \<mapsto> ''3''] k = v"
    by (simp add: small_get_def)
  then show "holds small_rule [''/a'' \<mapsto> ''1'', ''/b'' \<mapsto> ''2'', ''/c'' \<mapsto> ''3'']" using m sat by blast
  have "linear small_rule" "\<not> holds small_rule [''/a'' \<mapsto> ''1'']" "holds small_rule ([''/a'' \<mapsto> ''1''](''/b'' := Some ''2''))"
    by (simp_all add: small_rule_def disjoint_keys_def)
  then show "so_qSatisfiable (object_of small_rule) ''/b'' (Some ''2'') \<in> {qTrue, qMaybe}" using m by blast
qed

end
