(* ===== verification/Exclusion.thy ===== *)
theory Exclusion
  imports Worker
begin

text \<open>
  The workers of an engine at the same time: \<open>doWork\<close> of \<open>rules/worker.go\<close> cut into the steps
  between which other goroutines run. The two evaluations, every call of a locker that is not a nested
  one, the start and the end of the callback and every call that gives a lock back are steps of their
  own; what the reads answer and when the stop flag is set is open. A run of one worker without
  interference is the function \<open>doWork\<close> of theory Worker. The locale \<open>lock_client\<close> says what goroutines
  that use the locker of an engine owe to the interleavings of theory Locks, and what they get.
\<close>

section \<open>Definitions\<close>

text \<open>\<open>doWork\<close> up to the lock: what it reports, and whether it goes on.\<close>

definition first_check :: "(string list \<Rightarrow> string + read_get) \<Rightarrow> bool \<Rightarrow> v3RuleWork \<Rightarrow> work_event list \<times> bool" where
  "first_check getCachedAPI stopping work =
     (case getCachedAPI (getKeys (w_rule work)) of
        Inl err1 \<Rightarrow> ([], False)
      | Inr capi \<Rightarrow>
          (case satisfied (w_rule work) capi of
             Inl err1 \<Rightarrow> ([], False)
           | Inr sat \<Rightarrow>
               if \<not> sat \<or> stopping then (if \<not> sat then [EvSatisfiedThenNot ''worker.doWorkBeforeLock''] else [], False)
               else ([], True)))"

text \<open>\<open>doWork\<close> from the lock to the callback: the callback with the attributes that are logged, if there is one to be called.\<close>

definition second_check ::
  "string range_order \<Rightarrow> (string list \<Rightarrow> string + read_get) \<Rightarrow> bool \<Rightarrow> v3RuleWork \<Rightarrow>
   work_event list \<times> (nat \<times> (string \<times> string) list \<times> attributes) option go" where
  "second_check ord getCachedAPI stopping work =
     (case getCachedAPI (getKeys (w_rule work)) of
        Inl err1 \<Rightarrow> ([], Ret None)
      | Inr capi \<Rightarrow>
          (case satisfied (w_rule work) capi of
             Inl err1 \<Rightarrow> ([], Ret None)
           | Inr sat \<Rightarrow>
               ((if \<not> sat then [EvSatisfiedThenNot ''worker.doWorkAfterLock''] else []) @ [EvQueueWait],
                if sat \<and> \<not> stopping then
                  go_bind (getAttributes (w_rule work)) (\<lambda>attributes.
                    go_bind (attr_map ord attributes) (\<lambda>attrMap.
                      case w_ruleTaskCallback work of None \<Rightarrow> Panic | Some cb \<Rightarrow> Ret (Some (cb, attrMap, attributes))))
                else Ret None)))"

text \<open>Where a worker is: the locks it has, in the order in which it gives them back, and the lockers to come.\<close>

datatype work_phase =
    WpIdle
  | WpLocking v3RuleWork "rule_lock list" "rule_locker list"
  | WpRefused "rule_lock list"
  | WpLocked v3RuleWork "rule_lock list"
  | WpCallback v3RuleWork nat attributes "rule_lock list"
  | WpUnlocking v3RuleWork "rule_lock list" "lock_error option"

record 'e pool =
  po_workers :: "work_phase list"
  po_locks :: "'e lock_state"
  po_log :: "(nat \<times> work_event) list"

text \<open>Worker \<open>i\<close> moves on, with the events it reports.\<close>

definition move :: "'e pool \<Rightarrow> nat \<Rightarrow> work_phase \<Rightarrow> 'e lock_state \<Rightarrow> work_event list \<Rightarrow> 'e pool" where
  "move s i p st events =
     s\<lparr>po_workers := (po_workers s)[i := p], po_locks := st, po_log := po_log s @ map (Pair i) events\<rparr>"

definition worker_opts :: "v3RuleWork \<Rightarrow> lock_option list" where
  "worker_opts work = [PatternForLock (w_keyPattern work), MethodForLock ''worker_lock'']"

inductive pool_step :: "string range_order \<Rightarrow> 'e etcd_api \<Rightarrow> rule_locker \<Rightarrow> 'e pool \<Rightarrow> 'e pool \<Rightarrow> bool"
  for ord api lk where
  reject: "i < length (po_workers s) \<Longrightarrow> po_workers s ! i = WpIdle \<Longrightarrow>
    first_check getCachedAPI stopping work = (events, False) \<Longrightarrow>
    pool_step ord api lk s (move s i WpIdle (po_locks s) events)"
| accept: "i < length (po_workers s) \<Longrightarrow> po_workers s ! i = WpIdle \<Longrightarrow>
    first_check getCachedAPI stopping work = (events, True) \<Longrightarrow>
    pool_step ord api lk s (move s i (WpLocking work [] (leaf_lockers lk)) (po_locks s) events)"
| acquire: "i < length (po_workers s) \<Longrightarrow> po_workers s ! i = WpLocking work ls (l # lks) \<Longrightarrow>
    Lock api l (w_lockKey work) (worker_opts work) (po_locks s) = (Inr k, st') \<Longrightarrow>
    pool_step ord api lk s (move s i (WpLocking work (k # ls) lks) st' [])"
| refuse: "i < length (po_workers s) \<Longrightarrow> po_workers s ! i = WpLocking work ls (l # lks) \<Longrightarrow>
    Lock api l (w_lockKey work) (worker_opts work) (po_locks s) = (Inl err, st') \<Longrightarrow>
    pool_step ord api lk s (move s i (WpRefused ls) st' [EvLockFailed (w_lockKey work)])"
| give_back: "i < length (po_workers s) \<Longrightarrow> po_workers s ! i = WpRefused (l # ls) \<Longrightarrow>
    Unlock api l [] (po_locks s) = (err, st') \<Longrightarrow>
    pool_step ord api lk s (move s i (WpRefused ls) st' [])"
| refused: "i < length (po_workers s) \<Longrightarrow> po_workers s ! i = WpRefused [] \<Longrightarrow>
    pool_step ord api lk s (move s i WpIdle (po_locks s) [])"
| got_lock: "i < length (po_workers s) \<Longrightarrow> po_workers s ! i = WpLocking work ls [] \<Longrightarrow>
    pool_step ord api lk s (move s i (WpLocked work ls) (po_locks s) [EvLocked (w_lockKey work)])"
| no_call: "i < length (po_workers s) \<Longrightarrow> po_workers s ! i = WpLocked work ls \<Longrightarrow>
    second_check ord getCachedAPI stopping work = (events, outcome) \<Longrightarrow> outcome = Ret None \<or> outcome = Panic \<Longrightarrow>
    pool_step ord api lk s (move s i (WpUnlocking work ls None) (po_locks s) events)"
| call: "i < length (po_workers s) \<Longrightarrow> po_workers s ! i = WpLocked work ls \<Longrightarrow>
    second_check ord getCachedAPI stopping work = (events, Ret (Some (cb, attrMap, attributes))) \<Longrightarrow>
    pool_step ord api lk s (move s i (WpCallback work cb attributes ls) (po_locks s) (events @ [EvCallback cb attrMap]))"
| returned: "i < length (po_workers s) \<Longrightarrow> po_workers s ! i = WpCallback work cb attributes ls \<Longrightarrow>
    pool_step ord api lk s (move s i (WpUnlocking work ls None) (po_locks s)
      (if listener then [EvCallbackDone (w_ruleID work) attributes] else []))"
| panicked: "i < length (po_workers s) \<Longrightarrow> po_workers s ! i = WpCallback work cb attributes ls \<Longrightarrow>
    pool_step ord api lk s (move s i (WpUnlocking work ls None) (po_locks s) [])"
| unlock: "i < length (po_workers s) \<Longrightarrow> po_workers s ! i = WpUnlocking work (l # ls) err \<Longrightarrow>
    Unlock api l [] (po_locks s) = (err', st') \<Longrightarrow>
    pool_step ord api lk s (move s i (WpUnlocking work ls (if err = None then err' else err)) st' [])"
| unlocked: "i < length (po_workers s) \<Longrightarrow> po_workers s ! i = WpUnlocking work [] err \<Longrightarrow>
    pool_step ord api lk s (move s i WpIdle (po_locks s) [EvUnlocked (w_lockKey work) err])"
| surroundings: "pool_step ord api lk s (s\<lparr>po_locks := (po_locks s)\<lparr>ls_now := now, ls_etcd := e\<rparr>\<rparr>)"

definition pool_start :: "nat \<Rightarrow> 'e lock_state \<Rightarrow> 'e pool" where
  "pool_start n st = \<lparr>po_workers = replicate n WpIdle, po_locks = st, po_log = []\<rparr>"

text \<open>The worker as a goroutine that uses a locker.\<close>

primrec thread_of :: "work_phase \<Rightarrow> thread" where
  "thread_of WpIdle = Idle"
| "thread_of (WpLocking work ls lks) = Acquiring (w_lockKey work) ls lks"
| "thread_of (WpRefused ls) = Releasing ls"
| "thread_of (WpLocked work ls) = Acquiring (w_lockKey work) ls []"
| "thread_of (WpCallback work cb attributes ls) = Acquiring (w_lockKey work) ls []"
| "thread_of (WpUnlocking work ls err) = Releasing ls"

section \<open>Clients of a locker\<close>

text \<open>
  Goroutines that touch the locks only as theory Locks has it, one call of a locker at a time. What
  they get is the exclusion of its interleavings.
\<close>

locale lock_client =
  fixes step :: "'s \<Rightarrow> 's \<Rightarrow> bool" and threads :: "'s \<Rightarrow> thread list" and locks :: "'s \<Rightarrow> 'e lock_state"
    and api :: "'e etcd_api" and lk :: rule_locker
  assumes simulates: "step s s' \<Longrightarrow> (lock_step api lk)\<^sup>*\<^sup>* (threads s, locks s) (threads s', locks s')"
begin

lemma run: "step\<^sup>*\<^sup>* s s' \<Longrightarrow> (lock_step api lk)\<^sup>*\<^sup>* (threads s, locks s) (threads s', locks s')"
  by (induction rule: rtranclp_induct) (auto dest: simulates intro: rtranclp_trans)

lemma exclusive:
  assumes "step\<^sup>*\<^sup>* s s'" and "threads s = replicate m Idle" and "locked a (locks s) = {}" and "guarded_by a n lk"
    and "i < length (threads s')" "j < length (threads s')"
    and "lock_held (threads s' ! i) = Some k" "lock_held (threads s' ! j) = Some k"
  shows "i = j"
proof -
  have "lock_inv a n lk (threads s', locks s')"
    using lock_inv_reachable [OF _ assms(4,3)] run [OF assms(1)] assms(2) by metis
  then show ?thesis using lock_inv_exclusive assms(5-8) by blast
qed

end

lemma move_simps [simp]:
  "po_workers (move s i p st es) = (po_workers s)[i := p]" "po_locks (move s i p st es) = st"
  "po_log (move s i p st es) = po_log s @ map (Pair i) es"
  by (simp_all add: move_def)

lemma move_move [simp]: "move (move s i p st es) i q st' es' = move s i q st' (es @ es')"
  by (simp add: move_def)

lemma thread_update: "map thread_of (ws[i := p]) = (map thread_of ws)[i := thread_of p]"
  by (rule map_update)

lemma thread_stays: "i < length ws \<Longrightarrow> thread_of p = thread_of (ws ! i) \<Longrightarrow> map thread_of (ws[i := p]) = map thread_of ws"
  by (simp add: map_update list_update_same_conv)

interpretation workers: lock_client "pool_step ord api lk" "\<lambda>s. map thread_of (po_workers s)" po_locks api lk for ord api lk
proof
  fix s s' :: "'a pool"
  assume "pool_step ord api lk s s'"
  then show "(lock_step api lk)\<^sup>*\<^sup>* (map thread_of (po_workers s), po_locks s) (map thread_of (po_workers s'), po_locks s')"
  proof cases
    case (accept i getCachedAPI stopping work events)
    then show ?thesis by (auto simp: thread_update intro!: r_into_rtranclp step_start)
  next
    case (acquire i work ls l lks k st')
    then show ?thesis by (auto simp: thread_update intro!: r_into_rtranclp step_acquire)
  next
    case (refuse i work ls l lks err st')
    then show ?thesis by (auto simp: thread_update intro!: r_into_rtranclp step_fail)
  next
    case (give_back i l ls err st')
    then show ?thesis by (auto simp: thread_update intro!: r_into_rtranclp step_release)
  next
    case (refused i)
    then show ?thesis by (auto simp: thread_update intro!: r_into_rtranclp step_done)
  next
    case (no_call i work ls getCachedAPI stopping events outcome)
    then show ?thesis by (auto simp: thread_update intro!: r_into_rtranclp step_unlock)
  next
    case (returned i work cb attributes ls listener)
    then show ?thesis by (auto simp: thread_update intro!: r_into_rtranclp step_unlock)
  next
    case (panicked i work cb attributes ls)
    then show ?thesis by (auto simp: thread_update intro!: r_into_rtranclp step_unlock)
  next
    case (unlock i work l ls err err' st')
    then show ?thesis by (auto simp: thread_update intro!: r_into_rtranclp step_release)
  next
    case (unlocked i work err)
    then show ?thesis by (auto simp: thread_update intro!: r_into_rtranclp step_done)
  next
    case (surroundings now e)
    then show ?thesis by (auto intro!: r_into_rtranclp step_environment)
  qed (simp_all add: thread_stays)
qed

section \<open>A worker on its own\<close>

text \<open>\<open>doWork\<close> is made of its parts.\<close>

lemma doWork_locked_parts:
  "doWork_locked ord env work =
     (case second_check ord (we_api2 env) (we_stopping2 env) work of
        (pre, Ret None) \<Rightarrow> (pre, Ret ())
      | (pre, Ret (Some (cb, attrMap, attributes))) \<Rightarrow>
          (pre @ [EvCallback cb attrMap] @
             (if we_callback env cb = Ret () \<and> we_listener env then [EvCallbackDone (w_ruleID work) attributes] else []),
           we_callback env cb)
      | (pre, Panic) \<Rightarrow> (pre, Panic)
      | (pre, Diverge) \<Rightarrow> (pre, Diverge))"
  by (auto simp: doWork_locked_def second_check_def Let_def split: sum.split go.split option.split)

lemma first_check_sees:
  "snd (first_check getCachedAPI stopping work) \<longleftrightarrow> sees_satisfied getCachedAPI (w_rule work) \<and> \<not> stopping"
  "snd (first_check getCachedAPI stopping work) \<Longrightarrow> fst (first_check getCachedAPI stopping work) = []"
  by (auto simp: first_check_def sees_satisfied_def split: sum.split)

lemma second_check_sees:
  "second_check ord getCachedAPI stopping work = (events, Ret (Some call)) \<Longrightarrow>
     sees_satisfied getCachedAPI (w_rule work) \<and> \<not> stopping"
  by (auto simp: second_check_def sees_satisfied_def split: sum.splits if_splits)

lemma doWork_parts:
  "doWork ord api locker env work st =
     (case first_check (we_api1 env) (we_stopping1 env) work of
        (events, False) \<Rightarrow> (events, st, Ret ())
      | (_, True) \<Rightarrow>
          (case work_lock api locker work st of
             (Inl err2, st1) \<Rightarrow> ([EvLockFailed (w_lockKey work)], st1, Ret ())
           | (Inr l, st1) \<Rightarrow>
               (case doWork_locked ord env work of
                  (events, Diverge) \<Rightarrow> (EvLocked (w_lockKey work) # events, st1, Diverge)
                | (events, outcome) \<Rightarrow>
                    (case Unlock api l [] st1 of (err, st2) \<Rightarrow>
                       (EvLocked (w_lockKey work) # events @ [EvUnlocked (w_lockKey work) err], st2, outcome)))))"
  by (simp add: doWork_def first_check_def split: sum.split)

text \<open>Runs of one worker.\<close>

lemma move_step:
  assumes "(pool_step ord api lk)\<^sup>*\<^sup>* s (move s i p st es)" and "pool_step ord api lk (move s i p st es) (move s i q st' es')"
  shows "(pool_step ord api lk)\<^sup>*\<^sup>* s (move s i q st' es')"
  using assms by (rule rtranclp.rtrancl_into_rtrancl)

lemma give_back_run:
  assumes "i < length (po_workers s)"
  shows "(pool_step ord api lk)\<^sup>*\<^sup>* (move s i (WpRefused ls) st es) (move s i WpIdle (release_all api ls st) es)"
proof (induction ls arbitrary: st)
  case Nil
  show ?case using refused [of i "move s i (WpRefused []) st es" ord api lk] assms by auto
next
  case (Cons l ls)
  obtain err st' where u: "Unlock api l [] st = (err, st')" by fastforce
  have "pool_step ord api lk (move s i (WpRefused (l # ls)) st es) (move s i (WpRefused ls) st' es)"
    using give_back [of i "move s i (WpRefused (l # ls)) st es" l ls api err st' ord lk] assms u by simp
  then show ?case using Cons.IH [of st'] u by (simp add: converse_rtranclp_into_rtranclp)
qed

lemma acquire_run:
  assumes "i < length (po_workers s)"
  shows "(pool_step ord api lk)\<^sup>*\<^sup>* (move s i (WpLocking work ls lks) st es)
    (case acquire_all api (w_lockKey work) (worker_opts work) lks ls st of
       (Inl err, st') \<Rightarrow> move s i WpIdle st' (es @ [EvLockFailed (w_lockKey work)])
     | (Inr ls', st') \<Rightarrow> move s i (WpLocking work ls' []) st' es)"
proof (induction lks arbitrary: ls st)
  case (Cons l lks)
  obtain r st' where r: "Lock api l (w_lockKey work) (worker_opts work) st = (r, st')" by fastforce
  let ?s = "move s i (WpLocking work ls (l # lks)) st es"
  show ?case
  proof (cases r)
    case (Inl err)
    then have "pool_step ord api lk ?s (move s i (WpRefused ls) st' (es @ [EvLockFailed (w_lockKey work)]))"
      using refuse [of i ?s work ls l lks api err st' ord lk] assms r by simp
    then show ?thesis using r Inl give_back_run [OF assms] by (simp add: converse_rtranclp_into_rtranclp)
  next
    case (Inr k)
    then have "pool_step ord api lk ?s (move s i (WpLocking work (k # ls) lks) st' es)"
      using acquire [of i ?s work ls l lks api k st' ord lk] assms r by simp
    then show ?thesis using r Inr Cons.IH [of "k # ls" st'] by (simp add: converse_rtranclp_into_rtranclp)
  qed
qed simp

text \<open>Giving back the locks of the leaves gives back the lock, with its error.\<close>

primrec unlock_all :: "'e etcd_api \<Rightarrow> rule_lock list \<Rightarrow> lock_error option \<times> 'e lock_state \<Rightarrow> lock_error option \<times> 'e lock_state" where
  "unlock_all api [] r = r"
| "unlock_all api (l # ls) r =
     (case r of (err, st) \<Rightarrow> case Unlock api l [] st of (err', st') \<Rightarrow> unlock_all api ls (if err = None then err' else err, st'))"

lemma unlock_all_append: "unlock_all api (ls @ ms) r = unlock_all api ms (unlock_all api ls r)"
  by (induction ls arbitrary: r) (auto split: prod.split)

lemma unlock_all_leaves:
  "unlock_all api (rev (leaf_locks l)) (err, st) =
     (if err = None then fst (Unlock api l [] st) else err, snd (Unlock api l [] st))"
  by (induction l arbitrary: err st) (auto simp: unlock_all_append split: prod.split)

lemma unlock_run:
  assumes "i < length (po_workers s)"
  shows "(pool_step ord api lk)\<^sup>*\<^sup>* (move s i (WpUnlocking work ls err) st es)
    (move s i WpIdle (snd (unlock_all api ls (err, st))) (es @ [EvUnlocked (w_lockKey work) (fst (unlock_all api ls (err, st)))]))"
proof (induction ls arbitrary: st err)
  case Nil
  show ?case using unlocked [of i "move s i (WpUnlocking work [] err) st es" work err ord api lk] assms by auto
next
  case (Cons l ls)
  obtain err' st' where u: "Unlock api l [] st = (err', st')" by fastforce
  have "pool_step ord api lk (move s i (WpUnlocking work (l # ls) err) st es)
      (move s i (WpUnlocking work ls (if err = None then err' else err)) st' es)"
    using unlock [of i "move s i (WpUnlocking work (l # ls) err) st es" work l ls err api err' st' ord lk] assms u by simp
  then show ?case using Cons.IH [of "if err = None then err' else err" st'] u by (simp add: converse_rtranclp_into_rtranclp)
qed

lemma unlock_run_lock:
  assumes "i < length (po_workers s)"
  shows "(pool_step ord api lk)\<^sup>*\<^sup>* (move s i (WpUnlocking work (rev (leaf_locks l)) None) st es)
    (move s i WpIdle (snd (Unlock api l [] st)) (es @ [EvUnlocked (w_lockKey work) (fst (Unlock api l [] st))]))"
  using unlock_run [OF assms, of ord api lk work "rev (leaf_locks l)" None st es] by (simp add: unlock_all_leaves)

lemma lock_run:
  assumes "i < length (po_workers s)" and "po_workers s ! i = WpIdle" and "metrics_on_leaves lk"
    and "sees_satisfied getCachedAPI (w_rule work)" and "\<not> stopping"
  shows "(pool_step ord api lk)\<^sup>*\<^sup>* s
    (case work_lock api lk work (po_locks s) of
       (Inl err, st') \<Rightarrow> move s i WpIdle st' [EvLockFailed (w_lockKey work)]
     | (Inr l, st') \<Rightarrow> move s i (WpLocked work (rev (leaf_locks l))) st' [EvLocked (w_lockKey work)])"
proof -
  let ?s1 = "move s i (WpLocking work [] (leaf_lockers lk)) (po_locks s) []"
  have "first_check getCachedAPI stopping work = ([], True)"
    using first_check_sees [of getCachedAPI stopping work] assms(4,5) by (metis prod.collapse)
  then have 1: "pool_step ord api lk s ?s1" using accept [OF assms(1,2)] by blast
  note 2 = acquire_run [OF assms(1), of ord api lk work "[]" "leaf_lockers lk" "po_locks s" "[]"]
  have leaves: "acquire_all api (w_lockKey work) (worker_opts work) (leaf_lockers lk) [] (po_locks s) =
      (case work_lock api lk work (po_locks s) of (Inl err, st1) \<Rightarrow> (Inl err, st1) | (Inr l, st1) \<Rightarrow> (Inr (rev (leaf_locks l)), st1))"
    using acquire_leaf_lockers [OF assms(3), of api "w_lockKey work" "worker_opts work" "[]" "[]" "po_locks s"]
    by (simp add: worker_opts_def split: prod.split sum.split)
  obtain r st' where r: "work_lock api lk work (po_locks s) = (r, st')" by fastforce
  show ?thesis
  proof (cases r)
    case (Inl err)
    then show ?thesis using 1 2 r leaves by (simp add: converse_rtranclp_into_rtranclp)
  next
    case (Inr l)
    let ?s2 = "move s i (WpLocking work (rev (leaf_locks l)) []) st' []"
    have "(pool_step ord api lk)\<^sup>*\<^sup>* s ?s2" using 1 2 r leaves Inr by (simp add: converse_rtranclp_into_rtranclp)
    moreover have "pool_step ord api lk ?s2 (move s i (WpLocked work (rev (leaf_locks l))) st' [EvLocked (w_lockKey work)])"
      using got_lock [of i ?s2 work "rev (leaf_locks l)" ord api lk] assms(1) by simp
    ultimately show ?thesis using r Inr by simp
  qed
qed

lemma body_run:
  assumes "i < length (po_workers s)" and "doWork_locked ord env work = (events, outcome)" and "outcome \<noteq> Diverge"
  shows "(pool_step ord api lk)\<^sup>*\<^sup>* (move s i (WpLocked work ls) st es) (move s i (WpUnlocking work ls None) st (es @ events))"
proof -
  let ?s = "move s i (WpLocked work ls) st es"
  obtain pre out where check: "second_check ord (we_api2 env) (we_stopping2 env) work = (pre, out)" by fastforce
  show ?thesis
  proof (cases "out = Ret None \<or> out = Panic")
    case True
    then have "events = pre" using assms(2) check by (auto simp: doWork_locked_parts)
    moreover have "pool_step ord api lk ?s (move s i (WpUnlocking work ls None) st (es @ pre))"
      using no_call [OF _ _ check True, of i ?s ls api lk] assms(1) by simp
    ultimately show ?thesis by blast
  next
    case False
    moreover have "out \<noteq> Diverge" using assms(2,3) check by (auto simp: doWork_locked_parts)
    ultimately obtain cb attrMap attributes where out: "out = Ret (Some (cb, attrMap, attributes))"
      by (metis go.exhaust option.exhaust prod_cases3)
    let ?tail = "if we_callback env cb = Ret () \<and> we_listener env then [EvCallbackDone (w_ruleID work) attributes] else []"
    let ?s1 = "move s i (WpCallback work cb attributes ls) st (es @ pre @ [EvCallback cb attrMap])"
    have ev: "events = pre @ [EvCallback cb attrMap] @ ?tail" using assms(2) check out by (auto simp: doWork_locked_parts)
    have "pool_step ord api lk ?s ?s1"
      using call [of i ?s work ls ord "we_api2 env" "we_stopping2 env" pre cb attrMap attributes api lk] assms(1) check out by simp
    moreover have "pool_step ord api lk ?s1 (move s i (WpUnlocking work ls None) st (es @ events))"
      using returned [of i ?s1 work cb attributes ls ord api lk "we_callback env cb = Ret () \<and> we_listener env"] assms(1) ev by simp
    ultimately show ?thesis by (meson converse_rtranclp_into_rtranclp r_into_rtranclp)
  qed
qed

section \<open>A concrete run\<close>

text \<open>A work item, an etcd client whose calls succeed and a lock state without locks, for concrete runs.\<close>

definition item7 :: v3RuleWork where
  "item7 =
     \<lparr>w_rule = CompareLiteralRule (MapAttributes [(''x'', ''7'')]) ''/a/7'' (\<lambda>v. v = Some ''1'') ''%s = 1'',
      w_ruleID = ''r'', w_attr = MapAttributes [(''x'', ''7'')], w_metadata = [], w_ruleTaskCallback = Some 42,
      w_ruleIndex = 0, w_lockKey = ''/lock/7'', w_keyPattern = ''/lock/:x'', w_contextProvider = Some 0\<rparr>"

definition store7 :: "string list \<Rightarrow> string + read_get" where
  "store7 ks = Inr (\<lambda>k. Inr (if k = ''/a/7'' then Some ''1'' else None))"

definition calm_env :: work_env where
  "calm_env = \<lparr>we_api1 = store7, we_stopping1 = False, we_api2 = store7, we_stopping2 = False,
     we_callback = \<lambda>cb. Ret (), we_listener = False\<rparr>"

definition busy_api :: "unit etcd_api" where
  "busy_api = \<lparr>newSession = \<lambda>e. (Inr 0, e), mutex_Lock = \<lambda>s k e. (None, e), mutex_TryLock = \<lambda>s k e. (None, e),
     mutex_Unlock = \<lambda>s k e. (None, e), session_Close = \<lambda>s e. (None, e)\<rparr>"

definition free_locks :: "unit lock_state" where
  "free_locks = \<lparr>ls_maps = \<lambda>_. [], ls_cooloff = \<lambda>_. [], ls_now = 0, ls_etcd = (), ls_events = []\<rparr>"

lemma item7_checks:
  "sees_satisfied store7 (w_rule item7)"
  "second_check insertion_order store7 False item7 =
     ([EvQueueWait], Ret (Some (42, [(''x'', ''7'')], MapAttributes [(''x'', ''7'')])))"
  by (simp_all add: sees_satisfied_def second_check_def store7_def item7_def attr_map_def gm_get_def gm_keys_def)

lemma item7_lock:
  "\<exists>st1. work_lock busy_api (engine_locker False True 0 3 4) item7 free_locks =
     (Inr (NestedLock (ToggleLock 3 ''/lock/7'') (V3Lock (Some (0, ''/lock/7'')) None)), st1)"
  by (simp add: engine_locker_def Let_def busy_api_def free_locks_def item7_def toggle_Lock_def toggle_def lockWithTimeout_def gm_get_def)

lemma item7_run:
  "\<exists>st'. doWork insertion_order busy_api (engine_locker False True 0 3 4) calm_env item7 free_locks =
     ([EvLocked ''/lock/7'', EvQueueWait, EvCallback 42 [(''x'', ''7'')], EvUnlocked ''/lock/7'' None], st', Ret ())"
proof -
  obtain st1 where l: "work_lock busy_api (engine_locker False True 0 3 4) item7 free_locks =
      (Inr (NestedLock (ToggleLock 3 ''/lock/7'') (V3Lock (Some (0, ''/lock/7'')) None)), st1)" using item7_lock by blast
  have "first_check store7 False item7 = ([], True)"
    using first_check_sees [of store7 False item7] item7_checks(1) by (metis prod.collapse)
  moreover have "doWork_locked insertion_order calm_env item7 = ([EvQueueWait, EvCallback 42 [(''x'', ''7'')]], Ret ())"
    using item7_checks(2) by (simp add: doWork_locked_parts calm_env_def)
  moreover have "fst (Unlock busy_api (NestedLock (ToggleLock 3 ''/lock/7'') (V3Lock (Some (0, ''/lock/7'')) None)) [] st1) = None"
    by (simp add: busy_api_def toggle_Unlock_def v3Lock_Unlock_def unlockMaxRetries_def eval_nat_numeral split: prod.split)
  moreover have "w_lockKey item7 = ''/lock/7''" by (simp add: item7_def)
  ultimately show ?thesis
    using l by (auto simp: doWork_parts calm_env_def split: prod.splits)
qed

section \<open>Properties\<close>

text \<open>
  C11. The steps are those of the code: for every run of \<open>doWork\<close> that ends, whatever its two reads, the
  stop flag, the lock and the callback do, the worker alone goes from idle to idle through the steps,
  with the events of the run in their order and the lock state that the run leaves.
\<close>

theorem pool_runs_doWork:
  assumes "i < length (po_workers s)" and "po_workers s ! i = WpIdle" and "metrics_on_leaves lk"
    and "doWork ord api lk env work (po_locks s) = (events, st', outcome)" and "outcome \<noteq> Diverge"
  shows "(pool_step ord api lk)\<^sup>*\<^sup>* s (s\<lparr>po_locks := st', po_log := po_log s @ map (Pair i) events\<rparr>)"
proof -
  have idle: "move s i WpIdle st' events = s\<lparr>po_locks := st', po_log := po_log s @ map (Pair i) events\<rparr>"
    using assms(2) by (simp add: move_def list_update_same_conv assms(1))
  show ?thesis
  proof (cases "snd (first_check (we_api1 env) (we_stopping1 env) work)")
    case False
    then obtain es where es: "first_check (we_api1 env) (we_stopping1 env) work = (es, False)" by (metis prod.collapse)
    then have "events = es" "st' = po_locks s" using assms(4) by (simp_all add: doWork_parts)
    then show ?thesis using reject [OF assms(1,2) es, of ord api lk] idle by auto
  next
    case True
    note sees = True [unfolded first_check_sees]
    have fc: "first_check (we_api1 env) (we_stopping1 env) work = ([], True)"
      using True first_check_sees(2) by (metis prod.collapse)
    obtain r st1 where r: "work_lock api lk work (po_locks s) = (r, st1)" by fastforce
    note lock = lock_run [OF assms(1-3) conjunct1 [OF sees] conjunct2 [OF sees], of ord api]
    show ?thesis
    proof (cases r)
      case (Inl err)
      then show ?thesis using lock r assms(4) fc idle by (simp add: doWork_parts)
    next
      case (Inr l)
      obtain body out where body: "doWork_locked ord env work = (body, out)" by fastforce
      then have run: "events = EvLocked (w_lockKey work) # body @ [EvUnlocked (w_lockKey work) (fst (Unlock api l [] st1))]"
        "st' = snd (Unlock api l [] st1)" "out \<noteq> Diverge"
        using assms(4,5) fc r Inr by (auto simp: doWork_parts split: go.splits prod.splits)
      have "(pool_step ord api lk)\<^sup>*\<^sup>* s (move s i (WpLocked work (rev (leaf_locks l))) st1 [EvLocked (w_lockKey work)])"
        using lock r Inr by simp
      also have "(pool_step ord api lk)\<^sup>*\<^sup>* \<dots> (move s i (WpUnlocking work (rev (leaf_locks l)) None) st1 (EvLocked (w_lockKey work) # body))"
        using body_run [OF assms(1) body run(3), of api lk "rev (leaf_locks l)" st1 "[EvLocked (w_lockKey work)]"] by simp
      also have "(pool_step ord api lk)\<^sup>*\<^sup>* \<dots> (move s i WpIdle st' events)"
        using unlock_run_lock [OF assms(1), of ord api lk work l st1 "EvLocked (w_lockKey work) # body"] run(1,2) by simp
      finally show ?thesis unfolding idle .
    qed
  qed
qed

theorem pool_runs_doWork_witness:
  "\<exists>st'. (pool_step insertion_order busy_api (engine_locker False True 0 3 4))\<^sup>*\<^sup>* (pool_start 2 free_locks)
     \<lparr>po_workers = [WpIdle, WpIdle], po_locks = st',
      po_log = map (Pair 1) [EvLocked ''/lock/7'', EvQueueWait, EvCallback 42 [(''x'', ''7'')], EvUnlocked ''/lock/7'' None]\<rparr>"
proof -
  let ?lk = "engine_locker False True 0 3 4"
  let ?events = "[EvLocked ''/lock/7'', EvQueueWait, EvCallback 42 [(''x'', ''7'')], EvUnlocked ''/lock/7'' None]"
  obtain st' where run: "doWork insertion_order busy_api ?lk calm_env item7 free_locks = (?events, st', Ret ())"
    using item7_run by blast
  have "metrics_on_leaves ?lk" by (simp add: engine_locker_def Let_def)
  from pool_runs_doWork [of 1 "pool_start 2 free_locks", OF _ _ this, of insertion_order busy_api calm_env item7 ?events st' "Ret ()"]
  show ?thesis using run by (intro exI [of _ st']) (simp add: pool_start_def numeral_2_eq_2)
qed

text \<open>
  C3. Callbacks exclude each other: with the locker an engine has by default, in every interleaving of
  its workers, whatever etcd, the clock and the callbacks do, two workers are never at the same time in
  the callbacks of work items with the same lock key; indeed one is not even between getting and giving
  back the lock of the key while the other is in its callback.
\<close>

theorem callbacks_exclude_each_other:
  assumes "(pool_step ord api (engine_locker False useTryLock coolOff a c))\<^sup>*\<^sup>* (pool_start n st0) s" and "ls_maps st0 a = []"
    and "i < length (po_workers s)" and "j < length (po_workers s)"
    and "po_workers s ! i = WpCallback work cb attributes ls"
    and "po_workers s ! j = WpCallback work' cb' attributes' ls' \<or> po_workers s ! j = WpLocked work' ls'"
    and "w_lockKey work = w_lockKey work'"
  shows "i = j"
proof (rule workers.exclusive [OF assms(1), of n a "''map''" i j "w_lockKey work"])
  show "guarded_by a ''map'' (engine_locker False useTryLock coolOff a c)"
    by (simp add: guarded_by_def engine_locker_def Let_def)
qed (use assms in \<open>auto simp: pool_start_def locked_def\<close>)

theorem callbacks_exclude_each_other_witness:
  "\<exists>s ls. (pool_step insertion_order busy_api (engine_locker False True 0 3 4))\<^sup>*\<^sup>* (pool_start 2 free_locks) s \<and>
     po_workers s ! 0 = WpCallback item7 42 (MapAttributes [(''x'', ''7'')]) ls \<and>
     (\<forall>cb attributes ls'. po_workers s ! 1 \<noteq> WpCallback item7 cb attributes ls')"
proof -
  let ?lk = "engine_locker False True 0 3 4"
  let ?s = "pool_start 2 free_locks"
  have i: "0 < length (po_workers ?s)" "po_workers ?s ! 0 = WpIdle" by (simp_all add: pool_start_def)
  have m: "metrics_on_leaves ?lk" by (simp add: engine_locker_def Let_def)
  obtain l st' where l: "work_lock busy_api ?lk item7 free_locks = (Inr l, st')" using item7_lock by blast
  let ?s1 = "move ?s 0 (WpLocked item7 (rev (leaf_locks l))) st' [EvLocked ''/lock/7'']"
  let ?s2 = "move ?s 0 (WpCallback item7 42 (MapAttributes [(''x'', ''7'')]) (rev (leaf_locks l))) st'
    [EvLocked ''/lock/7'', EvQueueWait, EvCallback 42 [(''x'', ''7'')]]"
  have "(pool_step insertion_order busy_api ?lk)\<^sup>*\<^sup>* ?s ?s1"
    using lock_run [OF i m item7_checks(1), of False insertion_order busy_api] l
    by (simp add: pool_start_def item7_def)
  moreover have "pool_step insertion_order busy_api ?lk ?s1 ?s2"
    using call [OF _ _ item7_checks(2), of 0 ?s1 "rev (leaf_locks l)" busy_api ?lk] i by simp
  ultimately have reach: "(pool_step insertion_order busy_api ?lk)\<^sup>*\<^sup>* ?s ?s2" by (rule rtranclp.rtrancl_into_rtrancl)
  have n: "0 < length (po_workers ?s2)" "1 < length (po_workers ?s2)" by (simp_all add: pool_start_def)
  have at0: "po_workers ?s2 ! 0 = WpCallback item7 42 (MapAttributes [(''x'', ''7'')]) (rev (leaf_locks l))" using i(1) by simp
  have "ls_maps free_locks 3 = []" by (simp add: free_locks_def)
  note excl = callbacks_exclude_each_other [OF reach this n at0]
  have "po_workers ?s2 ! 1 \<noteq> WpCallback item7 cb attributes ls'" for cb attributes ls'
    using excl [of item7 cb attributes ls'] by auto
  then show ?thesis using reach at0 by blast
qed

end
