(* ===== verification/Wiring.thy ===== *)
theory Wiring
  imports Metrics
begin

text \<open>
  How an engine is connected to etcd (\<open>rules/engine.go\<close>, \<open>rules/worker.go\<close>, \<open>rules/watcher.go\<close>,
  \<open>rules/int_crawler.go\<close>): the constructors with a client, the wrappers that users put around the
  reads and the watches, and the clients that \<open>Run\<close> gives to the watchers, the crawler and the workers.
  The client and its \<open>KV\<close> and \<open>Watcher\<close> are parameters; types \<open>'c\<close>, \<open>'kv\<close> and \<open>'w\<close>.
\<close>

section \<open>Definitions\<close>

record ('c, 'kv, 'w) wired_engine =
  wi_engine :: v3Engine
  wi_kvWrapper :: "'kv \<Rightarrow> 'kv"
  wi_watcherWrapper :: "'w \<Rightarrow> 'w"
  wi_cl :: 'c

definition NewV3EngineWithClient :: "'c \<Rightarrow> engineOption list \<Rightarrow> nat \<Rightarrow> nat \<Rightarrow> ('c, 'kv, 'w) wired_engine go" where
  "NewV3EngineWithClient cl options mapAddr coolOffAddr =
     go_bind (newV3Engine options mapAddr coolOffAddr) (\<lambda>en.
       Ret \<lparr>wi_engine = en, wi_kvWrapper = defaultWrapKV, wi_watcherWrapper = defaultWrapWatcher, wi_cl = cl\<rparr>)"

text \<open>\<open>logger.Fatal\<close> ends the process.\<close>

definition NewV3Engine :: "string + 'c \<Rightarrow> engineOption list \<Rightarrow> nat \<Rightarrow> nat \<Rightarrow> ('c, 'kv, 'w) wired_engine go" where
  "NewV3Engine dialled options mapAddr coolOffAddr =
     (case dialled of Inl err \<Rightarrow> Panic | Inr cl \<Rightarrow> NewV3EngineWithClient cl options mapAddr coolOffAddr)"

definition SetKVWrapper :: "('kv \<Rightarrow> 'kv) \<Rightarrow> ('c, 'kv, 'w) wired_engine \<Rightarrow> ('c, 'kv, 'w) wired_engine" where
  "SetKVWrapper kvWrapper e = e\<lparr>wi_kvWrapper := kvWrapper\<rparr>"

definition SetWatcherWrapper :: "('w \<Rightarrow> 'w) \<Rightarrow> ('c, 'kv, 'w) wired_engine \<Rightarrow> ('c, 'kv, 'w) wired_engine" where
  "SetWatcherWrapper watcherWrapper e = e\<lparr>wi_watcherWrapper := watcherWrapper\<rparr>"

text \<open>What \<open>Run\<close> starts, each part with the clients it is given: the client read as \<open>KV\<close>, and a new watcher.\<close>

record ('kv, 'w) wired_parts =
  wp_watchers :: "(watcher \<times> 'kv \<times> 'w) list"
  wp_crawler :: "intCrawler \<times> 'kv"
  wp_workers :: "(string \<times> 'kv) list"

definition wired_Run ::
  "('c \<Rightarrow> 'kv) \<Rightarrow> ('c \<Rightarrow> 'w) \<Rightarrow> string range_order \<Rightarrow> ('c, 'kv, 'w) wired_engine \<Rightarrow> ('kv, 'w) wired_parts" where
  "wired_Run asKV newWatcher ord e =
     (let parts = engine_Run ord (wi_engine e);
          kv = wi_kvWrapper e (asKV (wi_cl e))
      in \<lparr>wp_watchers = map (\<lambda>w. (w, kv, wi_watcherWrapper e (newWatcher (wi_cl e)))) (ep_watchers parts),
          wp_crawler = (ep_crawler parts, kv),
          wp_workers = map (\<lambda>id'. (id', kv)) (ep_workers parts)\<rparr>)"

section \<open>Wrappers\<close>

text \<open>The setters are independent, keep the engine, and the last one of a kind counts.\<close>

lemma wrappers_commute:
  "SetKVWrapper f (SetWatcherWrapper g e) = SetWatcherWrapper g (SetKVWrapper f e)"
  "SetKVWrapper f (SetKVWrapper f' e) = SetKVWrapper f e"
  "SetWatcherWrapper g (SetWatcherWrapper g' e) = SetWatcherWrapper g e"
  "wi_engine (SetKVWrapper f e) = wi_engine e" "wi_engine (SetWatcherWrapper g e) = wi_engine e"
  by (simp_all add: SetKVWrapper_def SetWatcherWrapper_def)

text \<open>
  A new engine works on the client itself; after the setters, every read of the watchers, the crawler
  and the workers goes through the one wrapper and every watch through the other, and what is started
  is the same.
\<close>

lemma wired_Run_wrapped:
  assumes "NewV3EngineWithClient cl options mapAddr coolOffAddr = Ret e"
    and "p = wired_Run asKV newWatcher ord (SetKVWrapper f (SetWatcherWrapper g e))"
  shows "wired_Run asKV newWatcher ord e =
      \<lparr>wp_watchers = map (\<lambda>w. (w, asKV cl, newWatcher cl)) (ep_watchers (engine_Run ord (wi_engine e))),
       wp_crawler = (ep_crawler (engine_Run ord (wi_engine e)), asKV cl),
       wp_workers = map (\<lambda>i. (i, asKV cl)) (ep_workers (engine_Run ord (wi_engine e)))\<rparr>"
    and "\<forall>(w, kv, wa) \<in> set (wp_watchers p). kv = f (asKV cl) \<and> wa = g (newWatcher cl)"
    and "snd (wp_crawler p) = f (asKV cl)" and "\<forall>(i, kv) \<in> set (wp_workers p). kv = f (asKV cl)"
    and "map fst (wp_watchers p) = ep_watchers (engine_Run ord (wi_engine e))"
    and "map fst (wp_workers p) = ep_workers (engine_Run ord (wi_engine e))"
proof -
  have e: "wi_kvWrapper e = defaultWrapKV" "wi_watcherWrapper e = defaultWrapWatcher" "wi_cl e = cl"
    using assms(1) by (auto simp: NewV3EngineWithClient_def go_bind_eq_Ret)
  show "wired_Run asKV newWatcher ord e =
      \<lparr>wp_watchers = map (\<lambda>w. (w, asKV cl, newWatcher cl)) (ep_watchers (engine_Run ord (wi_engine e))),
       wp_crawler = (ep_crawler (engine_Run ord (wi_engine e)), asKV cl),
       wp_workers = map (\<lambda>i. (i, asKV cl)) (ep_workers (engine_Run ord (wi_engine e)))\<rparr>"
    by (simp add: wired_Run_def Let_def e defaultWrapKV_def defaultWrapWatcher_def)
  show "\<forall>(w, kv, wa) \<in> set (wp_watchers p). kv = f (asKV cl) \<and> wa = g (newWatcher cl)"
    "snd (wp_crawler p) = f (asKV cl)" "\<forall>(i, kv) \<in> set (wp_workers p). kv = f (asKV cl)"
    "map fst (wp_watchers p) = ep_watchers (engine_Run ord (wi_engine e))"
    "map fst (wp_workers p) = ep_workers (engine_Run ord (wi_engine e))"
    by (auto simp: assms(2) wired_Run_def SetKVWrapper_def SetWatcherWrapper_def Let_def e comp_def)
qed

end
