(* ===== verification/Spec2Isabelle.thy ===== *)
theory Spec2Isabelle
  imports EngineTest SessionManager Doubles Attributes RuleObjects Exclusion Wiring
begin

text \<open>
  \<^bold>\<open>A verification library for go-etcd-rules.\<close>

  The program is a rules engine on top of etcd. Users combine comparisons over key patterns such as
  \<open>/a/:id\<close> into rules and attach a callback and a lock pattern to each. Watchers and a crawler
  hand changed or stored keys to the key processor; it asks the rule manager which rules the key
  selects, evaluates them against one batch of reads, and queues a work item for every satisfied
  rule. Workers take the items, check the rule again before and after taking the rule's lock, and
  run the callback.

  \<^bold>\<open>Theories, in the order of the code.\<close>

  \<^item> \<open>Prelude\<close>: outcomes of Go code (\<open>Ret\<close>, \<open>Panic\<close>, \<open>Diverge\<close>), Go maps as
    association lists with distinct keys, and the arbitrary order in which \<open>range\<close> visits a map
    (\<open>range_order\<close>, a permutation; every theorem holds for all of them). The same order is used
    whenever a call visits the same list of keys.
  \<^item> \<open>GoStrings\<close>, \<open>Regexp\<close>: the functions of \<open>strings\<close>, \<open>fmt\<close> and \<open>regexp\<close> that the
    sources use. \<open>Regexp\<close> covers the expressions that \<open>parsePath\<close> produces from patterns whose
    literal text has no metacharacters, with leftmost unanchored search; the model rejects other
    patterns (\<open>RegexpNotModelled\<close>).
  \<^item> \<open>Matcher\<close>: \<open>rules/matcher.go\<close>, \<open>rules/constraint.go\<close> and the attribute types: patterns
    to matchers, matching, formatting, prefixes with constraints. Matching and formatting are
    inverse to each other; the prefixes of a constraint are the products of its characters.
  \<^item> \<open>StaticRule\<close>: \<open>rules/static_rule.go\<close> and the map-backed read APIs. Evaluation agrees with
    a boolean meaning (\<open>holds\<close>); the enhanced filter misses no trigger for rules without shared
    keys and keeps satisfied conjunctions, and loses a satisfied rule outside those classes. The
    locale \<open>read_api\<close> states what a cached API owes to its origin.
  \<^item> \<open>RuleObjects\<close>: the interface \<open>staticRule\<close> of the same file as tables of methods that embed and
    call each other as the classes do. The tables of a rule implement its boolean meaning \<open>holds\<close>, and
    every method does what the functions of \<open>StaticRule\<close> do.
  \<^item> \<open>DynamicRule\<close>: \<open>rules/dynamic_rule.go\<close> without rule expansion: constructors, the static
    rule a key makes, leaf representations, crawler patterns. A rule made for a key is the one its
    attributes determine and reacts to the key; when its leaves have one pattern each with the same
    parameters, keys formatted from its patterns make it; nothing panics.
  \<^item> \<open>Expansion\<close>: rule expansion and \<open>FormatRuleString\<close> of the same file. Expansion terminates
    and its rules correspond one by one to the choices of values (a value listed twice is two choices);
    each behaves like the original rule with its parameters resolved. For values that are not plain
    it may run forever.
  \<^item> \<open>RuleManager\<close>: \<open>rules/rule_manager.go\<close>. Rules are addresses into a heap, since the code
    keys its maps by rule pointers. Invariant of every sequence of \<open>addRule\<close> calls; rule selection
    is exact and complete; every key is below exactly one watch prefix.
  \<^item> \<open>KeyProcessor\<close>: \<open>rules/key_processor.go\<close>: exactly the selected and satisfied rules are
    queued, with the right attributes, callback and lock key; a rule without a context provider, which
    the option \<open>EngineContextProvider(nil)\<close> leads to, makes the key worker panic when it is dispatched.
  \<^item> \<open>Etcd\<close>, \<open>Watcher\<close>: \<open>rules/etcd.go\<close> and \<open>rules/watcher.go\<close>: the batch read answers like
    one state of the store and is an instance of \<open>read_api\<close>; the buffer of a key watcher refines the
    queue of the events received; a watcher submits all of them in order.
  \<^item> \<open>Crawler\<close>: \<open>rules/int_crawler.go\<close>: a crawl submits exactly the stored keys with work, under
    the mutex if one is configured.
  \<^item> \<open>Locks\<close>: \<open>rules/lock\<close>: all lockers and locks over a state of maps, clock, etcd and events;
    the interleavings of goroutines as a step relation over the calls of the lockers that are not
    nested. Mutual exclusion and no lost locks for the engine's locker, through the locale
    \<open>exclusive_locker\<close> interpreted for the map locker; retries; cool-off.
  \<^item> \<open>SessionManager\<close>: \<open>concurrency/session_manager.go\<close>: the session that all etcd locks share, as
    a client for the lockers; there is one session and one goroutine for it in every interleaving.
  \<^item> \<open>Worker\<close>: \<open>rules/worker.go\<close>: a run of \<open>doWork\<close> as the list of its events. The callback
    is guarded by two evaluations and the lock, and the lock is given back once.
  \<^item> \<open>Exclusion\<close>: the same function cut into steps that the workers of an engine interleave, through the
    locale \<open>lock_client\<close>. The steps include every run of \<open>doWork\<close>, and two callbacks with the same lock
    key never run at the same time.
  \<^item> \<open>Attributes\<close>: the attributes of a task (\<open>rules/key_processor.go\<close>, \<open>rules/dynamic_rule.go\<close>,
    \<open>rules/matcher.go\<close>) as callbacks see them: \<open>GetAttribute\<close>, \<open>Format\<close> and \<open>names\<close> of the three
    classes, through the locales \<open>extended_attributes\<close> and \<open>nesting_attributes\<close>.
  \<^item> \<open>Callbacks\<close>: \<open>rules/callback_listener.go\<close>: the report of a finished callback ends the wait for
    its rule and attributes.
  \<^item> \<open>Floats\<close>: \<open>float64\<close> and \<open>float32\<close> as the rational numbers they stand for, every operation
    followed by rounding to nearest even, with bounds on the errors; \<open>Duration.Seconds\<close>.
  \<^item> \<open>Jitter\<close>, \<open>Options\<close>: \<open>internal/jitter/duration.go\<close> and \<open>rules/options.go\<close>: random
    durations in this arithmetic, within their bounds at the width of \<open>int64\<close>; options as functions on
    records, applied in their order; the pause between two crawls.
  \<^item> \<open>Engine\<close>: \<open>rules/engine.go\<close>: registration with options, expansion and polling, over the
    engine's state with the memory of the rule objects; \<open>engine_reach\<close> are the engines that calls of
    the public methods lead to when all of them return, and their invariant says that every index is
    registered and that the two copies of the rule manager agree. A recovered panic of \<open>AddRule\<close> leads
    outside (\<open>AddRule_missing_ID_leaves_rule\<close>).
  \<^item> \<open>Shutdown\<close>: the loops of the crawler, the watchers and the workers and the goroutines that
    stop them, as one step relation; the locale \<open>stoppable\<close> is the interface they share. An engine
    that is marked as stopped has no running loop; idle engines can be stopped; a busy watcher or
    worker can block stopping forever.
  \<^item> \<open>Pipeline\<close>: the channel of the key processor, the key workers, the work channel and the workers as
    one step relation, with the capacities of the channels and the blocking of sends. The locale
    \<open>channel\<close> is the contract of both channels. Nothing is lost or duplicated, the engine comes to rest,
    and a flagged worker starts no item.
  \<^item> \<open>Metrics\<close>: \<open>rules/metrics.go\<close>, \<open>metrics/prometheus.go\<close> and the places that report: the method
    a context carries, the collectors with their labels, the calls of the lockers, workers, crawler and
    watchers. Lock metrics count the outcomes exactly, each under the name of its locker; all calls name
    a registered collector.
  \<^item> \<open>Wiring\<close>: the constructors with a client, the wrappers of users and the clients that \<open>Run\<close> hands to
    the parts of the engine; everything goes through the wrappers.
  \<^item> \<open>Doubles\<close>: \<open>rules/metrics_collector.go\<close>, \<open>rules/mock_metrics_collector.go\<close>,
    \<open>rules/mock_wrap_watcher.go\<close>, \<open>rules/lock/mock.go\<close>: the collector interface, its adaptor and the
    doubles; the recording collector records every call (locale \<open>recording_collector\<close>).
  \<^item> \<open>EngineTest\<close>: \<open>v3enginetest/main.go\<close>: the set-up of the example, its callbacks as lists of effects
    that goroutines interleave, with failures of etcd, and the run of its polling rules to their target.
  \<^item> This theory: the path from a changed key to the callback and from the store to the work queue,
    across all components.

  \<^bold>\<open>Parameters.\<close> The etcd client is not part of the repository: sessions and mutexes are the record
  \<open>etcd_api\<close> of functions over an abstract state; reads are the record \<open>etcd_kv\<close> with the law
  \<open>serves\<close> (what it answers is the content of one store, as etcd's transactions of gets and prefix
  reads do), from which the law \<open>reads_store\<close> of the components that evaluate rules is proved; a
  watch channel is the sequence of what it gives. Comparators, callbacks and context providers are
  given by the user.

  \<^bold>\<open>Bounds.\<close> Only \<open>Expand\<close> needs fuel: its height plus the number of its parameters in the map,
  plus one, is enough (\<open>Expand_terminates_exact\<close>), and running out of it is \<open>Diverge\<close>.
  \<open>formatPath\<close> recurses on the rest of the pattern, all other loops are over lists, and the retry
  loop of an etcd unlock counts down from five. Loops without end (\<open>run\<close> of the crawler, watchers
  and workers) are recursions over what their iterations meet, and program counters in \<open>Shutdown\<close>.

  \<^bold>\<open>Left out.\<close> Logging, and contexts and timeouts (a timeout is an error of the call). Floating-point
  numbers are finite, and no product is fused with a sum. The prometheus client is a parameter with the laws \<open>prometheus_laws\<close>.

  \<^bold>\<open>Not modelled.\<close> The in-memory store of the tests (\<open>rules/teststore\<close>), a client for an embedded etcd
  server; the body of \<open>main\<close> of the example between set-up and callbacks where it only dials etcd, starts
  an HTTP server and logs; buckets of histograms.

  \<^bold>\<open>Plan.\<close> Next are the composition of the stop protocol with the data path (one step relation for the
  goroutines that stop, the sources of keys and the workers), and the interface \<open>DynamicRule\<close> as objects.
\<close>

section \<open>From a changed key to the callback\<close>

lemma reads_store_sees:
  assumes "reads_store getCachedAPI st" and "satisfied rule (\<lambda>k. Inr (st k)) = Inr True"
  shows "sees_satisfied getCachedAPI rule"
proof -
  obtain api where api: "getCachedAPI (getKeys rule) = Inr api" "\<And>k. k \<in> set (getKeys rule) \<Longrightarrow> api k = Inr (st k)"
    using assms(1) unfolding reads_store_def by blast
  have "satisfied rule api = satisfied rule (\<lambda>k. Inr (st k))"
    by (rule satisfied_cong) (rule api(2))
  then show ?thesis using api(1) assms(2) by (simp add: sees_satisfied_def)
qed

lemma selects_pattern_key:
  assumes "rm_enhancedRuleFilter rm = False"
    and "built ord (heap r)" and "last_index (rm_rules rm) r i" and "uniform_in P (heap r)"
    and "p \<in> set (getPatterns (heap r))" and "normal_path p"
    and f: "\<And>n. n \<in> P \<Longrightarrow> \<exists>v. f n = Some v \<and> attr_value_ok v"
  shows "\<exists>sr a. selects heap rm (path_format f p) v sr i a \<and> makeStaticRule (heap r) (path_format f p) v = Ret (Some (sr, a))"
proof -
  note wf = built_wf [OF assms(2)] and fresh = built_fresh [OF assms(2)]
  obtain krp where krp: "krp \<in> set (leaves (heap r))" "p \<in> set (dr_patterns krp)"
    using assms(5) getPatterns_leaves [OF wf] by auto
  obtain sr a where make: "makeStaticRule (heap r) (path_format f p) v = Ret (Some (sr, a))"
    "satisfiable sr (path_format f p) v"
    using make_complete [OF wf fresh assms(4) krp, of f v] f by blast
  have "set (params p) \<subseteq> P"
    using uniform_leaves [OF assms(4) krp(1)] krp(2) by (auto simp: leaf_params_def)
  then have "strings_Count (path_format f p) slash = strings_Count p slash"
    using path_format_slashes [OF assms(6)] f by blast
  then have "has_slashes (heap r) (strings_Count (path_format f p) slash)"
    using assms(5) by (auto simp: has_slashes_def list_ex_iff)
  then show ?thesis
    using make assms(1,3) unfolding selects_def selected_def by auto
qed

text \<open>The work item that a satisfied rule of an engine gives.\<close>

definition engine_item ::
  "v3Engine \<Rightarrow> (string, string) gomap \<Rightarrow> static_rule \<Rightarrow> nat \<Rightarrow> attributes \<Rightarrow> string \<Rightarrow> v3RuleWork" where
  "engine_item en metadata sr i a lockPattern = work_item (full_keyProc en) metadata sr i a lockPattern"

lemma engine_item_fields:
  assumes "registered en i lockPattern cb ruleID ttl cp" and "attr_wf a"
  shows "w_rule (engine_item en metadata sr i a lockPattern) = sr"
    and "w_ruleTaskCallback (engine_item en metadata sr i a lockPattern) = Some cb"
    and "w_ruleID (engine_item en metadata sr i a lockPattern) = ruleID"
    and "w_contextProvider (engine_item en metadata sr i a lockPattern) = cp"
    and "w_ruleIndex (engine_item en metadata sr i a lockPattern) = i"
    and "FormatWithAttributes lockPattern a = Ret (w_lockKey (engine_item en metadata sr i a lockPattern))"
  using assms(1) FormatWithAttributes_attr [OF assms(2)]
  by (simp_all add: engine_item_def work_item_def registered_def rule_id_def engine_simps)

text \<open>The key processor of an engine queues precisely the items of the rules that a key selects and the store satisfies.\<close>

definition queued_item ::
  "v3Engine \<Rightarrow> (string \<Rightarrow> string option) \<Rightarrow> (string, string) gomap \<Rightarrow> string \<Rightarrow> string option \<Rightarrow> v3RuleWork \<Rightarrow> bool" where
  "queued_item en st metadata key v w \<longleftrightarrow>
     (\<exists>sr i a lockPattern. selects (en_heap en) (en_ruleMgr en) key v sr i a \<and> satisfied sr (\<lambda>k. Inr (st k)) = Inr True \<and>
        gm_get (kp_lockKeyPatterns (en_keyProc en)) i = Some lockPattern \<and> w = engine_item en metadata sr i a lockPattern)"

lemma engine_queues:
  assumes "engine_reach ord0 en" and "admissible (en_heap en) (en_ruleMgr en)" and "reads_store getCachedAPI st"
    and "eo_contextProvider (en_options en) \<noteq> None"
  shows "\<exists>ids ws. processKey ord ord' (en_heap en) (en_keyProc en) getCachedAPI key v metadata = Ret (ids, ws) \<and>
    (\<forall>w. w \<in> set ws \<longleftrightarrow> queued_item en st metadata key v w)"
proof -
  let ?kp = "full_keyProc en"
  note inv = engine_reach_inv [OF assms(1)]
  have m: "rm_inv (en_heap en) (kp_rm ?kp)" using managed_inv [OF engine_managed [OF inv]] .
  have adm: "admissible (en_heap en) (kp_rm ?kp)" using assms(2) by (simp add: engine_simps)
  show ?thesis
    using processKey_spec [OF m adm assms(3) providers_set_lacks [OF engine_providers_set [OF inv assms(4)]]]
    unfolding processKey_full(1) [OF inv] queued_item_def engine_item_def rule_sat_def engine_simps .
qed

text \<open>
  C1. End to end, for every engine that returning calls of its methods lead to, with the basic filter and
  a context provider (there is one unless the option sets it to nil), whose rules were built by the
  constructors without an empty AND or OR, and while reads of etcd answer: take a registered rule whose
  leaves have one normal pattern each over the same parameters, any of its patterns and admissible
  attribute values. The formatted key makes the rule, and if the rule is
  satisfied in etcd's store, a key worker that takes the task a watcher or the crawler submits for the
  key queues a work item with the rule's ID and lock key, and every worker that takes the item while
  the store stays as it is, is not stopping and gets the lock, calls the callback that was registered
  with the rule.
\<close>

theorem satisfied_rule_reaches_callback:
  assumes "engine_reach ord0 en" and "\<not> eo_enhancedRuleFilter (en_options en)"
    and "\<forall>r \<in> set (rm_rules (en_ruleMgr en)). built ord0 (en_heap en r) \<and> no_empty (en_heap en r)"
    and "last_index (rm_rules (en_ruleMgr en)) r i" and "uniform_in P (en_heap en r)"
    and "p \<in> set (getPatterns (en_heap en r))" and "normal_path p"
    and "\<forall>n \<in> P. \<exists>v. gm_get values n = Some v \<and> attr_value_ok v"
    and "serves kV st" and "\<forall>ops. \<not> isl (kv_Txn kV ops)"
    and "registered en i lockPattern cb ruleID ttl cp" and "eo_contextProvider (en_options en) \<noteq> None"
  shows "\<exists>key sr a. FormatWithAttributes p (MapAttributes values) = Ret key \<and>
    makeStaticRule (en_heap en r) key (st key) = Ret (Some (sr, a)) \<and>
    (satisfied sr (\<lambda>k. Inr (st k)) = Inr True \<longrightarrow>
      (\<exists>ws w. keyWorker ord ord' (en_heap en) (en_keyProc en) (etcd_readAPI tord kV)
          (v3_processKey key (st key) metadata []) queue = Ret ([], queue @ ws) \<and> w \<in> set ws \<and>
        w_rule w = sr \<and> w_ruleID w = ruleID \<and> FormatWithAttributes lockPattern a = Ret (w_lockKey w) \<and>
        (\<forall>env lst. reads_store (we_api1 env) st \<longrightarrow> reads_store (we_api2 env) st \<longrightarrow>
          \<not> we_stopping1 env \<longrightarrow> \<not> we_stopping2 env \<longrightarrow> \<not> isl (fst (work_lock api (en_locker en) w lst)) \<longrightarrow>
          (\<exists>m. EvCallback cb m \<in> set (fst (doWork ord'' api (en_locker en) env w lst))))))"
proof -
  let ?f = "attr_lookup (MapAttributes values)" and ?key = "path_format (attr_lookup (MapAttributes values)) p"
  note adm = rules_admissible [OF assms(3)]
  have b: "built ord0 (en_heap en r)" using assms(3,4) by (auto simp: last_index_def)
  have enh: "rm_enhancedRuleFilter (en_ruleMgr en) = False"
    using managed_config [OF engine_managed [OF engine_reach_inv [OF assms(1)]]] assms(2) by (simp add: engine_simps)
  have f: "\<And>n. n \<in> P \<Longrightarrow> \<exists>v. ?f n = Some v \<and> attr_value_ok v"
    using assms(8) by (simp add: attr_lookup_def)
  obtain sr a where sel: "selects (en_heap en) (en_ruleMgr en) ?key (st ?key) sr i a"
    and make: "makeStaticRule (en_heap en r) ?key (st ?key) = Ret (Some (sr, a))"
    using selects_pattern_key [of "en_ruleMgr en" ord0 "en_heap en" r i P p ?f "st ?key"] enh b assms(4-7) f by blast
  have attrs: "getAttributes sr = Ret a" using selects_dispatch(4) [OF adm sel] .
  have wfa: "attr_wf a" using make_attr_wf [OF built_wf [OF b] make] .
  have key: "FormatWithAttributes p (MapAttributes values) = Ret ?key"
    by (rule FormatWithAttributes_attr) simp
  have rd: "reads_store (etcd_readAPI tord kV) st" using serves_reads_store [OF assms(9)] assms(10) by blast
  let ?w = "engine_item en metadata sr i a lockPattern"
  note w = engine_item_fields [OF assms(11) wfa, of metadata sr]
  have "\<exists>ws. keyWorker ord ord' (en_heap en) (en_keyProc en) (etcd_readAPI tord kV)
      (v3_processKey ?key (st ?key) metadata []) queue = Ret ([], queue @ ws) \<and> ?w \<in> set ws"
    if "satisfied sr (\<lambda>k. Inr (st k)) = Inr True"
  proof -
    obtain ids ws where ws: "processKey ord ord' (en_heap en) (en_keyProc en) (etcd_readAPI tord kV) ?key (st ?key) metadata = Ret (ids, ws)"
      "\<forall>w. w \<in> set ws \<longleftrightarrow> queued_item en st metadata ?key (st ?key) w"
      using engine_queues [OF assms(1) adm rd assms(12), of ord ord' ?key "st ?key" metadata] by (elim exE conjE)
    have "queued_item en st metadata ?key (st ?key) ?w"
      using sel that assms(11) unfolding queued_item_def registered_def by blast
    then show ?thesis using ws by (simp add: keyWorker_def v3_processKey_def)
  qed
  moreover have "\<exists>m. EvCallback cb m \<in> set (fst (doWork ord'' api (en_locker en) env ?w lst))"
    if "satisfied sr (\<lambda>k. Inr (st k)) = Inr True" "reads_store (we_api1 env) st" "reads_store (we_api2 env) st"
      "\<not> we_stopping1 env" "\<not> we_stopping2 env" "\<not> isl (fst (work_lock api (en_locker en) ?w lst))" for env lst
    using doWork_callback_ex [of env ?w api "en_locker en" lst cb a ord''] reads_store_sees that w attrs wfa by auto
  ultimately show ?thesis using key make w(1,3,6) by blast
qed


theorem satisfied_rule_reaches_callback_witness:
  "\<exists>en r key sr a ws w. NewEqualsLiteralRule ''/a/:x'' (Some ''1'') = Inr r \<and> rule_contents en = [r] \<and>
     FormatWithAttributes ''/a/:x'' (MapAttributes [(''x'', ''7'')]) = Ret key \<and>
     makeStaticRule r key ([''/a/7'' \<mapsto> ''1''] key) = Ret (Some (sr, a)) \<and>
     satisfied sr (\<lambda>k. Inr ([''/a/7'' \<mapsto> ''1''] k)) = Inr True \<and>
     keyWorker insertion_order insertion_order (en_heap en) (en_keyProc en)
       (etcd_readAPI insertion_order \<lparr>kv_Get = \<lambda>k. Inl [], kv_Txn = \<lambda>ops. Inr (map (kv_entries [''/a/7'' \<mapsto> ''1'']) ops),
          kv_GetPrefix = \<lambda>p. Inl []\<rparr>)
       (v3_processKey key ([''/a/7'' \<mapsto> ''1''] key) [] []) [] = Ret ([], ws) \<and> w \<in> set ws \<and>
     w_rule w = sr \<and> w_ruleID w = ''one''"
proof -
  define r where "r = projr (NewEqualsLiteralRule ''/a/:x'' (Some ''1''))"
  have r: "NewEqualsLiteralRule ''/a/:x'' (Some ''1'') = Inr r" unfolding r_def by (rule Inr_projr) code_simp
  let ?st = "[''/a/7'' \<mapsto> ''1'']"
  let ?kV = "\<lparr>kv_Get = \<lambda>k. Inl [], kv_Txn = \<lambda>ops. Inr (map (kv_entries ?st) ops), kv_GetPrefix = \<lambda>p. Inl []\<rparr>"
  obtain en where en: "engine_reach insertion_order en" "en_options en = defaultEngineOptions" "rule_contents en = [r]"
    "registered en 0 ''/lock/:x'' 42 ''one'' 30 (Some defaultContextProvider)"
    using default_engine_with_rule [of insertion_order r "''/lock/:x''" 42] by (elim exE conjE)
  obtain q where q: "rm_rules (en_ruleMgr en) = [q]" "en_heap en q = r" using en(3) by (auto simp: rule_contents_def)
  have "no_empty r" unfolding r_def by code_simp
  then have ok: "\<forall>q \<in> set (rm_rules (en_ruleMgr en)). built insertion_order (en_heap en q) \<and> no_empty (en_heap en q)"
    using q built_literal [OF r] by simp
  have basic: "\<not> eo_enhancedRuleFilter (en_options en)" and cp: "eo_contextProvider (en_options en) \<noteq> None"
    unfolding en(2) by (simp_all add: defaultEngineOptions_def)
  have li: "last_index (rm_rules (en_ruleMgr en)) q 0" by (simp add: last_index_def q(1))
  have u: "uniform_in {''x''} (en_heap en q)" and p: "''/a/:x'' \<in> set (getPatterns (en_heap en q))"
    unfolding q(2) r_def by code_simp+
  have n: "normal_path ''/a/:x''" by code_simp
  have v: "\<forall>n \<in> {''x''}. \<exists>v. gm_get [(''x'', ''7'')] n = Some v \<and> attr_value_ok v"
    by (simp add: gm_get_def attr_value_ok_def rx_class_def)
  have srv: "serves ?kV ?st" "\<forall>ops. \<not> isl (kv_Txn ?kV ops)" by (simp_all add: serves_def)
  have key: "FormatWithAttributes ''/a/:x'' (MapAttributes [(''x'', ''7'')]) = Ret ''/a/7''" by code_simp
  let ?m = "makeStaticRule r ''/a/7'' (Some ''1'')"
  have sat: "satisfied (fst (go_some ?m)) (\<lambda>k. Inr (?st k)) = Inr True" unfolding r_def by code_simp
  obtain sr a where "makeStaticRule r ''/a/7'' (?st ''/a/7'') = Ret (Some (sr, a))" and
    run: "satisfied sr (\<lambda>k. Inr (?st k)) = Inr True \<longrightarrow> (\<exists>ws w. keyWorker insertion_order insertion_order (en_heap en)
      (en_keyProc en) (etcd_readAPI insertion_order ?kV) (v3_processKey ''/a/7'' (?st ''/a/7'') [] []) [] = Ret ([], ws) \<and>
      w \<in> set ws \<and> w_rule w = sr \<and> w_ruleID w = ''one'')"
    using satisfied_rule_reaches_callback [OF en(1) basic ok li u p n v srv en(4) cp, where ord = insertion_order
        and ord' = insertion_order and tord = insertion_order and metadata = "[]" and queue = "[]"
        and api = "undefined :: unit etcd_api" and ord'' = insertion_order]
    unfolding key q(2) append_Nil go.inject by blast
  moreover from this(1) have "satisfied sr (\<lambda>k. Inr (?st k)) = Inr True" using sat by (simp add: go_some_def)
  ultimately show ?thesis using r en(3) key by blast
qed

section \<open>From the store to the work queue\<close>

lemma engine_crawler_prefixes:
  "set (ic_prefixes (ep_crawler (engine_Run pord en))) = set (gm_keys (rm_prefixes (en_ruleMgr en)))"
  by (simp add: engine_Run_def newIntCrawler_def Let_def)

text \<open>
  C6. A crawl of the engine's crawler, followed by the key workers, is exact: without constraints, with a
  context provider of the engine (as there is unless the option sets it to nil), for normal patterns and
  while the store stays as it is, the work items queued are precisely those of
  the rules that a stored key below the watch prefixes selects and the store satisfies, each with the
  rule's registered settings.
\<close>

theorem crawl_queues_exactly:
  assumes "engine_reach ord0 en" and "eo_constraints (en_options en) = []"
    and "\<forall>r \<in> set (rm_rules (en_ruleMgr en)). built ord0 (en_heap en r) \<and> no_empty (en_heap en r)"
    and "normal_rules (en_heap en) (en_ruleMgr en)"
    and "serves (ce_kv env) st" and "\<forall>ops. \<not> isl (kv_Txn (ce_kv env) ops)" and "\<forall>q. \<not> isl (kv_GetPrefix (ce_kv env) q)"
    and "\<not> ce_stopping env" and "\<forall>i. \<not> ce_looks env i"
    and "eo_contextProvider (en_options en) \<noteq> None"
  shows "\<exists>ic n counts tasks. crawler_singleRun ord ord' kord mord (en_heap en) (en_keyProc en) env
      (ep_crawler (engine_Run pord en)) [] = Ret (ic, CrawlDone n counts, tasks) \<and>
    (\<forall>w. (\<exists>t ids ws. t \<in> set tasks \<and> processKey ord ord' (en_heap en) (en_keyProc en) (etcd_readAPI tord (ce_kv env))
            (kt_key t) (kt_value t) (kt_metadata t) = Ret (ids, ws) \<and> w \<in> set ws) \<longleftrightarrow>
      (\<exists>k v. below (gm_keys (rm_prefixes (en_ruleMgr en))) k \<and> st k = Some v \<and>
        queued_item en st [(''source'', ''crawler'')] k (Some v) w))"
proof -
  let ?kp = "full_keyProc en" and ?rm = "en_ruleMgr en" and ?heap = "en_heap en"
  let ?ic = "ep_crawler (engine_Run pord en)" and ?api = "etcd_readAPI tord (ce_kv env)"
  note inv = engine_reach_inv [OF assms(1)] and adm = rules_admissible [OF assms(3)]
  have m: "managed ord0 ?heap [] (eo_enhancedRuleFilter (en_options en)) (kp_rm ?kp)"
    using engine_managed [OF inv] assms(2) by simp
  have rd: "reads_store ?api st" using serves_reads_store [OF assms(5)] assms(6) by blast
  have px: "set (ic_prefixes ?ic) = set (gm_keys (rm_prefixes (kp_rm ?kp)))"
    by (simp add: engine_crawler_prefixes engine_simps)
  have bl: "below (ic_prefixes ?ic) k = below (gm_keys (rm_prefixes ?rm)) k" for k
    unfolding below_def list_ex_iff engine_crawler_prefixes ..
  have prefix_ok: "\<forall>p \<in> set (ic_prefixes ?ic). \<not> isl (kv_GetPrefix (ce_kv env) p)" using assms(7) by blast
  obtain ic n counts tasks where run: "crawler_singleRun ord ord' kord mord ?heap (en_keyProc en) env ?ic [] =
      Ret (ic, CrawlDone n counts, tasks)"
    and tasks: "\<And>t. t \<in> set tasks \<longleftrightarrow> (\<exists>k v. t = crawl_task k v \<and> below (gm_keys (rm_prefixes ?rm)) k \<and> st k = Some v \<and>
      has_work ?heap ?rm st k (Some v))"
    using crawl_exact [OF m _ _ px assms(5) prefix_ok assms(8,9), where ord = ord and ord' = ord' and kord = kord
        and mord = mord and kpChannel = "[]"] adm assms(4)
    unfolding crawler_full [OF inv] bl engine_simps append_Nil by blast
  let ?item = "queued_item en st [(''source'', ''crawler'')]"
  have proc: "(\<exists>ids ws. processKey ord ord' ?heap (en_keyProc en) ?api k (Some v) [(''source'', ''crawler'')] = Ret (ids, ws) \<and>
      w \<in> set ws) \<longleftrightarrow> ?item k (Some v) w" for k v w
    using engine_queues [OF assms(1) adm rd assms(10), of ord ord' k "Some v" "[(''source'', ''crawler'')]"] by (elim exE conjE) simp
  have work: "has_work ?heap ?rm st k (Some v)" if "?item k (Some v) w" for k v w
    using that unfolding queued_item_def has_work_def by blast
  have "(\<exists>t ids ws. t \<in> set tasks \<and> processKey ord ord' ?heap (en_keyProc en) ?api
          (kt_key t) (kt_value t) (kt_metadata t) = Ret (ids, ws) \<and> w \<in> set ws) \<longleftrightarrow>
      (\<exists>k v. below (gm_keys (rm_prefixes ?rm)) k \<and> st k = Some v \<and> ?item k (Some v) w)" (is "?L \<longleftrightarrow> ?R") for w
  proof
    assume ?L
    then obtain t where t: "t \<in> set tasks" "\<exists>ids ws. processKey ord ord' ?heap (en_keyProc en) ?api
        (kt_key t) (kt_value t) (kt_metadata t) = Ret (ids, ws) \<and> w \<in> set ws" by blast
    obtain k v where k: "t = crawl_task k v" "below (gm_keys (rm_prefixes ?rm)) k" "st k = Some v"
      using t(1) tasks by blast
    have "?item k (Some v) w" using t(2) proc [of k v w] unfolding k(1) crawl_task_def by simp
    then show ?R using k(2,3) by blast
  next
    assume ?R
    then obtain k v where k: "below (gm_keys (rm_prefixes ?rm)) k" "st k = Some v" "?item k (Some v) w" by blast
    have "crawl_task k v \<in> set tasks" using tasks k work by blast
    moreover have "\<exists>ids ws. processKey ord ord' ?heap (en_keyProc en) ?api (kt_key (crawl_task k v))
        (kt_value (crawl_task k v)) (kt_metadata (crawl_task k v)) = Ret (ids, ws) \<and> w \<in> set ws"
      using k(3) proc [of k v w] by (simp add: crawl_task_def)
    ultimately show ?L by blast
  qed
  then show ?thesis using run by blast
qed


theorem crawl_queues_exactly_witness:
  "\<exists>en r ic n counts tasks t ids ws w. NewEqualsLiteralRule ''/a/:x'' (Some ''1'') = Inr r \<and> rule_contents en = [r] \<and>
     crawler_singleRun insertion_order insertion_order insertion_order insertion_order (en_heap en) (en_keyProc en)
       \<lparr>ce_kv = \<lparr>kv_Get = \<lambda>k. Inl [], kv_Txn = \<lambda>ops. Inr (map (kv_entries [''/a/7'' \<mapsto> ''1'']) ops),
          kv_GetPrefix = \<lambda>p. Inr (if strings_HasPrefix ''/a/7'' p then [(''/a/7'', ''1'')] else [])\<rparr>,
        ce_stopping = False, ce_looks = \<lambda>i. False, ce_evaluated = [], ce_intervalSeconds = 300, ce_pauseLooks = \<lambda>i. False\<rparr>
       (ep_crawler (engine_Run insertion_order en)) [] = Ret (ic, CrawlDone n counts, tasks) \<and>
     t \<in> set tasks \<and> processKey insertion_order insertion_order (en_heap en) (en_keyProc en)
       (etcd_readAPI insertion_order \<lparr>kv_Get = \<lambda>k. Inl [], kv_Txn = \<lambda>ops. Inr (map (kv_entries [''/a/7'' \<mapsto> ''1'']) ops),
          kv_GetPrefix = \<lambda>p. Inr (if strings_HasPrefix ''/a/7'' p then [(''/a/7'', ''1'')] else [])\<rparr>)
       (kt_key t) (kt_value t) (kt_metadata t) = Ret (ids, ws) \<and> w \<in> set ws \<and> w_ruleID w = ''one''"
proof -
  define r where "r = projr (NewEqualsLiteralRule ''/a/:x'' (Some ''1''))"
  have r: "NewEqualsLiteralRule ''/a/:x'' (Some ''1'') = Inr r" unfolding r_def by (rule Inr_projr) code_simp
  let ?st = "[''/a/7'' \<mapsto> ''1'']" and ?f = "attr_lookup (MapAttributes [(''x'', ''7'')])"
  let ?kV = "\<lparr>kv_Get = \<lambda>k. Inl [], kv_Txn = \<lambda>ops. Inr (map (kv_entries ?st) ops),
    kv_GetPrefix = \<lambda>p. Inr (if strings_HasPrefix ''/a/7'' p then [(''/a/7'', ''1'')] else [])\<rparr>"
  let ?env = "\<lparr>ce_kv = ?kV, ce_stopping = False, ce_looks = \<lambda>i. False, ce_evaluated = [], ce_intervalSeconds = 300,
    ce_pauseLooks = \<lambda>i. False\<rparr>"
  obtain en where en: "engine_reach insertion_order en" "en_options en = defaultEngineOptions" "rule_contents en = [r]"
    "registered en 0 ''/lock/:x'' 42 ''one'' 30 (Some defaultContextProvider)"
    using default_engine_with_rule [of insertion_order r "''/lock/:x''" 42] by (elim exE conjE)
  obtain q where q: "rm_rules (en_ruleMgr en) = [q]" "en_heap en q = r" using en(3) by (auto simp: rule_contents_def)
  have b: "built insertion_order (en_heap en q)" unfolding q(2) by (rule built_literal [OF r])
  have "no_empty r" unfolding r_def by code_simp
  then have ok: "\<forall>q \<in> set (rm_rules (en_ruleMgr en)). built insertion_order (en_heap en q) \<and> no_empty (en_heap en q)"
    using q b by simp
  have m: "managed insertion_order (en_heap en) [] False (en_ruleMgr en)" "eo_constraints (en_options en) = []"
    using engine_managed [OF engine_reach_inv [OF en(1)]] by (simp_all add: en(2) defaultEngineOptions_def engine_simps)
  have pats: "getPatterns (en_heap en q) = [''/a/:x'']" and u: "uniform_in {''x''} (en_heap en q)"
    unfolding q(2) r_def by code_simp+
  have n: "normal_path ''/a/:x''" "literal_segments_no_colon ''/a/:x''" by code_simp+
  have key: "path_format ?f ''/a/:x'' = ''/a/7''" by code_simp
  have "first_param_allowed (rm_constraints (en_ruleMgr en)) ?f ''/a/:x''"
    using managed_config [OF m(1)] by (simp add: first_param_allowed_def gm_get_def split: list.split)
  then have "\<exists>p \<in> set (gm_keys (rm_prefixes (en_ruleMgr en))). prefix p ''/a/7''"
    using registered_pattern_covered [OF managed_inv [OF m(1)] _ built_wf [OF b] _ n, of ?f] q(1) pats key by simp
  then have bl: "below (gm_keys (rm_prefixes (en_ruleMgr en))) ''/a/7''"
    by (auto simp: below_def list_ex_iff str_simps)
  have f: "\<And>n. n \<in> {''x''} \<Longrightarrow> \<exists>v. ?f n = Some v \<and> attr_value_ok v"
    by (simp add: attr_lookup_def gm_get_def attr_value_ok_def rx_class_def)
  have basic: "rm_enhancedRuleFilter (en_ruleMgr en) = False" using managed_config [OF m(1)] by simp
  have li: "last_index (rm_rules (en_ruleMgr en)) q 0" by (simp add: last_index_def q(1))
  obtain sr a where sel: "selects (en_heap en) (en_ruleMgr en) ''/a/7'' (Some ''1'') sr 0 a"
    and make: "makeStaticRule r ''/a/7'' (Some ''1'') = Ret (Some (sr, a))"
    using selects_pattern_key [of "en_ruleMgr en" insertion_order "en_heap en" q 0 "{''x''}" "''/a/:x''" ?f "Some ''1''"]
      basic b li u n(1) f pats unfolding key q(2) by auto
  have "satisfied (fst (go_some (makeStaticRule r ''/a/7'' (Some ''1'')))) (\<lambda>k. Inr (?st k)) = Inr True"
    unfolding r_def by code_simp
  then have "satisfied sr (\<lambda>k. Inr (?st k)) = Inr True" unfolding make by (simp add: go_some_def)
  then have item: "queued_item en ?st [(''source'', ''crawler'')] ''/a/7'' (Some ''1'')
      (engine_item en [(''source'', ''crawler'')] sr 0 a ''/lock/:x'')"
    using sel en(4) unfolding queued_item_def registered_def by blast
  have wid: "w_ruleID (engine_item en [(''source'', ''crawler'')] sr 0 a ''/lock/:x'') = ''one''"
    using make_attr_wf [OF built_wf [OF b], unfolded q(2), OF make] engine_item_fields(3) [OF en(4)] by blast
  have cp: "eo_contextProvider (en_options en) \<noteq> None" by (simp add: en(2) defaultEngineOptions_def)
  have srv: "serves (ce_kv ?env) ?st" by (auto simp: serves_def)
  have nr: "normal_rules (en_heap en) (en_ruleMgr en)" using pats n by (simp add: normal_rules_def q(1))
  let ?w = "engine_item en [(''source'', ''crawler'')] sr 0 a ''/lock/:x''"
  have reads: "\<forall>ops. \<not> isl (kv_Txn (ce_kv ?env) ops)" "\<forall>q. \<not> isl (kv_GetPrefix (ce_kv ?env) q)" "\<not> ce_stopping ?env"
    "\<forall>i. \<not> ce_looks ?env i" by simp_all
  obtain ic n counts tasks where
    run: "crawler_singleRun insertion_order insertion_order insertion_order insertion_order (en_heap en) (en_keyProc en) ?env
      (ep_crawler (engine_Run insertion_order en)) [] = Ret (ic, CrawlDone n counts, tasks)"
    and items: "\<forall>w. (\<exists>t ids ws. t \<in> set tasks \<and> processKey insertion_order insertion_order (en_heap en) (en_keyProc en)
        (etcd_readAPI insertion_order (ce_kv ?env)) (kt_key t) (kt_value t) (kt_metadata t) = Ret (ids, ws) \<and> w \<in> set ws) \<longleftrightarrow>
      (\<exists>k v. below (gm_keys (rm_prefixes (en_ruleMgr en))) k \<and> ?st k = Some v \<and>
        queued_item en ?st [(''source'', ''crawler'')] k (Some v) w)"
    using crawl_queues_exactly [OF en(1) m(2) ok nr srv reads cp, where ord = insertion_order and ord' = insertion_order
        and kord = insertion_order and mord = insertion_order and tord = insertion_order and pord = insertion_order]
    by (elim exE conjE)
  have "\<exists>k v. below (gm_keys (rm_prefixes (en_ruleMgr en))) k \<and> ?st k = Some v \<and>
      queued_item en ?st [(''source'', ''crawler'')] k (Some v) ?w"
    using bl item by (intro exI [of _ "''/a/7''"] exI [of _ "''1''"]) simp
  then obtain t ids ws where "t \<in> set tasks" "processKey insertion_order insertion_order (en_heap en) (en_keyProc en)
      (etcd_readAPI insertion_order (ce_kv ?env)) (kt_key t) (kt_value t) (kt_metadata t) = Ret (ids, ws)" "?w \<in> set ws"
    unfolding items [rule_format, symmetric] by (elim exE conjE)
  then show ?thesis using run wid r en(3) unfolding crawl_env.simps by blast
qed

section \<open>From submitted keys to performed work\<close>

text \<open>The reads that a client which answers from the store gives to the key workers.\<close>

definition reads_from :: "etcd_kv \<Rightarrow> read_answers" where
  "reads_from kV getCachedAPI \<longleftrightarrow> (\<exists>tord. getCachedAPI = etcd_readAPI tord kV)"

lemma evaluates_queued:
  assumes "engine_reach ord0 en" and "admissible (en_heap en) (en_ruleMgr en)"
    and "serves kV st" and "\<forall>ops. \<not> isl (kv_Txn kV ops)" and "evaluates en (reads_from kV) t (Ret (ids, works))"
    and "eo_contextProvider (en_options en) \<noteq> None"
  shows "w \<in> set works \<longleftrightarrow> queued_item en st (kt_metadata t) (kt_key t) (kt_value t) w"
proof -
  obtain ord ord' tord where run: "processKey ord ord' (en_heap en) (en_keyProc en) (etcd_readAPI tord kV)
      (kt_key t) (kt_value t) (kt_metadata t) = Ret (ids, works)"
    using assms(5) by (auto simp: evaluates_def reads_from_def)
  have "reads_store (etcd_readAPI tord kV) st" using serves_reads_store [OF assms(3)] assms(4) by blast
  from engine_queues [OF assms(1,2) this assms(6), of ord ord' "kt_key t" "kt_value t" "kt_metadata t"] run
  show ?thesis by auto
qed

text \<open>A default engine with one rule, and a store that satisfies it.\<close>

definition small_store :: "string \<Rightarrow> string option" where
  "small_store = [''/a/7'' \<mapsto> ''1'']"

definition small_kV :: etcd_kv where
  "small_kV = \<lparr>kv_Get = \<lambda>k. Inl [], kv_Txn = \<lambda>ops. Inr (map (kv_entries small_store) ops), kv_GetPrefix = \<lambda>p. Inl []\<rparr>"

lemma small_kV_serves: "serves small_kV small_store" "\<forall>ops. \<not> isl (kv_Txn small_kV ops)"
  by (simp_all add: serves_def small_kV_def)

lemma small_engine:
  "\<exists>en w. engine_reach insertion_order en \<and> en_options en = defaultEngineOptions \<and>
     (\<forall>q \<in> set (rm_rules (en_ruleMgr en)). built insertion_order (en_heap en q) \<and> no_empty (en_heap en q)) \<and>
     queued_item en small_store [] ''/a/7'' (Some ''1'') w \<and> w_ruleID w = ''one''"
proof -
  define r where "r = projr (NewEqualsLiteralRule ''/a/:x'' (Some ''1''))"
  have r: "NewEqualsLiteralRule ''/a/:x'' (Some ''1'') = Inr r" unfolding r_def by (rule Inr_projr) code_simp
  obtain en where en: "engine_reach insertion_order en" "en_options en = defaultEngineOptions" "rule_contents en = [r]"
    "registered en 0 ''/lock/:x'' 42 ''one'' 30 (Some defaultContextProvider)"
    using default_engine_with_rule [of insertion_order r "''/lock/:x''" 42] by (elim exE conjE)
  obtain q where q: "rm_rules (en_ruleMgr en) = [q]" "en_heap en q = r" using en(3) by (auto simp: rule_contents_def)
  have "no_empty r" unfolding r_def by code_simp
  then have ok: "\<forall>q \<in> set (rm_rules (en_ruleMgr en)). built insertion_order (en_heap en q) \<and> no_empty (en_heap en q)"
    using q built_literal [OF r] by simp
  let ?m = "makeStaticRule r ''/a/7'' (Some ''1'')"
  have "go_is_some ?m" unfolding r_def by code_simp
  then have mk: "?m = Ret (Some (fst (go_some ?m), snd (go_some ?m)))" using go_some_eq by simp
  have hs: "has_slashes (en_heap en q) (strings_Count ''/a/7'' slash)" unfolding q(2) r_def by code_simp
  have sel: "selected e (fst (go_some ?m)) ''/a/7'' (Some ''1'')" for e
    unfolding r_def by (cases e) (simp_all only:, code_simp, code_simp)
  have s: "selects (en_heap en) (en_ruleMgr en) ''/a/7'' (Some ''1'') (fst (go_some ?m)) 0 (snd (go_some ?m))"
    unfolding selects_def using hs sel mk by (intro exI [of _ q]) (simp add: last_index_def q)
  have sat: "satisfied (fst (go_some ?m)) (\<lambda>k. Inr (small_store k)) = Inr True" unfolding r_def small_store_def by code_simp
  let ?w = "engine_item en [] (fst (go_some ?m)) 0 (snd (go_some ?m)) ''/lock/:x''"
  have "queued_item en small_store [] ''/a/7'' (Some ''1'') ?w"
    unfolding queued_item_def using s sat en(4) by (auto simp: registered_def)
  moreover have "attr_wf (snd (go_some ?m))" using make_attr_wf [OF built_wf [OF built_literal [OF r]] mk] .
  then have "w_ruleID ?w = ''one''" using engine_item_fields(3) [OF en(4)] by blast
  ultimately show ?thesis using en(1,2) ok by blast
qed

text \<open>
  C4. The data path of a running engine with a context provider (there is one unless the option sets it to
  nil) does exactly the work there is: while the store stays as it is
  and no worker is told to stop, whenever the engine's goroutines have come to rest, under whichever
  interleaving, the work items performed are precisely those of the rules that a submitted key selects
  and the store satisfies.
\<close>

theorem pipeline_performs_exactly:
  assumes "engine_reach ord0 en" and "\<forall>r \<in> set (rm_rules (en_ruleMgr en)). built ord0 (en_heap en r) \<and> no_empty (en_heap en r)"
    and "0 < eo_concurrency (en_options en)" and "0 < eo_keyProcConcurrency (en_options en)"
    and "serves kV st" and "\<forall>ops. \<not> isl (kv_Txn kV ops)"
    and "pipe_reach en (reads_from kV) s" and "\<forall>w \<in> set (pl_workers s). \<not> wk_stopping (pw_proc w)"
    and "(drain_step en (reads_from kV))\<^sup>*\<^sup>* s s'" and "\<nexists>s''. drain_step en (reads_from kV) s' s''"
    and "eo_contextProvider (en_options en) \<noteq> None"
  shows "w \<in> set (pl_performed s') \<longleftrightarrow>
    (\<exists>t \<in> set (pl_submitted s). queued_item en st (kt_metadata t) (kt_key t) (kt_value t) w)"
proof -
  have rd: "reads_from kV (etcd_readAPI insertion_order kV)" by (auto simp: reads_from_def)
  have flags: "unflagged s" using assms(8) by (simp add: unflagged_def list_all_iff)
  note d = drained [OF assms(1-4) rd assms(7) flags assms(9,10,11)]
  have tasks: "set (pl_submitted s) = fst ` set (pl_evaluated s')" using d(2) [THEN mset_eq_setD] by simp
  have "set (pl_performed s') = set (concat (map snd (pl_evaluated s')))" using d(3) by (rule mset_eq_setD)
  moreover have "w \<in> set works \<longleftrightarrow> queued_item en st (kt_metadata t) (kt_key t) (kt_value t) w"
    if "(t, works) \<in> set (pl_evaluated s')" for t works
    using pipe_reach_inv [OF d(1)] that evaluates_queued [OF assms(1) rules_admissible [OF assms(2)] assms(5,6) _ assms(11)]
    by (auto simp: pipe_inv_def)
  ultimately show ?thesis using tasks by force
qed

theorem pipeline_performs_exactly_witness:
  "\<exists>en s' w. (drain_step en (reads_from small_kV))\<^sup>*\<^sup>* (one_task en) s' \<and> w \<in> set (pl_performed s') \<and> w_ruleID w = ''one''"
proof -
  obtain en w where en: "engine_reach insertion_order en" "en_options en = defaultEngineOptions"
    "\<forall>q \<in> set (rm_rules (en_ruleMgr en)). built insertion_order (en_heap en q) \<and> no_empty (en_heap en q)"
    and w: "queued_item en small_store [] ''/a/7'' (Some ''1'') w" "w_ruleID w = ''one''"
    using small_engine by blast
  have cp: "eo_contextProvider (en_options en) \<noteq> None" by (simp add: en(2) defaultEngineOptions_def)
  have n: "0 < eo_concurrency (en_options en)" "0 < eo_keyProcConcurrency (en_options en)"
    by (simp_all add: en(2) defaultEngineOptions_def)
  have flags: "\<forall>w \<in> set (pl_workers (one_task en)). \<not> wk_stopping (pw_proc w)" by (simp add: one_task_def pipe_start_def)
  obtain s' where s': "(drain_step en (reads_from small_kV))\<^sup>*\<^sup>* (one_task en) s'" "\<nexists>s''. drain_step en (reads_from small_kV) s' s''"
    using wf_run_ends [OF wf_drain] by blast
  have "w \<in> set (pl_performed s')"
    using pipeline_performs_exactly [OF en(1,3) n small_kV_serves one_task_reach [OF en(2)] flags s' cp] w(1)
    by (simp add: one_task_def v3_processKey_def)
  then show ?thesis using s'(1) w(2) by blast
qed

text \<open>
  C39. The key workers are never stopped: with the default unbuffered work channel, every engine of which
  some key makes a key worker produce an item can come into a state in which all its workers have ended
  and a key worker waits for the rest of its life to hand over that item.
\<close>

theorem stopped_engine_leaks_key_worker:
  assumes "evaluates en rd task (Ret (ids, work # works))" and "0 < eo_keyProcConcurrency (en_options en)"
    and "eo_ruleWorkBuffer (en_options en) = 0"
  shows "\<exists>s. pipe_reach en rd s \<and> (\<forall>w \<in> set (pl_workers s). wk_stopped (pw_proc w)) \<and>
    (\<forall>s'. (any_step en rd)\<^sup>*\<^sup>* s s' \<longrightarrow> pl_keyWorkers s' ! 0 = KwSend (work # works))"
proof -
  let ?n = "nat (eo_concurrency (en_options en))"
  let ?s0 = "pipe_start en"
  let ?s1 = "(set_key_worker ?s0 0 (KwProcess task))\<lparr>pl_submitted := pl_submitted ?s0 @ [task], pl_taken := pl_taken ?s0 @ [task]\<rparr>"
  let ?s2 = "(set_key_worker ?s1 0 (KwSend (work # works)))\<lparr>pl_evaluated := pl_evaluated ?s1 @ [(task, work # works)]\<rparr>"
  let ?s3 = "?s2\<lparr>pl_workers := [] @ replicate ?n \<lparr>pw_proc = ended_proc, pw_work = None\<rparr>\<rparr>"
  have "v3_processKey (kt_key task) (kt_value task) (kt_metadata task) [] = [task]" by (simp add: v3_processKey_def)
  then have "pipe_step en rd Submitter ?s0 ?s1"
    using assms(2) by (intro submit_handover) (simp_all add: pipe_start_def)
  moreover have "pipe_step en rd (KeyWorker 0) ?s1 ?s2"
    using assms(1,2) by (intro evaluate) (simp_all add: pipe_start_def set_key_worker_def)
  moreover have "(any_step en rd)\<^sup>*\<^sup>* ?s2 ?s3"
    by (rule workers_end) (simp_all add: pipe_start_def set_key_worker_def)
  ultimately have reach: "pipe_reach en rd ?s3"
    using pipe_reach_step [OF pipe_reach_step [OF pipe_reach_start]] unfolding pipe_reach_def by (meson rtranclp_trans)
  have "blocked_sender en 0 (work # works) ?s3"
    using assms(2,3)
    by (simp add: blocked_sender_def work_capacity_def pipe_start_def set_key_worker_def worker_ok_def list_all_iff)
  then have "pl_keyWorkers s' ! 0 = KwSend (work # works)" if "(any_step en rd)\<^sup>*\<^sup>* ?s3 s'" for s'
    using blocked_sender_run [OF that] by (simp add: blocked_sender_def)
  then show ?thesis using reach by (intro exI [of _ ?s3]) simp
qed

theorem stopped_engine_leaks_key_worker_witness:
  "\<exists>en s work works. en_options en = defaultEngineOptions \<and> pipe_reach en (reads_from small_kV) s \<and>
     (\<forall>w \<in> set (pl_workers s). wk_stopped (pw_proc w)) \<and>
     (\<forall>s'. (any_step en (reads_from small_kV))\<^sup>*\<^sup>* s s' \<longrightarrow> pl_keyWorkers s' ! 0 = KwSend (work # works))"
proof -
  obtain en w where en: "engine_reach insertion_order en" "en_options en = defaultEngineOptions"
    "\<forall>q \<in> set (rm_rules (en_ruleMgr en)). built insertion_order (en_heap en q) \<and> no_empty (en_heap en q)"
    and w: "queued_item en small_store [] ''/a/7'' (Some ''1'') w"
    using small_engine by blast
  let ?t = "\<lparr>kt_key = ''/a/7'', kt_value = Some ''1'', kt_metadata = []\<rparr>"
  have adm: "admissible (en_heap en) (en_ruleMgr en)" using rules_admissible [OF en(3)] .
  have cp: "eo_contextProvider (en_options en) \<noteq> None" by (simp add: en(2) defaultEngineOptions_def)
  obtain ids ws where ws: "evaluates en (reads_from small_kV) ?t (Ret (ids, ws))"
    using evaluates_returns(2) [OF en(1) adm cp, of "reads_from small_kV" ?t] by (auto simp: reads_from_def)
  have "w \<in> set ws" using evaluates_queued [OF en(1) adm small_kV_serves ws cp, of w] w by simp
  then obtain work works where "ws = work # works" by (cases ws) auto
  then show ?thesis
    using stopped_engine_leaks_key_worker [of en "reads_from small_kV" ?t ids work works] ws en(2)
    by (auto simp: defaultEngineOptions_def)
qed

end
